(* ===== verification/Prelude.thy ===== *)
theory Prelude
  imports Main "HOL-Library.Word" "HOL-Library.AList"
begin

text \<open>
  Shared vocabulary of the development: the machine integers of the Rust sources, byte
  strings, \<open>Result\<close> values as sums, saturating arithmetic, little-endian encodings and the
  list lemmas the component theories use.

  A Rust \<open>Result<T, E>\<close> is a sum \<open>'e + 't\<close> with \<^term>\<open>Inl\<close> for the error; the \<open>?\<close>
  operator is \<open>res_bind\<close>. A \<open>usize\<close> that indexes or measures a slice is a \<open>nat\<close>: a
  slice has at most \<open>isize::MAX\<close> bytes, so no index arithmetic on it can wrap. A fixed-size
  array \<open>[u8; N]\<close> is a byte list whose length is stated where it matters. Signed integers
  keep their bit pattern (\<open>i32\<close> is a 32-bit word read with \<^term>\<open>sint\<close>).
\<close>

section \<open>Machine integers and bytes\<close>

type_synonym byte = "8 word"
type_synonym bytes = "8 word list"
type_synonym u8 = "8 word"
type_synonym u16 = "16 word"
type_synonym u32 = "32 word"
type_synonym u64 = "64 word"
type_synonym i32 = "32 word"
type_synonym i64 = "64 word"

named_theorems codec_simps \<open>equations that evaluate encoders and decoders\<close>
named_theorems res_simps \<open>equations for the error monad\<close>

text \<open>Rust's \<open>saturating_add\<close> and \<open>saturating_sub\<close> on unsigned integers.\<close>

definition saturating_add :: "'a::len word \<Rightarrow> 'a word \<Rightarrow> 'a word" where
  "saturating_add x y = (if unat x + unat y < 2 ^ LENGTH('a) then x + y else - 1)"

definition saturating_sub :: "'a::len word \<Rightarrow> 'a word \<Rightarrow> 'a word" where
  "saturating_sub x y = (if y \<le> x then x - y else 0)"

lemma unat_of_nat_less: "n < 2 ^ LENGTH('a) \<Longrightarrow> unat (of_nat n :: 'a::len word) = n"
  by (simp add: unat_of_nat take_bit_nat_eq_self)

lemma unat_minus_one_word': "unat (- 1 :: 'a::len word) = 2 ^ LENGTH('a) - 1"
  by (simp add: unsigned_minus_1_eq_mask mask_eq_exp_minus_1)

lemma unat_saturating_add:
  "unat (saturating_add x y) = min (unat x + unat y) (2 ^ LENGTH('a) - 1)"
  for x y :: "'a::len word"
proof (cases "unat x + unat y < 2 ^ LENGTH('a)")
  case True
  then show ?thesis
    by (simp add: saturating_add_def unat_word_ariths)
next
  case False
  then show ?thesis
    by (simp add: saturating_add_def unat_minus_one_word')
qed

lemma unat_saturating_sub:
  "unat (saturating_sub x y) = unat x - unat y" for x y :: "'a::len word"
  by (auto simp: saturating_sub_def unat_sub word_le_nat_alt)

section \<open>Results\<close>

fun res_bind :: "'e + 'a \<Rightarrow> ('a \<Rightarrow> 'e + 'b) \<Rightarrow> 'e + 'b" where
  "res_bind (Inl e) f = Inl e"
| "res_bind (Inr x) f = f x"

fun map_err :: "('e \<Rightarrow> 'f) \<Rightarrow> 'e + 'a \<Rightarrow> 'f + 'a" where
  "map_err g (Inl e) = Inl (g e)"
| "map_err g (Inr x) = Inr x"

fun ok_or :: "'a option \<Rightarrow> 'e \<Rightarrow> 'e + 'a" where
  "ok_or None e = Inl e"
| "ok_or (Some x) e = Inr x"

lemma res_bind_cong [fundef_cong]:
  "m = m' \<Longrightarrow> (\<And>x. m' = Inr x \<Longrightarrow> f x = f' x) \<Longrightarrow> res_bind m f = res_bind m' f'"
  by (cases m') auto

lemma res_bind_Inr_iff [res_simps]:
  "res_bind m f = Inr y \<longleftrightarrow> (\<exists>x. m = Inr x \<and> f x = Inr y)"
  by (cases m) auto

lemma res_bind_Inl_iff [res_simps]:
  "res_bind m f = Inl e \<longleftrightarrow> m = Inl e \<or> (\<exists>x. m = Inr x \<and> f x = Inl e)"
  by (cases m) auto

lemma map_err_Inr_iff [res_simps]: "map_err g m = Inr y \<longleftrightarrow> m = Inr y"
  by (cases m) auto

lemma map_err_Inl_iff [res_simps]: "map_err g m = Inl e \<longleftrightarrow> (\<exists>d. m = Inl d \<and> e = g d)"
  by (cases m) auto

lemma ok_or_Inr_iff [res_simps]: "ok_or m e = Inr y \<longleftrightarrow> m = Some y"
  by (cases m) auto

lemma ok_or_Inl_iff [res_simps]: "ok_or m e = Inl d \<longleftrightarrow> m = None \<and> d = e"
  by (cases m) auto

lemma res_bind_split:
  "P (res_bind m f) \<longleftrightarrow> (\<forall>e. m = Inl e \<longrightarrow> P (Inl e)) \<and> (\<forall>x. m = Inr x \<longrightarrow> P (f x))"
  by (cases m) auto

text \<open>A loop whose body may fail: the fold of the body over a list, stopping at an error.\<close>

fun res_fold :: "('x \<Rightarrow> 's \<Rightarrow> 'e + 's) \<Rightarrow> 'x list \<Rightarrow> 's \<Rightarrow> 'e + 's" where
  "res_fold f [] s = Inr s"
| "res_fold f (x # xs) s = res_bind (f x s) (res_fold f xs)"

lemma res_fold_append:
  "res_fold f (xs @ ys) s = res_bind (res_fold f xs s) (res_fold f ys)"
proof (induction xs arbitrary: s)
  case Nil
  then show ?case by simp
next
  case (Cons x xs)
  then show ?case by (cases "f x s") auto
qed

lemma res_fold_invariant:
  assumes "res_fold f xs s = Inr s'" and "P s"
    and "\<And>x s s'. x \<in> set xs \<Longrightarrow> P s \<Longrightarrow> f x s = Inr s' \<Longrightarrow> P s'"
  shows "P s'"
  using assms
proof (induction xs arbitrary: s)
  case Nil
  then show ?case by simp
next
  case (Cons x xs)
  then obtain t where t: "f x s = Inr t" and r: "res_fold f xs t = Inr s'"
    by (auto simp: res_simps)
  have "P t" using Cons.prems(2) t Cons.prems(3) [of x s t] by simp
  show ?case by (rule Cons.IH [OF r \<open>P t\<close>]) (use Cons.prems(3) in auto)
qed

section \<open>Effects\<close>

text \<open>
  A fallible operation on a world: the new world is returned with the result, also when the
  result is an error, since what was done before a failure stays done.
\<close>

type_synonym ('w, 'e, 'a) io = "'w \<times> ('e + 'a)"

definition io_bind :: "('w, 'e, 'a) io \<Rightarrow> ('w \<Rightarrow> 'a \<Rightarrow> ('w, 'e, 'b) io) \<Rightarrow> ('w, 'e, 'b) io" where
  "io_bind m f = (case m of (w, Inl e) \<Rightarrow> (w, Inl e) | (w, Inr x) \<Rightarrow> f w x)"

lemma io_bind_simps [simp, res_simps]:
  "io_bind (w, Inl e) f = (w, Inl e)"
  "io_bind (w, Inr x) f = f w x"
  by (simp_all add: io_bind_def)

lemma io_bind_Inr_iff:
  "io_bind m f = (w', Inr y) \<longleftrightarrow> (\<exists>w x. m = (w, Inr x) \<and> f w x = (w', Inr y))"
  by (auto simp: io_bind_def split: prod.splits sum.splits)

lemma io_bind_cong [fundef_cong]:
  "m = m' \<Longrightarrow> (\<And>w x. m' = (w, Inr x) \<Longrightarrow> f w x = f' w x) \<Longrightarrow> io_bind m f = io_bind m' f'"
  by (auto simp: io_bind_def split: prod.splits sum.splits)

section \<open>Little-endian encodings\<close>

text \<open>
  \<open>le_val\<close> is the number a little-endian byte string denotes and \<open>le_digits\<close> its \<open>n\<close>
  lowest base-256 digits; \<open>from_le\<close> and \<open>to_le\<close> are the standard library's
  \<open>from_le_bytes\<close> and \<open>to_le_bytes\<close>, \<open>to_be\<close> is \<open>to_be_bytes\<close>.
\<close>

fun le_val :: "bytes \<Rightarrow> nat" where
  "le_val [] = 0"
| "le_val (b # bs) = unat b + 256 * le_val bs"

fun le_digits :: "nat \<Rightarrow> nat \<Rightarrow> bytes" where
  "le_digits 0 x = []"
| "le_digits (Suc n) x = of_nat (x mod 256) # le_digits n (x div 256)"

definition from_le :: "bytes \<Rightarrow> 'a::len word" where
  "from_le bs = of_nat (le_val bs)"

definition to_le :: "'a::len word \<Rightarrow> bytes" where
  "to_le w = le_digits (LENGTH('a) div 8) (unat w)"

definition to_be :: "'a::len word \<Rightarrow> bytes" where
  "to_be w = rev (to_le w)"

lemma unat_byte_lt [simp]: "unat (b :: byte) < 256"
  using unsigned_less [of b] by simp

lemma length_le_digits [simp]: "length (le_digits n x) = n"
  by (induction n arbitrary: x) auto

lemma length_to_le [simp]: "length (to_le w) = LENGTH('a) div 8" for w :: "'a::len word"
  by (simp add: to_le_def)

lemma length_to_be [simp]: "length (to_be w) = LENGTH('a) div 8" for w :: "'a::len word"
  by (simp add: to_be_def)

lemma le_val_less: "le_val bs < 256 ^ length bs"
proof (induction bs)
  case Nil
  then show ?case by simp
next
  case (Cons b bs)
  have "le_val bs + 1 \<le> 256 ^ length bs" using Cons by simp
  then have "256 * le_val bs + 256 \<le> 256 * 256 ^ length bs" by simp
  with unat_byte_lt [of b] show ?case by (simp del: unat_byte_lt)
qed

lemma le_val_digits: "le_val (le_digits n x) = x mod 256 ^ n"
proof (induction n arbitrary: x)
  case 0
  then show ?case by simp
next
  case (Suc n)
  have "unat (of_nat (x mod 256) :: byte) = x mod 256"
    by (simp add: unat_of_nat take_bit_eq_mod)
  then show ?case
    by (simp add: Suc mod_mult2_eq)
qed

lemma le_digits_val: "le_digits (length bs) (le_val bs) = bs"
proof (induction bs)
  case Nil
  then show ?case by simp
next
  case (Cons b bs)
  have "(unat b + 256 * le_val bs) mod 256 = unat b"
    and "(unat b + 256 * le_val bs) div 256 = le_val bs"
    by simp_all
  with Cons show ?case by simp
qed

lemma le_digits_eqI: "length bs = n \<Longrightarrow> le_digits n (le_val bs) = bs"
  using le_digits_val by blast

lemma from_to_le [simp, codec_simps]:
  assumes "8 dvd LENGTH('a)"
  shows "from_le (to_le w) = (w :: 'a::len word)"
proof -
  have "(256::nat) ^ (LENGTH('a) div 8) = 2 ^ LENGTH('a)"
    using assms by (auto simp: dvd_def power_mult)
  moreover have "unat w < 2 ^ LENGTH('a)" by simp
  ultimately show ?thesis by (simp add: from_le_def to_le_def le_val_digits)
qed

lemma to_from_le:
  assumes "LENGTH('a) = 8 * length bs"
  shows "to_le (from_le bs :: 'a::len word) = bs"
proof -
  have "le_val bs < 2 ^ LENGTH('a)"
    using le_val_less [of bs] assms by (simp add: power_mult)
  then have "unat (of_nat (le_val bs) :: 'a word) = le_val bs"
    by (rule unat_of_nat_less)
  then show ?thesis by (simp add: to_le_def from_le_def assms le_digits_val)
qed

lemma to_le_u32_first: "to_le (w :: u32) ! 0 = of_nat (unat w mod 256)" "to_le (w :: u32) \<noteq> []"
proof -
  have four: "LENGTH(32) div 8 = Suc 3" by simp
  show "to_le (w :: u32) ! 0 = of_nat (unat w mod 256)" "to_le (w :: u32) \<noteq> []"
    by (simp_all only: to_le_def four le_digits.simps nth_Cons_0 list.distinct not_False_eq_True)
qed

lemma to_le_inject:
  assumes "8 dvd LENGTH('a)" and "to_le v = to_le (w :: 'a::len word)"
  shows "v = w"
  using assms from_to_le by metis

lemma from_le_inject:
  assumes "LENGTH('a) = 8 * length bs" and "length bs' = length bs"
    and "(from_le bs :: 'a::len word) = from_le bs'"
  shows "bs = bs'"
  using assms to_from_le by metis

lemma unat_from_le:
  "256 ^ length bs \<le> (2 :: nat) ^ LENGTH('a) \<Longrightarrow> unat (from_le bs :: 'a::len word) = le_val bs"
  unfolding from_le_def
  by (rule unat_of_nat_less) (use le_val_less [of bs] in linarith)

section \<open>Lists\<close>

lemma take_append_exact [simp]: "length xs = n \<Longrightarrow> take n (xs @ ys) = xs"
  by simp

lemma drop_append_exact [simp]: "length xs = n \<Longrightarrow> drop n (xs @ ys) = ys"
  by simp

text \<open>\<open>subslice a b xs\<close> is the Rust slice \<open>&xs[a..b]\<close>.\<close>

definition subslice :: "nat \<Rightarrow> nat \<Rightarrow> 'a list \<Rightarrow> 'a list" where
  "subslice a b xs = take (b - a) (drop a xs)"

lemma length_subslice: "b \<le> length xs \<Longrightarrow> length (subslice a b xs) = b - a"
  by (auto simp: subslice_def)

lemma nth_subslice: "a + i < b \<Longrightarrow> b \<le> length xs \<Longrightarrow> subslice a b xs ! i = xs ! (a + i)"
  by (simp add: subslice_def)

lemma subslice_append_middle:
  "length pre = a \<Longrightarrow> b = a + length mid \<Longrightarrow> subslice a b (pre @ mid @ post) = mid"
  by (simp add: subslice_def)

text \<open>\<open>copy_from_slice\<close> into a zeroed array of \<open>n\<close> bytes: the slice, right-padded.\<close>

definition zeros :: "nat \<Rightarrow> bytes" where
  "zeros n = replicate n 0"

lemma length_zeros [simp]: "length (zeros n) = n"
  by (simp add: zeros_def)

end
