(* ===== verification/Core_Text.thy ===== *)
theory Core_Text
  imports Prelude
begin

text \<open>
  The text routines of the standard library that the program uses: decimal printing and parsing,
  \<open>trim\<close>, \<open>split_whitespace\<close> and \<open>lines\<close>. Strings are ASCII text, so a Rust \<open>char\<close> is a
  HOL \<open>char\<close> and white space is the ASCII white space.
\<close>

text \<open>A path is the list of its components; an \<open>io::Error\<close> is its message.\<close>

type_synonym path = "string list"
type_synonym io_error = string

definition parent :: "path \<Rightarrow> path option" where
  "parent p = (if p = [] then None else Some (butlast p))"

text \<open>Reading the file system: file contents, memory maps and directory listings.\<close>

record fs =
  fs_read :: "path \<Rightarrow> io_error + bytes"
  fs_mmap :: "path \<Rightarrow> io_error + bytes"
  fs_read_dir :: "path \<Rightarrow> io_error + (io_error + string) list"

section \<open>Decimal numbers\<close>

definition is_ascii_digit :: "char \<Rightarrow> bool" where
  "is_ascii_digit c \<longleftrightarrow> 48 \<le> (of_char c :: nat) \<and> (of_char c :: nat) \<le> 57"

definition digits_val :: "string \<Rightarrow> nat" where
  "digits_val s = foldl (\<lambda>n c. 10 * n + (of_char c - 48)) 0 s"

definition digit_char :: "nat \<Rightarrow> char" where
  "digit_char d = char_of (48 + d)"

fun show_nat :: "nat \<Rightarrow> string" where
  "show_nat n = (if n < 10 then [digit_char n] else show_nat (n div 10) @ [digit_char (n mod 10)])"

declare show_nat.simps [simp del]

text \<open>\<open>{n:05}\<close>: zero padding to a width.\<close>

definition show_padded :: "nat \<Rightarrow> nat \<Rightarrow> string" where
  "show_padded w n = (let s = show_nat n in replicate (w - length s) (CHR ''0'') @ s)"

text \<open>\<open>str::parse\<close> for an unsigned type with values below \<open>bound\<close>: an optional plus sign,
  at least one digit, and no overflow.\<close>

definition parse_uint :: "nat \<Rightarrow> string \<Rightarrow> nat option" where
  "parse_uint bound s =
    (let ds = (case s of [] \<Rightarrow> [] | c # cs \<Rightarrow> if c = CHR ''+'' then cs else s) in
     if ds = [] \<or> \<not> list_all is_ascii_digit ds \<or> bound \<le> digits_val ds then None
     else Some (digits_val ds))"

lemma of_char_digit: "d < 10 \<Longrightarrow> (of_char (digit_char d) :: nat) = 48 + d"
  by (simp add: digit_char_def)

lemma is_ascii_digit_char: "d < 10 \<Longrightarrow> is_ascii_digit (digit_char d)"
  by (simp add: is_ascii_digit_def of_char_digit)

lemma digits_val_snoc: "digits_val (s @ [c]) = 10 * digits_val s + (of_char c - 48)"
  by (simp add: digits_val_def)

lemma digits_val_show [simp]: "digits_val (show_nat n) = n"
proof (induction n rule: show_nat.induct)
  case (1 n)
  show ?case
  proof (cases "n < 10")
    case True
    then show ?thesis
      by (subst show_nat.simps) (simp add: digits_val_def of_char_digit)
  next
    case False
    with 1 have "digits_val (show_nat (n div 10)) = n div 10" by simp
    with False show ?thesis
      by (subst show_nat.simps) (simp add: digits_val_snoc of_char_digit)
  qed
qed

lemma digits_show [simp]: "list_all is_ascii_digit (show_nat n)"
proof (induction n rule: show_nat.induct)
  case (1 n)
  then show ?case
    by (subst show_nat.simps) (simp add: is_ascii_digit_char)
qed

lemma show_nat_nonempty [simp]: "show_nat n \<noteq> []"
  by (subst show_nat.simps) simp

lemma show_nat_char: "c \<in> set (show_nat n) \<Longrightarrow> is_ascii_digit c"
  using digits_show [of n] by (auto simp: list_all_iff)

lemma parse_show [simp, codec_simps]: "n < bound \<Longrightarrow> parse_uint bound (show_nat n) = Some n"
proof -
  assume "n < bound"
  have "hd (show_nat n) \<noteq> CHR ''+''"
    using show_nat_char [of "hd (show_nat n)" n] by (auto simp: is_ascii_digit_def)
  then have "(case show_nat n of [] \<Rightarrow> [] | c # cs \<Rightarrow> if c = CHR ''+'' then cs else show_nat n) = show_nat n"
    by (cases "show_nat n") auto
  with \<open>n < bound\<close> show ?thesis by (simp add: parse_uint_def)
qed

lemma parse_uint_bound: "parse_uint bound s = Some n \<Longrightarrow> n < bound"
  by (auto simp: parse_uint_def Let_def split: if_splits)

section \<open>White space and lines\<close>

definition is_ws :: "char \<Rightarrow> bool" where
  "is_ws c \<longleftrightarrow> (let n = of_char c :: nat in n = 32 \<or> (9 \<le> n \<and> n \<le> 13))"

definition trim :: "string \<Rightarrow> string" where
  "trim s = rev (dropWhile is_ws (rev (dropWhile is_ws s)))"

function split_ws :: "string \<Rightarrow> string list" where
  "split_ws s =
    (let t = dropWhile is_ws s in
     if t = [] then []
     else takeWhile (\<lambda>c. \<not> is_ws c) t # split_ws (dropWhile (\<lambda>c. \<not> is_ws c) t))"
  by auto
termination
proof (relation "measure length", simp)
  fix s t
  assume t: "t = dropWhile is_ws s" and "t \<noteq> []"
  from \<open>t \<noteq> []\<close> obtain c r where cr: "t = c # r" by (meson neq_Nil_conv)
  have "\<not> is_ws (hd (dropWhile is_ws s))" by (rule hd_dropWhile) (use \<open>t \<noteq> []\<close> t in blast)
  then have "\<not> is_ws c" by (metis t cr list.sel(1))
  then have "length (dropWhile (\<lambda>c. \<not> is_ws c) t) \<le> length r"
    by (simp add: cr length_dropWhile_le)
  also have "length r < length t" by (simp add: cr)
  also have "length t \<le> length s" by (simp add: t length_dropWhile_le)
  finally show "(dropWhile (\<lambda>c. \<not> is_ws c) t, s) \<in> measure length" by simp
qed

declare split_ws.simps [simp del]

definition newline :: string where
  "newline = [CHR 0x0A]"

definition strip_cr :: "string \<Rightarrow> string" where
  "strip_cr l = (if l \<noteq> [] \<and> last l = CHR 0x0D then butlast l else l)"

text \<open>\<open>lines\<close>: split after each line feed, drop the terminator and a carriage return before it;
  a last line without terminator counts when it is not empty.\<close>

fun lines_from :: "string \<Rightarrow> string \<Rightarrow> string list" where
  "lines_from acc [] = (if acc = [] then [] else [acc])"
| "lines_from acc (c # cs) =
    (if c = CHR 0x0A then strip_cr acc # lines_from [] cs else lines_from (acc @ [c]) cs)"

definition lines :: "string \<Rightarrow> string list" where
  "lines s = lines_from [] s"

text \<open>A line of printed text: no line feed in it and no carriage return at its end.\<close>

definition line_ok :: "string \<Rightarrow> bool" where
  "line_ok l \<longleftrightarrow> CHR 0x0A \<notin> set l \<and> strip_cr l = l"

lemma lines_from_app: "CHR 0x0A \<notin> set l \<Longrightarrow> lines_from acc (l @ s) = lines_from (acc @ l) s"
  by (induction l arbitrary: acc) auto

lemma lines_from_line:
  "line_ok l \<Longrightarrow> lines_from [] (l @ newline @ s) = l # lines_from [] s"
  by (simp add: lines_from_app line_ok_def newline_def)

text \<open>Text that is empty or ends with a line feed is a sequence of whole lines.\<close>

definition whole_lines :: "string \<Rightarrow> bool" where
  "whole_lines s \<longleftrightarrow> s = [] \<or> last s = CHR 0x0A"

lemma lines_from_append:
  "whole_lines (acc @ s) \<Longrightarrow> CHR 0x0A \<notin> set acc \<Longrightarrow>
    lines_from acc (s @ t) = lines_from acc s @ lines_from [] t"
proof (induction s arbitrary: acc)
  case Nil
  then have "acc = []" by (cases acc rule: rev_cases) (auto simp: whole_lines_def)
  then show ?case by simp
next
  case (Cons c s)
  show ?case
  proof (cases "c = CHR 0x0A")
    case True
    then have "whole_lines ([] @ s)" using Cons.prems by (auto simp: whole_lines_def split: if_splits)
    then show ?thesis using True Cons.IH [of "[]"] by simp
  next
    case False
    then show ?thesis using Cons.IH [of "acc @ [c]"] Cons.prems by simp
  qed
qed

lemma lines_append_line:
  "whole_lines s \<Longrightarrow> line_ok l \<Longrightarrow> lines (s @ l @ newline) = lines s @ [l]"
  using lines_from_append [of "[]" s "l @ newline"] lines_from_line [of l "[]"]
  by (simp add: lines_def)

lemma lines_Nil [simp]: "lines [] = []"
  by (simp add: lines_def)

lemma whole_lines_app [simp]: "whole_lines (s @ l @ newline)" "whole_lines []"
  by (simp_all add: whole_lines_def newline_def)

lemma split_two_words:
  assumes "u \<noteq> []" "\<forall>c\<in>set u. \<not> is_ws c" "v \<noteq> []" "\<forall>c\<in>set v. \<not> is_ws c"
  shows "split_ws (u @ '' '' @ v) = [u, v]"
proof -
  obtain a u' where u: "u = a # u'" using assms(1) by (cases u) auto
  obtain b v' where v: "v = b # v'" using assms(3) by (cases v) auto
  have tw: "takeWhile (\<lambda>c. \<not> is_ws c) v = v" "dropWhile (\<lambda>c. \<not> is_ws c) v = []"
    using assms(4) by (auto simp: takeWhile_eq_all_conv)
  have sp: "is_ws (CHR '' '')" by (simp add: is_ws_def)
  have "split_ws [] = []" by (subst split_ws.simps) simp
  then have "split_ws v = [v]"
    using assms(4) tw by (subst split_ws.simps) (simp add: v Let_def del: dropWhile_eq_Nil_conv)
  moreover have "split_ws (CHR '' '' # v) = split_ws v"
    by (subst split_ws.simps, subst (2) split_ws.simps) (simp add: sp)
  ultimately show ?thesis
    using assms(2) sp by (subst split_ws.simps) (simp add: u)
qed

lemma trim_id: "l \<noteq> [] \<Longrightarrow> \<not> is_ws (hd l) \<Longrightarrow> \<not> is_ws (last l) \<Longrightarrow> trim l = l"
proof -
  assume l: "l \<noteq> []" "\<not> is_ws (hd l)" "\<not> is_ws (last l)"
  have "dropWhile is_ws l = l" using l by (cases l) auto
  moreover have "dropWhile is_ws (rev l) = rev l" using l by (cases l rule: rev_cases) auto
  ultimately show ?thesis by (simp add: trim_def)
qed

lemma digit_not_ws: "is_ascii_digit c \<Longrightarrow> \<not> is_ws c"
  by (simp add: is_ascii_digit_def is_ws_def Let_def)

end
