(* ===== verification/Core_Float.thy ===== *)
theory Core_Float
  imports Complex_Main "HOL-Library.Word" Prelude
begin

text \<open>
  The \<open>f64\<close> operations the program uses, as a parameter: IEEE arithmetic is the platform's. The
  laws a proof relies on are named where it relies on them; \<open>f64_order\<close> is what comparing and
  accumulating needs (values that are not NaN). The interpretation is on real arithmetic.
\<close>

record 'f f64 =
  f_of_int :: "int \<Rightarrow> 'f"
  f_add :: "'f \<Rightarrow> 'f \<Rightarrow> 'f"
  f_sub :: "'f \<Rightarrow> 'f \<Rightarrow> 'f"
  f_mul :: "'f \<Rightarrow> 'f \<Rightarrow> 'f"
  f_div :: "'f \<Rightarrow> 'f \<Rightarrow> 'f"
  f_max :: "'f \<Rightarrow> 'f \<Rightarrow> 'f"
  f_min :: "'f \<Rightarrow> 'f \<Rightarrow> 'f"
  f_round :: "'f \<Rightarrow> 'f"
  f_abs :: "'f \<Rightarrow> 'f"
  f_log2 :: "'f \<Rightarrow> 'f"
  f_exp2 :: "'f \<Rightarrow> 'f"
  f_ge :: "'f \<Rightarrow> 'f \<Rightarrow> bool"
  f_lt :: "'f \<Rightarrow> 'f \<Rightarrow> bool"
  f_epsilon :: 'f
  f_to_u64 :: "'f \<Rightarrow> u64"

abbreviation f_zero :: "'f f64 \<Rightarrow> 'f" where
  "f_zero F \<equiv> f_of_int F 0"

locale f64_order =
  fixes F :: "'f f64"
  assumes ge_refl: "f_ge F x x"
    and ge_trans: "f_ge F x y \<Longrightarrow> f_ge F y z \<Longrightarrow> f_ge F x z"
    and ge_total: "f_ge F x y \<or> f_ge F y x"
    and zero_add: "f_add F (f_zero F) x = x"

text \<open>A saturating conversion of a real to \<open>u64\<close>, as Rust's \<open>as\<close> cast does.\<close>

definition real_to_u64 :: "real \<Rightarrow> u64" where
  "real_to_u64 x = (if x \<le> 0 then 0 else if 2 ^ 64 \<le> x then - 1 else of_nat (nat \<lfloor>x\<rfloor>))"

lemma real_to_u64_int: "0 \<le> k \<Longrightarrow> k < 2 ^ 64 \<Longrightarrow> unat (real_to_u64 (of_int k)) = nat k"
proof -
  assume k: "0 \<le> k" "k < 2 ^ 64"
  have "\<not> (2 ^ 64 :: real) \<le> of_int k" using k(2) by simp
  then have "real_to_u64 (of_int k) = of_nat (nat k)" using k(1) by (simp add: real_to_u64_def)
  moreover have "nat k < 2 ^ LENGTH(64)" using k by (simp add: nat_less_iff)
  ultimately show ?thesis by (simp only: unat_of_nat_less)
qed

text \<open>Rounding half away from zero.\<close>

definition real_round :: "real \<Rightarrow> real" where
  "real_round x = sgn x * of_int \<lfloor>\<bar>x\<bar> + 1 / 2\<rfloor>"

definition real_f64 :: "real f64" where
  "real_f64 = \<lparr>f_of_int = of_int, f_add = (+), f_sub = (-), f_mul = (*), f_div = (/), f_max = max, f_min = min, f_round = real_round,
     f_abs = abs, f_log2 = log 2, f_exp2 = (\<lambda>x. 2 powr x), f_ge = (\<ge>), f_lt = (<),
     f_epsilon = 1 / 2 ^ 52, f_to_u64 = real_to_u64\<rparr>"

interpretation rf: f64_order real_f64
  by unfold_locales (auto simp: real_f64_def)

end
