(* ===== verification/Core_Cursor.thy ===== *)
theory Core_Cursor
  imports Prelude
begin

text \<open>
  The bounds-checked cursor of \<open>bidx-core/src/cursor.rs\<close>, on which every wire-format parser
  of the program is built. A reader takes the cursor and returns the value read with the
  advanced cursor, or a \<open>ParseError\<close>; no caller looks at a cursor after an error, so the
  error branch carries none.

  \<open>cur_at pre rest\<close> is a cursor whose input is \<open>pre @ rest\<close> with \<open>pre\<close> consumed. Two
  interfaces are stated on it: \<open>cursor_reader\<close> (a reader only moves forward and never past the
  end) and \<open>indexed_codec\<close> (a reader that inverts an encoder wherever it stands in the input),
  each with the lemma that a counted loop over such a reader is again of that kind.
\<close>

datatype parse_error =
    Eof nat nat nat
  | BadVarInt nat
  | CountOverflow u64 nat

record cursor =
  c_data :: bytes
  c_pos :: nat

definition MAX_ITEMS :: u64 where
  "MAX_ITEMS = 4000000"

definition cursor_new :: "bytes \<Rightarrow> cursor" where
  "cursor_new d = \<lparr>c_data = d, c_pos = 0\<rparr>"

definition remaining :: "cursor \<Rightarrow> nat" where
  "remaining c = length (c_data c) - c_pos c"

definition cursor_is_empty :: "cursor \<Rightarrow> bool" where
  "cursor_is_empty c = (length (c_data c) \<le> c_pos c)"

definition need :: "cursor \<Rightarrow> nat \<Rightarrow> parse_error + unit" where
  "need c n = (if remaining c < n then Inl (Eof (c_pos c) n (remaining c)) else Inr ())"

definition read_u8 :: "cursor \<Rightarrow> parse_error + (u8 \<times> cursor)" where
  "read_u8 c = res_bind (need c 1) (\<lambda>_.
     Inr (c_data c ! c_pos c, c\<lparr>c_pos := c_pos c + 1\<rparr>))"

definition read_u16 :: "cursor \<Rightarrow> parse_error + (u16 \<times> cursor)" where
  "read_u16 c = res_bind (need c 2) (\<lambda>_.
     Inr (from_le (subslice (c_pos c) (c_pos c + 2) (c_data c)), c\<lparr>c_pos := c_pos c + 2\<rparr>))"

definition read_u32 :: "cursor \<Rightarrow> parse_error + (u32 \<times> cursor)" where
  "read_u32 c = res_bind (need c 4) (\<lambda>_.
     Inr (from_le (subslice (c_pos c) (c_pos c + 4) (c_data c)), c\<lparr>c_pos := c_pos c + 4\<rparr>))"

definition read_i32 :: "cursor \<Rightarrow> parse_error + (i32 \<times> cursor)" where
  "read_i32 c = res_bind (need c 4) (\<lambda>_.
     Inr (from_le (subslice (c_pos c) (c_pos c + 4) (c_data c)), c\<lparr>c_pos := c_pos c + 4\<rparr>))"

definition read_u64 :: "cursor \<Rightarrow> parse_error + (u64 \<times> cursor)" where
  "read_u64 c = res_bind (need c 8) (\<lambda>_.
     Inr (from_le (subslice (c_pos c) (c_pos c + 8) (c_data c)), c\<lparr>c_pos := c_pos c + 8\<rparr>))"

definition read_i64 :: "cursor \<Rightarrow> parse_error + (i64 \<times> cursor)" where
  "read_i64 c = res_bind (need c 8) (\<lambda>_.
     Inr (from_le (subslice (c_pos c) (c_pos c + 8) (c_data c)), c\<lparr>c_pos := c_pos c + 8\<rparr>))"

definition read_bytes :: "nat \<Rightarrow> cursor \<Rightarrow> parse_error + (bytes \<times> cursor)" where
  "read_bytes n c = res_bind (need c n) (\<lambda>_.
     Inr (subslice (c_pos c) (c_pos c + n) (c_data c), c\<lparr>c_pos := c_pos c + n\<rparr>))"

definition read_array :: "nat \<Rightarrow> cursor \<Rightarrow> parse_error + (bytes \<times> cursor)" where
  "read_array n c = res_bind (need c n) (\<lambda>_.
     Inr (subslice (c_pos c) (c_pos c + n) (c_data c), c\<lparr>c_pos := c_pos c + n\<rparr>))"

definition cursor_skip :: "nat \<Rightarrow> cursor \<Rightarrow> parse_error + (unit \<times> cursor)" where
  "cursor_skip n c = res_bind (need c n) (\<lambda>_. Inr ((), c\<lparr>c_pos := c_pos c + n\<rparr>))"

definition read_varint :: "cursor \<Rightarrow> parse_error + (u64 \<times> cursor)" where
  "read_varint c = res_bind (read_u8 c) (\<lambda>(first, c1).
     if first \<le> 0xfc then Inr (ucast first, c1)
     else if first = 0xfd then res_bind (read_u16 c1) (\<lambda>(v, c2). Inr (ucast v, c2))
     else if first = 0xfe then res_bind (read_u32 c1) (\<lambda>(v, c2). Inr (ucast v, c2))
     else map_err (\<lambda>_. BadVarInt (c_pos c)) (read_u64 c1))"

definition read_count :: "cursor \<Rightarrow> parse_error + (u64 \<times> cursor)" where
  "read_count c = res_bind (read_varint c) (\<lambda>(n, c').
     if MAX_ITEMS < n then Inl (CountOverflow n (c_pos c')) else Inr (n, c'))"

lemmas reader_defs = need_def remaining_def read_u8_def read_u16_def read_u32_def read_i32_def
  read_u64_def read_i64_def read_bytes_def read_array_def cursor_skip_def

text \<open>The loop \<open>for i in 0..n\<close> over a reader, the results collected in order.\<close>

fun read_loop :: "(nat \<Rightarrow> cursor \<Rightarrow> 'e + ('a \<times> cursor)) \<Rightarrow> nat \<Rightarrow> nat \<Rightarrow> cursor
    \<Rightarrow> 'e + ('a list \<times> cursor)" where
  "read_loop f i 0 c = Inr ([], c)"
| "read_loop f i (Suc n) c = res_bind (f i c) (\<lambda>(x, c').
     res_bind (read_loop f (Suc i) n c') (\<lambda>(xs, c''). Inr (x # xs, c'')))"

section \<open>The compact-size encoder\<close>

text \<open>
  The encoding \<open>read_varint\<close> inverts: Bitcoin's compact size, shortest form first. The
  sources only read it; it is stated here as the reference for the readers.
\<close>

definition compact_size :: "u64 \<Rightarrow> bytes" where
  "compact_size v =
    (if v \<le> 0xfc then [ucast v]
     else if v \<le> 0xffff then 0xfd # to_le (ucast v :: u16)
     else if v \<le> 0xffffffff then 0xfe # to_le (ucast v :: u32)
     else 0xff # to_le v)"

section \<open>Readers at a position\<close>

definition cur_at :: "bytes \<Rightarrow> bytes \<Rightarrow> cursor" where
  "cur_at pre rest = \<lparr>c_data = pre @ rest, c_pos = length pre\<rparr>"

definition cur_ok :: "cursor \<Rightarrow> bool" where
  "cur_ok c \<longleftrightarrow> c_pos c \<le> length (c_data c)"

lemma cursor_new_cur_at [codec_simps]: "cursor_new d = cur_at [] d"
  by (simp add: cursor_new_def cur_at_def)

lemma cur_at_simps [simp]:
  "c_pos (cur_at pre rest) = length pre"
  "c_data (cur_at pre rest) = pre @ rest"
  "cur_ok (cur_at pre rest)"
  "remaining (cur_at pre rest) = length rest"
  by (simp_all add: cur_at_def cur_ok_def remaining_def)

lemma cur_ok_cur_at: "cur_ok c \<Longrightarrow> c = cur_at (take (c_pos c) (c_data c)) (drop (c_pos c) (c_data c))"
  by (cases c) (simp add: cur_at_def cur_ok_def)

lemma cur_at_advance:
  "cur_at pre (bs @ r)\<lparr>c_pos := length pre + length bs\<rparr> = cur_at (pre @ bs) r"
  by (simp add: cur_at_def)

lemma subslice_at: "length bs = n \<Longrightarrow> subslice (length pre) (length pre + n) (pre @ bs @ r) = bs"
  by (simp add: subslice_def)

lemma read_bytes_at [codec_simps]:
  "length bs = n \<Longrightarrow> read_bytes n (cur_at pre (bs @ r)) = Inr (bs, cur_at (pre @ bs) r)"
  by (auto simp: read_bytes_def need_def subslice_at cur_at_advance)

lemma read_array_at [codec_simps]:
  "length bs = n \<Longrightarrow> read_array n (cur_at pre (bs @ r)) = Inr (bs, cur_at (pre @ bs) r)"
  by (auto simp: read_array_def need_def subslice_at cur_at_advance)

lemma skip_at [codec_simps]:
  "length bs = n \<Longrightarrow> cursor_skip n (cur_at pre (bs @ r)) = Inr ((), cur_at (pre @ bs) r)"
  by (auto simp: cursor_skip_def need_def cur_at_advance)

lemma read_u8_at [codec_simps]: "read_u8 (cur_at pre (b # r)) = Inr (b, cur_at (pre @ [b]) r)"
  using cur_at_advance [of pre "[b]" r] by (simp add: read_u8_def need_def)

lemma read_u16_at [codec_simps]:
  "read_u16 (cur_at pre (to_le w @ r)) = Inr (w, cur_at (pre @ to_le w) r)"
  using cur_at_advance [of pre "to_le w" r]
  by (simp add: read_u16_def need_def subslice_at del: add_2_eq_Suc')

lemma read_u32_at [codec_simps]:
  "read_u32 (cur_at pre (to_le w @ r)) = Inr (w, cur_at (pre @ to_le w) r)"
  using cur_at_advance [of pre "to_le w" r]
  by (simp add: read_u32_def need_def subslice_at)

lemma read_i32_at [codec_simps]:
  "read_i32 (cur_at pre (to_le w @ r)) = Inr (w, cur_at (pre @ to_le w) r)"
  using cur_at_advance [of pre "to_le w" r]
  by (simp add: read_i32_def need_def subslice_at)

lemma read_u64_at [codec_simps]:
  "read_u64 (cur_at pre (to_le w @ r)) = Inr (w, cur_at (pre @ to_le w) r)"
  using cur_at_advance [of pre "to_le w" r]
  by (simp add: read_u64_def need_def subslice_at)

lemma unat_ucast_small:
  "unat v < 2 ^ LENGTH('a) \<Longrightarrow> unat (ucast v :: 'a::len word) = unat v"
  by (simp add: unsigned_ucast_eq take_bit_nat_eq_self)

lemma ucast_ucast_small:
  fixes v :: "'b::len word"
  assumes "unat v < 2 ^ LENGTH('a)"
  shows "ucast (ucast v :: 'a::len word) = v"
proof -
  have "unat (ucast v :: 'a word) = unat v" using assms by (rule unat_ucast_small)
  then have "unat (ucast (ucast v :: 'a word) :: 'b word) = unat v"
    by (subst unat_ucast_small) simp_all
  then show ?thesis by (rule unsigned_word_eqI)
qed

lemma read_varint_at [codec_simps]:
  "read_varint (cur_at pre (compact_size v @ r)) = Inr (v, cur_at (pre @ compact_size v) r)"
proof -
  consider (b) "v \<le> 0xfc" | (h) "\<not> v \<le> 0xfc" "v \<le> 0xffff"
    | (w) "\<not> v \<le> 0xffff" "v \<le> 0xffffffff" | (d) "\<not> v \<le> 0xffffffff"
    by blast
  then show ?thesis
  proof cases
    case b
    then have u: "unat v \<le> 0xfc" by (simp add: word_le_nat_alt)
    then have "unat (ucast v :: u8) = unat v" by (intro unat_ucast_small) simp
    with u have "(ucast v :: u8) \<le> 0xfc" by (simp add: word_le_nat_alt)
    with b u show ?thesis
      by (simp add: compact_size_def read_varint_def read_u8_at ucast_ucast_small)
  next
    case h
    then have u: "unat v < 2 ^ LENGTH(16)" by (simp add: word_le_nat_alt)
    have "read_u16 (cur_at (pre @ [0xfd]) (to_le (ucast v :: u16) @ r))
        = Inr (ucast v, cur_at ((pre @ [0xfd]) @ to_le (ucast v :: u16)) r)"
      by (rule read_u16_at)
    with h u show ?thesis
      by (simp add: compact_size_def read_varint_def read_u8_at ucast_ucast_small)
  next
    case w
    then have u: "unat v < 2 ^ LENGTH(32)" and "\<not> v \<le> 0xfc"
      by (simp_all add: word_le_nat_alt)
    with w u read_u32_at [of "pre @ [0xfe]" "ucast v" r] show ?thesis
      by (simp add: compact_size_def read_varint_def read_u8_at ucast_ucast_small)
  next
    case d
    then have "\<not> v \<le> 0xfc" and "\<not> v \<le> 0xffff" by (simp_all add: word_le_nat_alt)
    with d read_u64_at [of "pre @ [0xff]" v r] show ?thesis
      by (simp add: compact_size_def read_varint_def read_u8_at)
  qed
qed

lemma read_count_at:
  "read_count (cur_at pre (compact_size v @ r)) =
     (if MAX_ITEMS < v then Inl (CountOverflow v (length pre + length (compact_size v)))
      else Inr (v, cur_at (pre @ compact_size v) r))"
  by (simp add: read_count_def read_varint_at)

lemma length_compact_size:
  "length (compact_size v) =
     (if v \<le> 0xfc then 1 else if v \<le> 0xffff then 3 else if v \<le> 0xffffffff then 5 else 9)"
  by (simp add: compact_size_def)

section \<open>Readers only move forward\<close>

definition advances :: "cursor \<Rightarrow> cursor \<Rightarrow> bool" where
  "advances c c' \<longleftrightarrow> c_data c' = c_data c \<and> c_pos c \<le> c_pos c' \<and> (cur_ok c \<longrightarrow> cur_ok c')"

lemma advances_refl [simp, intro]: "advances c c"
  by (simp add: advances_def)

lemma advances_trans [trans]: "advances a b \<Longrightarrow> advances b c \<Longrightarrow> advances a c"
  by (auto simp: advances_def)

locale cursor_reader =
  fixes rd :: "cursor \<Rightarrow> 'e + ('a \<times> cursor)"
  assumes forward: "rd c = Inr (x, c') \<Longrightarrow> advances c c'"

lemma need_Inr: "need c n = Inr u \<longleftrightarrow> n \<le> remaining c"
  by (auto simp: need_def)

interpretation rd_u8: cursor_reader read_u8
  by unfold_locales (auto simp: read_u8_def res_simps need_Inr advances_def cur_ok_def remaining_def)

interpretation rd_u16: cursor_reader read_u16
  by unfold_locales (auto simp: read_u16_def res_simps need_Inr advances_def cur_ok_def remaining_def)

interpretation rd_u32: cursor_reader read_u32
  by unfold_locales (auto simp: read_u32_def res_simps need_Inr advances_def cur_ok_def remaining_def)

interpretation rd_i32: cursor_reader read_i32
  by unfold_locales (auto simp: read_i32_def res_simps need_Inr advances_def cur_ok_def remaining_def)

interpretation rd_u64: cursor_reader read_u64
  by unfold_locales (auto simp: read_u64_def res_simps need_Inr advances_def cur_ok_def remaining_def)

interpretation rd_bytes: cursor_reader "read_bytes n" for n
  by unfold_locales (auto simp: read_bytes_def res_simps need_Inr advances_def cur_ok_def remaining_def)

interpretation rd_array: cursor_reader "read_array n" for n
  by unfold_locales (auto simp: read_array_def res_simps need_Inr advances_def cur_ok_def remaining_def)

interpretation rd_skip: cursor_reader "cursor_skip n" for n
  by unfold_locales (auto simp: cursor_skip_def res_simps need_Inr advances_def cur_ok_def remaining_def)

interpretation rd_varint: cursor_reader read_varint
proof
  fix c x c'
  assume "read_varint c = Inr (x, c')"
  then obtain b c1 where b: "read_u8 c = Inr (b, c1)"
    and "c' = c1 \<or> (\<exists>v. read_u16 c1 = Inr (v, c')) \<or> (\<exists>v. read_u32 c1 = Inr (v, c'))
         \<or> (\<exists>v. read_u64 c1 = Inr (v, c'))"
    by (auto simp: read_varint_def res_simps split: if_splits)
  then have "advances c1 c'"
    using rd_u16.forward rd_u32.forward rd_u64.forward by blast
  with rd_u8.forward [OF b] show "advances c c'" by (rule advances_trans)
qed

interpretation rd_count: cursor_reader read_count
  by unfold_locales (auto simp: read_count_def res_simps split: if_splits dest: rd_varint.forward)

lemmas reader_forward = rd_u8.forward rd_u16.forward rd_u32.forward rd_i32.forward rd_u64.forward
  rd_bytes.forward rd_array.forward rd_skip.forward rd_varint.forward rd_count.forward

lemma read_loop_forward:
  assumes "\<And>i. cursor_reader (f i)"
  shows "cursor_reader (read_loop f i n)"
proof
  fix c x c'
  show "read_loop f i n c = Inr (x, c') \<Longrightarrow> advances c c'"
  proof (induction n arbitrary: i c x)
    case 0
    then show ?case by simp
  next
    case (Suc n)
    then obtain y c1 ys where "f i c = Inr (y, c1)" and "read_loop f (Suc i) n c1 = Inr (ys, c')"
      by (auto simp: res_simps)
    then show ?case
      using cursor_reader.forward [OF assms] Suc.IH by (blast intro: advances_trans)
  qed
qed

lemma read_loop_length:
  "read_loop f i n c = Inr (xs, c') \<Longrightarrow> length xs = n"
  by (induction n arbitrary: i c xs) (auto simp: res_simps)

section \<open>Readers that invert an encoder\<close>

locale indexed_codec =
  fixes enc :: "'m \<Rightarrow> bytes" and row :: "nat \<Rightarrow> 'm \<Rightarrow> 'a"
    and wf :: "'m \<Rightarrow> bool" and dec :: "nat \<Rightarrow> cursor \<Rightarrow> 'e + ('a \<times> cursor)"
  assumes dec_enc: "wf m \<Longrightarrow> dec i (cur_at pre (enc m @ r)) = Inr (row i m, cur_at (pre @ enc m) r)"
begin

lemma read_loop_enc:
  "list_all wf ms \<Longrightarrow>
     read_loop dec i (length ms) (cur_at pre (concat (map enc ms) @ r)) =
     Inr (map2 row [i ..< i + length ms] ms, cur_at (pre @ concat (map enc ms)) r)"
proof (induction ms arbitrary: i pre)
  case Nil
  then show ?case by simp
next
  case (Cons m ms)
  have "[i ..< i + length (m # ms)] = i # [Suc i ..< Suc i + length ms]"
    by (simp add: upt_rec)
  with Cons show ?case
    by (simp add: dec_enc)
qed

end

end
