(* ===== verification/Core_Hash.thy ===== *)
theory Core_Hash
  imports Prelude
begin

text \<open>
  \<open>bidx-core/src/hash.rs\<close>: 32-byte hashes in wire order and their display form, and the two
  Bitcoin digests. The \<open>sha2\<close> and \<open>ripemd\<close> crates are the fields of \<open>digests\<close>, the
  \<open>hex\<close> crate the fields of \<open>hex_crate\<close>; what the program relies on of them (digest
  widths, decoding inverts encoding, a decoder fills exactly the requested array) are the
  interfaces \<open>digest_widths\<close> and \<open>hex_laws\<close>. A reference implementation of the hex crate's
  documented behaviour interprets the latter.
\<close>

type_synonym hash32 = bytes

record digests =
  sha256 :: "bytes \<Rightarrow> bytes"
  ripemd160 :: "bytes \<Rightarrow> bytes"

datatype hex_error = InvalidHexCharacter char nat | OddLength | InvalidStringLength

record hex_crate =
  hex_encode :: "bytes \<Rightarrow> string"
  hex_decode_to_slice :: "string \<Rightarrow> nat \<Rightarrow> hex_error + bytes"
  hex_decode :: "string \<Rightarrow> hex_error + bytes"

definition Hash32_ZERO :: hash32 where
  "Hash32_ZERO = replicate 32 0"

definition Hash32_from_bytes :: "bytes \<Rightarrow> hash32" where
  "Hash32_from_bytes b = b"

definition as_bytes :: "hash32 \<Rightarrow> bytes" where
  "as_bytes h = h"

definition from_hex :: "hex_crate \<Rightarrow> string \<Rightarrow> hex_error + hash32" where
  "from_hex X s = res_bind (hex_decode_to_slice X s 32) (\<lambda>b. Inr (rev b))"

definition to_hex :: "hex_crate \<Rightarrow> hash32 \<Rightarrow> string" where
  "to_hex X h = hex_encode X (rev h)"

definition to_raw_hex :: "hex_crate \<Rightarrow> hash32 \<Rightarrow> string" where
  "to_raw_hex X h = hex_encode X h"

definition hash32_debug :: "hex_crate \<Rightarrow> hash32 \<Rightarrow> string" where
  "hash32_debug X h = ''Hash32('' @ to_hex X h @ '')''"

definition hash32_display :: "hex_crate \<Rightarrow> hash32 \<Rightarrow> string" where
  "hash32_display X h = to_hex X h"

text \<open>Serde: a hash is the string of its display form.\<close>

definition hash32_serialize :: "hex_crate \<Rightarrow> hash32 \<Rightarrow> string" where
  "hash32_serialize X h = to_hex X h"

definition hash32_deserialize :: "hex_crate \<Rightarrow> 'e + string \<Rightarrow> (hex_error \<Rightarrow> 'e) \<Rightarrow> 'e + hash32" where
  "hash32_deserialize X d custom = res_bind d (\<lambda>s. map_err custom (from_hex X s))"

definition dsha256 :: "digests \<Rightarrow> bytes \<Rightarrow> hash32" where
  "dsha256 H d = sha256 H (sha256 H d)"

definition hash160 :: "digests \<Rightarrow> bytes \<Rightarrow> bytes" where
  "hash160 H d = ripemd160 H (sha256 H d)"

lemma length_Hash32_ZERO [simp]: "length Hash32_ZERO = 32"
  by (simp add: Hash32_ZERO_def)

section \<open>What the program relies on of the hashing crates\<close>

locale digest_widths =
  fixes H :: digests
  assumes sha256_length [simp]: "length (sha256 H d) = 32"
    and ripemd160_length [simp]: "length (ripemd160 H d) = 20"
begin

lemma length_dsha256 [simp]: "length (dsha256 H d) = 32"
  by (simp add: dsha256_def)

lemma length_hash160 [simp]: "length (hash160 H d) = 20"
  by (simp add: hash160_def)

end

locale hex_laws =
  fixes X :: hex_crate
  assumes decode_encode: "hex_decode_to_slice X (hex_encode X b) (length b) = Inr b"
    and decode_length: "hex_decode_to_slice X s n = Inr b \<Longrightarrow> length b = n \<and> length s = 2 * n"
    and decode_all: "hex_decode X (hex_encode X b) = Inr b"
begin

lemma from_to_hex: "length h = 32 \<Longrightarrow> from_hex X (to_hex X h) = Inr h"
  using decode_encode [of "rev h"] by (simp add: from_hex_def to_hex_def)

lemma serde_roundtrip:
  "length h = 32 \<Longrightarrow> hash32_deserialize X (Inr (hash32_serialize X h)) custom = Inr h"
  by (simp add: hash32_deserialize_def hash32_serialize_def from_to_hex)

lemma from_hex_length: "from_hex X s = Inr h \<Longrightarrow> length h = 32 \<and> length s = 64"
  by (auto simp: from_hex_def res_simps dest: decode_length)

lemma to_hex_inj: "length a = 32 \<Longrightarrow> length b = 32 \<Longrightarrow> to_hex X a = to_hex X b \<Longrightarrow> a = b"
  by (metis from_to_hex sum.inject(2))

end

section \<open>The hex crate's documented behaviour\<close>

definition hex_digit :: "nat \<Rightarrow> char" where
  "hex_digit n = ''0123456789abcdef'' ! n"

definition hex_value :: "char \<Rightarrow> nat option" where
  "hex_value c =
    (let n = of_char c :: nat in
     if 48 \<le> n \<and> n \<le> 57 then Some (n - 48)
     else if 97 \<le> n \<and> n \<le> 102 then Some (n - 87)
     else if 65 \<le> n \<and> n \<le> 70 then Some (n - 55)
     else None)"

fun hex_pairs :: "nat \<Rightarrow> string \<Rightarrow> hex_error + bytes" where
  "hex_pairs i (a # b # s) =
    res_bind (ok_or (hex_value a) (InvalidHexCharacter a i)) (\<lambda>x.
    res_bind (ok_or (hex_value b) (InvalidHexCharacter b (i + 1))) (\<lambda>y.
    res_bind (hex_pairs (i + 2) s) (\<lambda>bs. Inr (of_nat (16 * x + y) # bs))))"
| "hex_pairs i _ = Inr []"

definition std_hex :: hex_crate where
  "std_hex = \<lparr>
     hex_encode = (\<lambda>b. concat (map (\<lambda>x. [hex_digit (unat x div 16), hex_digit (unat x mod 16)]) b)),
     hex_decode_to_slice = (\<lambda>s n.
       if length s mod 2 \<noteq> 0 then Inl OddLength
       else if length s div 2 \<noteq> n then Inl InvalidStringLength
       else hex_pairs 0 s),
     hex_decode = (\<lambda>s. if length s mod 2 \<noteq> 0 then Inl OddLength else hex_pairs 0 s)\<rparr>"

lemma hex_value_digit: "n < 16 \<Longrightarrow> hex_value (hex_digit n) = Some n"
proof -
  have "\<forall>n\<in>set [0..<16]. hex_value (hex_digit n) = Some n"
    by code_simp
  then show "n < 16 \<Longrightarrow> hex_value (hex_digit n) = Some n" by simp
qed

lemma nibbles_join: "16 * of_nat (unat x div 16) + of_nat (unat x mod 16) = (x :: byte)"
proof -
  have "16 * of_nat (unat x div 16) + of_nat (unat x mod 16)
      = (of_nat (16 * (unat x div 16) + unat x mod 16) :: byte)"
    by (simp only: of_nat_add of_nat_mult of_nat_numeral)
  also have "\<dots> = of_nat (unat x)" by (simp only: mult_div_mod_eq)
  finally show ?thesis by simp
qed

lemma hex_pairs_encode: "hex_pairs i (hex_encode std_hex b) = Inr b"
proof (induction b arbitrary: i)
  case Nil
  then show ?case by (simp add: std_hex_def)
next
  case (Cons x b)
  have "unat x div 16 < 16" using unat_byte_lt [of x] by linarith
  then show ?case
    using Cons [of "i + 2"] nibbles_join [of x] by (simp add: std_hex_def hex_value_digit)
qed

lemma length_hex_encode: "length (hex_encode std_hex b) = 2 * length b"
  by (induction b) (simp_all add: std_hex_def)

lemma hex_pairs_length: "hex_pairs i s = Inr b \<Longrightarrow> length b = length s div 2"
  by (induction i s arbitrary: b rule: hex_pairs.induct) (auto simp: res_simps)

interpretation hex_std: hex_laws std_hex
proof
  fix b :: bytes
  have "hex_decode_to_slice std_hex s (length b) = hex_pairs 0 s" if "length s = 2 * length b" for s
    using that by (simp add: std_hex_def)
  then show "hex_decode_to_slice std_hex (hex_encode std_hex b) (length b) = Inr b"
    by (simp add: length_hex_encode hex_pairs_encode)
next
  fix s n b
  assume "hex_decode_to_slice std_hex s n = Inr b"
  then show "length b = n \<and> length s = 2 * n"
    by (auto simp: std_hex_def split: if_splits dest!: hex_pairs_length)
next
  fix b :: bytes
  have "hex_decode std_hex s = hex_pairs 0 s" if "length s = 2 * length b" for s
    using that by (simp add: std_hex_def)
  then show "hex_decode std_hex (hex_encode std_hex b) = Inr b"
    by (simp add: length_hex_encode hex_pairs_encode)
qed

text \<open>
  A pair of functions of the right widths: the first 32 (20) bytes of the zero-extended input.
  It only serves to show that the width laws can hold.
\<close>

definition pad_digests :: digests where
  "pad_digests = \<lparr>sha256 = (\<lambda>d. take 32 (d @ zeros 32)), ripemd160 = (\<lambda>d. take 20 (d @ zeros 20))\<rparr>"

interpretation dg_pad: digest_widths pad_digests
  by unfold_locales (simp_all add: pad_digests_def)

end
