(* ===== verification/Core_Types.thy ===== *)
theory Core_Types
  imports Core_Hash
begin

text \<open>
  \<open>bidx-core/src/types.rs\<close>: network magics, the 80-byte block header, block locations, the
  chain index and the row types every later stage passes on. A header's reference encoder
  \<open>header_bytes\<close> is the wire layout the parser inverts.
\<close>

definition BLOCK_MAGIC :: u32 where "BLOCK_MAGIC = 0xD9B4BEF9"
definition BLOCK_MAGIC_TESTNET3 :: u32 where "BLOCK_MAGIC_TESTNET3 = 0x0709110B"
definition BLOCK_MAGIC_SIGNET :: u32 where "BLOCK_MAGIC_SIGNET = 0x40CF030A"
definition BLOCK_MAGIC_TESTNET4 :: u32 where "BLOCK_MAGIC_TESTNET4 = 0x283F161C"
definition BLOCK_MAGIC_REGTEST :: u32 where "BLOCK_MAGIC_REGTEST = 0xDAB5BFFA"

lemmas magic_defs = BLOCK_MAGIC_def BLOCK_MAGIC_TESTNET3_def BLOCK_MAGIC_SIGNET_def
  BLOCK_MAGIC_TESTNET4_def BLOCK_MAGIC_REGTEST_def

definition is_known_network_magic :: "u32 \<Rightarrow> bool" where
  "is_known_network_magic magic \<longleftrightarrow>
     magic = BLOCK_MAGIC \<or> magic = BLOCK_MAGIC_TESTNET3 \<or> magic = BLOCK_MAGIC_SIGNET
   \<or> magic = BLOCK_MAGIC_TESTNET4 \<or> magic = BLOCK_MAGIC_REGTEST"

definition BLOCK_HEADER_LEN :: nat where "BLOCK_HEADER_LEN = 80"

record block_header =
  h_version :: i32
  h_prev_hash :: hash32
  h_merkle_root :: hash32
  h_time :: u32
  h_bits :: u32
  h_nonce :: u32

definition header_parse :: "bytes \<Rightarrow> block_header" where
  "header_parse raw =
    (let c = raw;
         version = from_le (take 4 c); c = drop 4 c;
         prev = take 32 c; c = drop 32 c;
         merkle = take 32 c; c = drop 32 c;
         time = from_le (take 4 c); c = drop 4 c;
         bits = from_le (take 4 c); c = drop 4 c;
         nonce = from_le (take 4 c)
     in \<lparr>h_version = version, h_prev_hash = prev, h_merkle_root = merkle,
         h_time = time, h_bits = bits, h_nonce = nonce\<rparr>)"

definition header_hash :: "digests \<Rightarrow> bytes \<Rightarrow> hash32" where
  "header_hash H raw = dsha256 H raw"

definition header_bytes :: "block_header \<Rightarrow> bytes" where
  "header_bytes h = to_le (h_version h) @ h_prev_hash h @ h_merkle_root h
     @ to_le (h_time h) @ to_le (h_bits h) @ to_le (h_nonce h)"

definition header_ok :: "block_header \<Rightarrow> bool" where
  "header_ok h \<longleftrightarrow> length (h_prev_hash h) = 32 \<and> length (h_merkle_root h) = 32"

record block_location =
  l_file_id :: u32
  l_offset :: u64
  l_record_len :: u32

definition data_offset :: "block_location \<Rightarrow> u64" where
  "data_offset l = l_offset l + 8"

record chain_index =
  by_height :: "block_location list"
  hash_to_height :: "(hash32 \<times> u32) list"

definition tip_height :: "chain_index \<Rightarrow> u32 option" where
  "tip_height ci = (if by_height ci = [] then None else Some (of_nat (length (by_height ci) - 1)))"

record block_row =
  b_height :: u32
  b_hash :: bytes
  b_prev_hash :: bytes
  b_merkle_root :: bytes
  b_time :: u32
  b_bits :: u32
  b_nonce :: u32
  b_version :: i32
  b_tx_count :: u32
  b_size :: u32
  b_weight :: u32
  b_total_fee :: u64
  b_coinbase_value :: u64

record tx_row =
  t_height :: u32
  t_tx_index :: u32
  t_txid :: bytes
  t_version :: i32
  t_locktime :: u32
  t_size :: u32
  t_weight :: u32
  t_fee :: u64
  t_input_count :: u32
  t_output_count :: u32
  t_has_witness :: bool

record input_row =
  i_height :: u32
  i_tx_index :: u32
  i_input_index :: u32
  i_txid :: bytes
  i_prev_txid :: bytes
  i_prev_vout :: u32
  i_script_sig_len :: u32
  i_sequence :: u32
  i_witness_items :: u32
  i_witness_bytes :: u32
  i_is_coinbase :: bool

record output_row =
  o_height :: u32
  o_tx_index :: u32
  o_output_index :: u32
  o_txid :: bytes
  o_value_sat :: u64
  o_script_pubkey_len :: u32
  o_script_type :: u8
  o_address_hash :: bytes

record spend_row =
  s_height :: u32
  s_spending_tx_index :: u32
  s_spending_input_index :: u32
  s_spending_txid :: bytes
  s_spent_txid :: bytes
  s_spent_vout :: u32
  s_spent_value_sat :: u64
  s_spent_script_type :: u8
  s_spent_address_hash :: bytes
  s_spent_height :: u32

lemma length_header_bytes: "header_ok h \<Longrightarrow> length (header_bytes h) = BLOCK_HEADER_LEN"
  by (simp add: header_bytes_def header_ok_def BLOCK_HEADER_LEN_def)

lemma parse_header_bytes: "header_ok h \<Longrightarrow> header_parse (header_bytes h @ r) = h"
  by (simp add: header_parse_def header_bytes_def header_ok_def Let_def)

lemma header_parse_ok: "length raw = BLOCK_HEADER_LEN \<Longrightarrow> header_ok (header_parse raw)"
  by (simp add: header_parse_def header_ok_def BLOCK_HEADER_LEN_def Let_def)

lemma header_bytes_parse:
  assumes "length raw = BLOCK_HEADER_LEN"
  shows "header_bytes (header_parse raw) = raw"
  using assms
  by (simp add: header_parse_def header_bytes_def BLOCK_HEADER_LEN_def Let_def to_from_le
      flip: take_add drop_drop)

end
