(* ===== verification/Core_Script.thy ===== *)
theory Core_Script
  imports Core_Hash
begin

text \<open>
  \<open>bidx-core/src/script.rs\<close>: classification of output scripts and extraction of the
  address hash. \<open>classify_script\<close> follows the source's cascade of byte comparisons;
  the reference for it is the set of script templates \<open>p2pkh_script\<close>, \<open>p2sh_script\<close>,
  \<open>witness_script\<close> and \<open>multisig_script\<close>, built forwards from their parts.

  The key counter of \<open>is_bare_multisig\<close> is a \<open>u8\<close> that wraps in a release build; it is
  kept at its width.
\<close>

datatype script_type =
    Unknown | P2PK | P2PKH | P2SH | P2WPKH | P2WSH | P2TR | OpReturn | BareMultisig | WitnessUnknown

fun script_type_code :: "script_type \<Rightarrow> u8" where
  "script_type_code Unknown = 0"
| "script_type_code P2PK = 1"
| "script_type_code P2PKH = 2"
| "script_type_code P2SH = 3"
| "script_type_code P2WPKH = 4"
| "script_type_code P2WSH = 5"
| "script_type_code P2TR = 6"
| "script_type_code OpReturn = 7"
| "script_type_code BareMultisig = 8"
| "script_type_code WitnessUnknown = 9"

fun as_str :: "script_type \<Rightarrow> string" where
  "as_str Unknown = ''unknown''"
| "as_str P2PK = ''p2pk''"
| "as_str P2PKH = ''p2pkh''"
| "as_str P2SH = ''p2sh''"
| "as_str P2WPKH = ''p2wpkh''"
| "as_str P2WSH = ''p2wsh''"
| "as_str P2TR = ''p2tr''"
| "as_str OpReturn = ''op_return''"
| "as_str BareMultisig = ''bare_multisig''"
| "as_str WitnessUnknown = ''witness_unknown''"

definition pad20 :: "bytes \<Rightarrow> bytes" where
  "pad20 h = h @ zeros (32 - 20)"

definition pad_slice :: "bytes \<Rightarrow> bytes" where
  "pad_slice b = (let n = min (length b) 32 in take n b @ zeros (32 - n))"

text \<open>The walk over the pubkey pushes: \<open>None\<close> for its early returns of \<open>false\<close>.\<close>

function multisig_walk :: "bytes \<Rightarrow> nat \<Rightarrow> u8 \<Rightarrow> (nat \<times> u8) option" where
  "multisig_walk spk i count =
    (if i < length spk - 2 then
       let push = unat (spk ! i) in
       if push \<noteq> 33 \<and> push \<noteq> 65 then None
       else if length spk - 2 < i + 1 + push then None
       else multisig_walk spk (i + (1 + push)) (count + 1)
     else Some (i, count))"
  by pat_completeness auto
termination by (relation "measure (\<lambda>(spk, i, _). length spk - i)") auto

declare multisig_walk.simps [simp del]

definition is_bare_multisig :: "bytes \<Rightarrow> bool" where
  "is_bare_multisig spk =
    (let len = length spk in
     if len < 3 \<or> spk ! (len - 1) \<noteq> 0xae then False
     else let m = spk ! 0; n = spk ! (len - 2) in
     if \<not> (0x51 \<le> m \<and> m \<le> 0x60) \<or> \<not> (0x51 \<le> n \<and> n \<le> 0x60) then False
     else let m = m - 0x50; n = n - 0x50 in
     if m = 0 \<or> n = 0 \<or> n < m then False
     else case multisig_walk spk 1 0 of
       None \<Rightarrow> False
     | Some (i, count) \<Rightarrow> i = len - 2 \<and> count = n)"

text \<open>
  The early returns of \<open>classify_script\<close> from its segwit block and its P2PK block; \<open>None\<close>
  is falling through to the next test.
\<close>

definition classify_segwit :: "bytes \<Rightarrow> (script_type \<times> bytes) option" where
  "classify_segwit spk =
    (let len = length spk in
     if 4 \<le> len \<and> len \<le> 42 then
       let op = spk ! 0; push_len = unat (spk ! 1) in
       if push_len + 2 = len \<and> 2 \<le> push_len \<and> push_len \<le> 40 then
         if op = 0x00 then
           if push_len = 20 then Some (P2WPKH, pad_slice (subslice 2 22 spk))
           else if push_len = 32 then Some (P2WSH, pad_slice (subslice 2 34 spk))
           else Some (WitnessUnknown, pad_slice (drop 2 spk))
         else if 0x51 \<le> op \<and> op \<le> 0x60 then
           if op = 0x51 \<and> push_len = 32 then Some (P2TR, pad_slice (subslice 2 34 spk))
           else Some (WitnessUnknown, pad_slice (drop 2 spk))
         else None
       else None
     else None)"

definition classify_p2pk :: "digests \<Rightarrow> bytes \<Rightarrow> (script_type \<times> bytes) option" where
  "classify_p2pk H spk =
    (let len = length spk in
     if (len = 35 \<and> spk ! 0 = 33 \<and> spk ! 34 = 0xac)
        \<or> (len = 67 \<and> spk ! 0 = 65 \<and> spk ! 66 = 0xac) then
       let pk_len = unat (spk ! 0); pk = subslice 1 (1 + pk_len) spk in
       if 0x02 \<le> pk ! 0 \<and> pk ! 0 \<le> 0x04 then Some (P2PK, pad20 (hash160 H pk)) else None
     else None)"

definition classify_script :: "digests \<Rightarrow> bytes \<Rightarrow> script_type \<times> bytes" where
  "classify_script H spk =
    (let len = length spk in
     if len = 25 \<and> spk ! 0 = 0x76 \<and> spk ! 1 = 0xa9 \<and> spk ! 2 = 0x14
        \<and> spk ! 23 = 0x88 \<and> spk ! 24 = 0xac
     then (P2PKH, pad20 (subslice 3 23 spk))
     else if len = 23 \<and> spk ! 0 = 0xa9 \<and> spk ! 1 = 0x14 \<and> spk ! 22 = 0x87
     then (P2SH, pad20 (subslice 2 22 spk))
     else case classify_segwit spk of Some r \<Rightarrow> r
     | None \<Rightarrow>
       if 1 \<le> len \<and> spk ! 0 = 0x6a then (OpReturn, zeros 32)
       else case classify_p2pk H spk of Some r \<Rightarrow> r
       | None \<Rightarrow>
         if is_bare_multisig spk then (BareMultisig, pad20 (hash160 H spk))
         else (Unknown, zeros 32))"

section \<open>Templates\<close>

definition p2pkh_script :: "bytes \<Rightarrow> bytes" where
  "p2pkh_script h = [0x76, 0xa9, 0x14] @ h @ [0x88, 0xac]"

definition p2sh_script :: "bytes \<Rightarrow> bytes" where
  "p2sh_script h = [0xa9, 0x14] @ h @ [0x87]"

text \<open>A witness output of version \<open>v\<close> (0 to 16) with its program.\<close>

definition witness_op :: "nat \<Rightarrow> u8" where
  "witness_op v = (if v = 0 then 0 else 0x50 + of_nat v)"

definition witness_script :: "nat \<Rightarrow> bytes \<Rightarrow> bytes" where
  "witness_script v p = [witness_op v, of_nat (length p)] @ p"

definition p2pk_script :: "bytes \<Rightarrow> bytes" where
  "p2pk_script k = [of_nat (length k)] @ k @ [0xac]"

definition push_key :: "bytes \<Rightarrow> bytes" where
  "push_key k = of_nat (length k) # k"

definition multisig_script :: "nat \<Rightarrow> nat \<Rightarrow> bytes list \<Rightarrow> bytes" where
  "multisig_script m n keys =
     [0x50 + of_nat m] @ concat (map push_key keys) @ [0x50 + of_nat n, 0xae]"

definition key_len_ok :: "bytes \<Rightarrow> bool" where
  "key_len_ok k \<longleftrightarrow> length k = 33 \<or> length k = 65"

section \<open>Recognisers against templates\<close>

lemma take_nths: 
  "1 \<le> length xs \<Longrightarrow> take 1 xs = [xs ! 0]"
  "2 \<le> length xs \<Longrightarrow> take 2 xs = [xs ! 0, xs ! 1]"
  "3 \<le> length xs \<Longrightarrow> take 3 xs = [xs ! 0, xs ! 1, xs ! 2]"
  by (cases xs; cases "tl xs"; cases "tl (tl xs)"; auto simp: numeral_2_eq_2 numeral_3_eq_3)+

lemma drop_nths:
  "length xs = n + 1 \<Longrightarrow> drop n xs = [xs ! n]"
  "length xs = n + 2 \<Longrightarrow> drop n xs = [xs ! n, xs ! (n + 1)]"
  by (simp_all flip: Cons_nth_drop_Suc)

lemma split_middle: "p \<le> q \<Longrightarrow> q \<le> length xs \<Longrightarrow> take p xs @ subslice p q xs @ drop q xs = xs"
  by (metis append_assoc append_take_drop_id le_add_diff_inverse subslice_def take_add)

lemma p2pkh_iff:
  "length spk = 25 \<and> spk ! 0 = 0x76 \<and> spk ! 1 = 0xa9 \<and> spk ! 2 = 0x14
     \<and> spk ! 23 = 0x88 \<and> spk ! 24 = 0xac
   \<longleftrightarrow> (length (subslice 3 23 spk) = 20 \<and> spk = p2pkh_script (subslice 3 23 spk))"
  (is "?L \<longleftrightarrow> ?R")
proof
  assume L: ?L
  then show ?R
    using split_middle [of 3 23 spk] take_nths(3) [of spk] drop_nths(2) [of spk 23]
    by (simp add: p2pkh_script_def length_subslice)
next
  assume ?R
  then obtain h where "length h = 20" and "spk = p2pkh_script h" by blast
  then show ?L by (simp add: p2pkh_script_def nth_append)
qed

lemma p2sh_iff:
  "length spk = 23 \<and> spk ! 0 = 0xa9 \<and> spk ! 1 = 0x14 \<and> spk ! 22 = 0x87
   \<longleftrightarrow> (length (subslice 2 22 spk) = 20 \<and> spk = p2sh_script (subslice 2 22 spk))"
  (is "?L \<longleftrightarrow> ?R")
proof
  assume L: ?L
  then show ?R
    using split_middle [of 2 22 spk] take_nths(2) [of spk] drop_nths(1) [of spk 22]
    by (simp add: p2sh_script_def length_subslice)
next
  assume ?R
  then obtain h where "length h = 20" and "spk = p2sh_script h" by blast
  then show ?L by (simp add: p2sh_script_def nth_append)
qed

lemma multisig_walk_push:
  assumes "key_len_ok k" and "length suf = 2"
  shows "multisig_walk (pre @ push_key k @ mid @ suf) (length pre) count =
         multisig_walk (pre @ push_key k @ mid @ suf) (length pre + length (push_key k)) (count + 1)"
proof -
  have "unat (of_nat (length k) :: u8) = length k"
    using assms(1) by (intro unat_of_nat_less) (auto simp: key_len_ok_def)
  then show ?thesis
    using assms
    by (subst multisig_walk.simps) (auto simp: push_key_def key_len_ok_def nth_append Let_def)
qed

lemma multisig_walk_keys:
  assumes "list_all key_len_ok keys" and "length suf = 2"
  shows "multisig_walk (pre @ concat (map push_key keys) @ suf) (length pre) count =
         Some (length pre + length (concat (map push_key keys)), count + of_nat (length keys))"
  using assms
proof (induction keys arbitrary: pre count)
  case Nil
  then show ?case by (subst multisig_walk.simps) simp
next
  case (Cons k keys)
  have "multisig_walk (pre @ push_key k @ concat (map push_key keys) @ suf) (length pre) count =
        multisig_walk ((pre @ push_key k) @ concat (map push_key keys) @ suf)
          (length (pre @ push_key k)) (count + 1)"
    using Cons.prems by (simp add: multisig_walk_push)
  also have "\<dots> = Some (length (pre @ push_key k) + length (concat (map push_key keys)),
      count + 1 + of_nat (length keys))"
    using Cons.prems by (intro Cons.IH) simp_all
  finally show ?case by (simp add: add.assoc)
qed

lemma multisig_walk_sound:
  assumes "multisig_walk spk i count = Some (j, count')" and "i \<le> length spk - 2"
  shows "j = length spk - 2 \<and> (\<exists>keys. list_all key_len_ok keys
    \<and> count' = count + of_nat (length keys) \<and> subslice i j spk = concat (map push_key keys))"
  using assms
proof (induction spk i count rule: multisig_walk.induct)
  case (1 spk i count)
  show ?case
  proof (cases "i < length spk - 2")
    case False
    then have "multisig_walk spk i count = Some (i, count)"
      by (simp add: multisig_walk.simps [of spk i])
    with False 1(2,3) show ?thesis by (auto simp: subslice_def intro!: exI [of _ "[]"])
  next
    case True
    define push where "push = unat (spk ! i)"
    have p: "push = 33 \<or> push = 65" and le: "i + 1 + push \<le> length spk - 2"
      and rec: "multisig_walk spk (i + (1 + push)) (count + 1) = Some (j, count')"
      using 1(2) True
      by (auto simp: multisig_walk.simps [of spk i] push_def Let_def split: if_splits)
    have "j = length spk - 2 \<and> (\<exists>keys. list_all key_len_ok keys
        \<and> count' = count + 1 + of_nat (length keys)
        \<and> subslice (i + (1 + push)) j spk = concat (map push_key keys))"
      using p le rec by (intro 1(1) [OF True, unfolded push_def [symmetric], OF refl]) auto
    then obtain keys where j: "j = length spk - 2" and ks: "list_all key_len_ok keys"
      "count' = count + 1 + of_nat (length keys)"
      "subslice (i + (1 + push)) j spk = concat (map push_key keys)" by blast
    define k where "k = subslice (i + 1) (i + 1 + push) spk"
    have lk: "length k = push" using le by (simp add: k_def length_subslice)
    have "subslice i j spk = spk ! i # k @ subslice (i + (1 + push)) j spk"
    proof -
      have "j - i = 1 + push + (j - (i + (1 + push)))" using le j by linarith
      then have "subslice i j spk = take (1 + push + (j - (i + (1 + push)))) (drop i spk)"
        by (simp only: subslice_def)
      also have "\<dots> = take (1 + push) (drop i spk) @ subslice (i + (1 + push)) j spk"
        by (simp only: take_add subslice_def drop_drop ac_simps)
      also have "take (1 + push) (drop i spk) = spk ! i # k"
        using True by (simp add: k_def subslice_def flip: Cons_nth_drop_Suc)
      finally show ?thesis by simp
    qed
    moreover have "push_key k = spk ! i # k"
      unfolding push_key_def lk push_def by simp
    ultimately have "subslice i j spk = concat (map push_key (k # keys))"
      using ks by simp
    moreover have "list_all key_len_ok (k # keys)" using ks p lk by (auto simp: key_len_ok_def)
    ultimately show ?thesis using j ks(2)
      by (intro conjI exI [of _ "k # keys"]) (auto simp: add.assoc)
  qed
qed

lemma small_op_iff:
  "0x51 \<le> b \<and> b \<le> 0x60 \<longleftrightarrow> (\<exists>v. 1 \<le> v \<and> v \<le> 16 \<and> b = (0x50 + of_nat v :: u8))"
proof
  assume b: "0x51 \<le> b \<and> b \<le> 0x60"
  then have u: "0x51 \<le> unat b" "unat b \<le> 0x60" by (simp_all add: word_le_nat_alt)
  then have "b = 0x50 + of_nat (unat b - 0x50)"
    by (simp add: of_nat_diff)
  with u show "\<exists>v. 1 \<le> v \<and> v \<le> 16 \<and> b = (0x50 + of_nat v :: u8)"
    by (intro exI [of _ "unat b - 0x50"]) auto
next
  assume "\<exists>v. 1 \<le> v \<and> v \<le> 16 \<and> b = (0x50 + of_nat v :: u8)"
  then obtain v where v: "1 \<le> v" "v \<le> 16" "b = of_nat (0x50 + v)" by auto
  then have "unat b = 0x50 + v" by (simp only: v(3)) (intro unat_of_nat_less, simp)
  with v show "0x51 \<le> b \<and> b \<le> 0x60" by (simp add: word_le_nat_alt)
qed

lemma unat_of_nat_u8: "v \<le> 16 \<Longrightarrow> unat (of_nat v :: u8) = v"
  by (intro unat_of_nat_less) simp

lemma of_nat_u8_eq_iff: "(of_nat v :: u8) = of_nat w \<longleftrightarrow> v mod 256 = w mod 256"
  by (simp add: word_of_nat_eq_iff take_bit_eq_mod)

lemma multisig_script_recognised:
  assumes "1 \<le> m" "m \<le> n" "n \<le> 16" "list_all key_len_ok keys" "length keys mod 256 = n"
  shows "is_bare_multisig (multisig_script m n keys)"
proof -
  let ?spk = "multisig_script m n keys" and ?b = "concat (map push_key keys)"
  have len: "length ?spk = length ?b + 3" by (simp add: multisig_script_def)
  have ends: "?spk ! 0 = 0x50 + of_nat m" "?spk ! (length ?spk - 2) = 0x50 + of_nat n"
    "?spk ! (length ?spk - 1) = 0xae"
    using len by (simp_all add: multisig_script_def nth_append nth_Cons')
  have m: "0x51 \<le> ?spk ! 0" "?spk ! 0 \<le> 0x60"
    and n: "0x51 \<le> ?spk ! (length ?spk - 2)" "?spk ! (length ?spk - 2) \<le> 0x60"
    using small_op_iff [of "?spk ! 0"] small_op_iff [of "?spk ! (length ?spk - 2)"] assms ends
    by (metis le_trans)+
  have mn: "(of_nat m :: u8) \<noteq> 0" "(of_nat n :: u8) \<noteq> 0" "\<not> (of_nat n :: u8) < of_nat m"
    using assms by (auto simp: word_less_nat_alt unat_of_nat_u8 simp flip: unat_eq_zero)
  have "multisig_walk ?spk 1 0 = Some (1 + length ?b, of_nat (length keys))"
    using multisig_walk_keys [of keys "[0x50 + of_nat n, 0xae]" "[0x50 + of_nat m]" 0] assms
    by (simp add: multisig_script_def)
  moreover have "(of_nat (length keys) :: u8) = of_nat n"
    using assms by (simp add: of_nat_u8_eq_iff)
  ultimately show ?thesis
    using len ends m n mn by (simp add: is_bare_multisig_def Let_def)
qed

lemma multisig_script_complete:
  assumes "is_bare_multisig spk"
  obtains m n keys where "1 \<le> m" "m \<le> n" "n \<le> 16" "list_all key_len_ok keys"
    "length keys mod 256 = n" "spk = multisig_script m n keys"
proof -
  let ?l = "length spk"
  obtain count where len: "3 \<le> ?l" "spk ! (?l - 1) = 0xae"
    and "0x51 \<le> spk ! 0 \<and> spk ! 0 \<le> 0x60" and "0x51 \<le> spk ! (?l - 2) \<and> spk ! (?l - 2) \<le> 0x60"
    and le: "spk ! 0 - 0x50 \<le> spk ! (?l - 2) - 0x50"
    and walk: "multisig_walk spk 1 0 = Some (?l - 2, count)" and count: "count = spk ! (?l - 2) - 0x50"
    using assms by (auto simp: is_bare_multisig_def Let_def split: if_splits option.splits)
  then obtain m n where m: "1 \<le> m" "m \<le> 16" "spk ! 0 = 0x50 + of_nat m"
    and n: "1 \<le> n" "n \<le> 16" "spk ! (?l - 2) = 0x50 + of_nat n"
    unfolding small_op_iff by blast
  obtain keys where ks: "list_all key_len_ok keys" "count = of_nat (length keys)"
    "subslice 1 (?l - 2) spk = concat (map push_key keys)"
    using multisig_walk_sound [OF walk] len(1) by fastforce
  have "m \<le> n" using le m n by (simp add: word_le_nat_alt unat_of_nat_u8)
  moreover have "length keys mod 256 = n"
    using count ks(2) n by (simp add: of_nat_u8_eq_iff)
  moreover have "spk = multisig_script m n keys"
    using split_middle [of 1 "?l - 2" spk] take_nths(1) [of spk] drop_nths(2) [of spk "?l - 2"]
      len m n ks(3) by (simp add: multisig_script_def Suc_diff_Suc numeral_2_eq_2)
  ultimately show ?thesis using that m n ks by blast
qed

lemma classify_p2pkh: "length h = 20 \<Longrightarrow> classify_script H (p2pkh_script h) = (P2PKH, h @ zeros 12)"
  by (simp add: classify_script_def p2pkh_script_def nth_append subslice_def pad20_def)

lemma classify_p2sh: "length h = 20 \<Longrightarrow> classify_script H (p2sh_script h) = (P2SH, h @ zeros 12)"
  by (simp add: classify_script_def p2sh_script_def nth_append subslice_def pad20_def)

lemma witness_op_cases:
  "v \<le> 16 \<Longrightarrow> (witness_op v = 0 \<longleftrightarrow> v = 0) \<and> (witness_op v = 0x51 \<longleftrightarrow> v = 1)
     \<and> (0x51 \<le> witness_op v \<and> witness_op v \<le> 0x60 \<longleftrightarrow> v \<noteq> 0) \<and> witness_op v \<noteq> 0x76 \<and> witness_op v \<noteq> 0xa9"
proof -
  have "\<forall>v\<in>set [0..<17]. (witness_op v = 0 \<longleftrightarrow> v = 0) \<and> (witness_op v = 0x51 \<longleftrightarrow> v = 1)
     \<and> (0x51 \<le> witness_op v \<and> witness_op v \<le> 0x60 \<longleftrightarrow> v \<noteq> 0) \<and> witness_op v \<noteq> 0x76 \<and> witness_op v \<noteq> 0xa9"
    by code_simp
  then show "v \<le> 16 \<Longrightarrow> ?thesis" by simp
qed

definition witness_class :: "nat \<Rightarrow> nat \<Rightarrow> script_type" where
  "witness_class v n =
    (if v = 0 \<and> n = 20 then P2WPKH else if v = 0 \<and> n = 32 then P2WSH
     else if v = 1 \<and> n = 32 then P2TR else WitnessUnknown)"

lemma classify_witness:
  assumes "v \<le> 16" and "2 \<le> length p" and "length p \<le> 40"
  shows "classify_script H (witness_script v p) = (witness_class v (length p), pad_slice p)"
proof -
  have "unat (of_nat (length p) :: u8) = length p"
    using assms by (intro unat_of_nat_less) simp
  then show ?thesis
    using assms witness_op_cases [OF assms(1)]
    by (auto simp: classify_script_def classify_segwit_def witness_script_def witness_class_def
        subslice_def Let_def)
qed

lemma witness_shape:
  assumes "unat (spk ! 1) + 2 = length spk" and "spk ! 0 = 0 \<or> 0x51 \<le> spk ! 0 \<and> spk ! 0 \<le> 0x60"
  shows "\<exists>v \<le> 16. spk = witness_script v (drop 2 spk)"
proof -
  obtain v where "v \<le> 16" "spk ! 0 = witness_op v"
    using assms(2) unfolding small_op_iff witness_op_def by (metis le_zero_eq not_one_le_zero zero_le)
  moreover have "spk = [spk ! 0, spk ! 1] @ drop 2 spk"
    using take_nths(2) [of spk] append_take_drop_id [of 2 spk] assms(1) by simp
  moreover have "of_nat (length (drop 2 spk)) = spk ! 1"
    using assms(1) by (metis length_drop add_diff_cancel_right' of_nat_unat ucast_id)
  ultimately show ?thesis by (metis witness_script_def)
qed

lemma classify_segwit_Some:
  "classify_segwit spk = Some r \<Longrightarrow>
     unat (spk ! 1) + 2 = length spk \<and> 2 \<le> unat (spk ! 1) \<and> unat (spk ! 1) \<le> 40
     \<and> (spk ! 0 = 0 \<or> 0x51 \<le> spk ! 0 \<and> spk ! 0 \<le> 0x60)"
  by (simp add: classify_segwit_def Let_def split: if_splits)

lemma classify_p2pk_Some: "classify_p2pk H spk = Some r \<Longrightarrow> fst r = P2PK"
  by (auto simp: classify_p2pk_def Let_def split: if_splits)

lemma classify_late:
  assumes "\<not> (length spk = 25 \<and> spk ! 0 = 0x76 \<and> spk ! 1 = 0xa9 \<and> spk ! 2 = 0x14
      \<and> spk ! 23 = 0x88 \<and> spk ! 24 = 0xac)"
    and "\<not> (length spk = 23 \<and> spk ! 0 = 0xa9 \<and> spk ! 1 = 0x14 \<and> spk ! 22 = 0x87)"
    and "classify_segwit spk = None"
  shows "fst (classify_script H spk) \<in> {OpReturn, P2PK, BareMultisig, Unknown}"
  unfolding classify_script_def Let_def if_not_P [OF assms(1)] if_not_P [OF assms(2)] assms(3)
  by (cases "classify_p2pk H spk") (auto dest: classify_p2pk_Some)

lemma classify_cases:
  obtains (pkh) h where "length h = 20" "spk = p2pkh_script h"
  | (sh) h where "length h = 20" "spk = p2sh_script h"
  | (wit) v p where "v \<le> 16" "2 \<le> length p" "length p \<le> 40" "spk = witness_script v p"
  | (other) "fst (classify_script H spk) \<in> {OpReturn, P2PK, BareMultisig, Unknown}"
proof -
  consider (a) "length spk = 25 \<and> spk ! 0 = 0x76 \<and> spk ! 1 = 0xa9 \<and> spk ! 2 = 0x14
      \<and> spk ! 23 = 0x88 \<and> spk ! 24 = 0xac"
    | (b) "length spk = 23 \<and> spk ! 0 = 0xa9 \<and> spk ! 1 = 0x14 \<and> spk ! 22 = 0x87"
    | (c) r where "classify_segwit spk = Some r"
    | (d) "fst (classify_script H spk) \<in> {OpReturn, P2PK, BareMultisig, Unknown}"
    using classify_late [of spk H] by (cases "classify_segwit spk") blast+
  then show thesis
  proof cases
    case a
    then show thesis using pkh unfolding p2pkh_iff by blast
  next
    case b
    then show thesis using sh unfolding p2sh_iff by blast
  next
    case c
    then show thesis
      using wit witness_shape classify_segwit_Some by (metis add_diff_cancel_right' length_drop)
  next
    case d
    then show thesis by (rule other)
  qed
qed

lemma witness_script_inject:
  assumes "v \<le> 16" and "w \<le> 16"
  shows "witness_script v p = witness_script w q \<longleftrightarrow> v = w \<and> p = q"
proof -
  have "unat (witness_op v) = (if v = 0 then 0 else 0x50 + v)" if "v \<le> 16" for v
    using that unat_of_nat_less [of "0x50 + v", where 'a = 8] by (simp add: witness_op_def)
  then have "witness_op v = witness_op w \<longleftrightarrow> v = w"
    using assms by (metis add_left_cancel add_is_0 zero_neq_numeral)
  then show ?thesis by (auto simp: witness_script_def)
qed

text \<open>Which scripts get which type.\<close>

lemma witness_class_type: "witness_class v n \<in> {P2WPKH, P2WSH, P2TR, WitnessUnknown}"
  by (simp add: witness_class_def)

lemma classify_P2PKH_iff:
  "fst (classify_script H spk) = P2PKH \<longleftrightarrow> (\<exists>h. length h = 20 \<and> spk = p2pkh_script h)"
proof
  assume t: "fst (classify_script H spk) = P2PKH"
  show "\<exists>h. length h = 20 \<and> spk = p2pkh_script h"
    using t by (cases rule: classify_cases [where spk = spk and H = H])
      (auto simp: classify_p2sh classify_witness witness_class_def split: if_splits)
qed (auto simp: classify_p2pkh)

lemma classify_P2SH_iff:
  "fst (classify_script H spk) = P2SH \<longleftrightarrow> (\<exists>h. length h = 20 \<and> spk = p2sh_script h)"
proof
  assume t: "fst (classify_script H spk) = P2SH"
  show "\<exists>h. length h = 20 \<and> spk = p2sh_script h"
    using t by (cases rule: classify_cases [where spk = spk and H = H])
      (auto simp: classify_p2pkh classify_witness witness_class_def split: if_splits)
qed (auto simp: classify_p2sh)

lemma classify_witness_iff:
  "fst (classify_script H spk) \<in> {P2WPKH, P2WSH, P2TR, WitnessUnknown} \<longleftrightarrow>
     (\<exists>v p. v \<le> 16 \<and> 2 \<le> length p \<and> length p \<le> 40 \<and> spk = witness_script v p
        \<and> classify_script H spk = (witness_class v (length p), take 32 p @ zeros (32 - length p)))"
proof
  assume t: "fst (classify_script H spk) \<in> {P2WPKH, P2WSH, P2TR, WitnessUnknown}"
  have pad: "pad_slice p = take 32 p @ zeros (32 - length p)" for p
    by (simp add: pad_slice_def min_def Let_def)
  obtain v p where "v \<le> 16" "2 \<le> length p" "length p \<le> 40" "spk = witness_script v p"
    using t by (cases rule: classify_cases [where spk = spk and H = H])
      (auto simp: classify_p2pkh classify_p2sh)
  then show "\<exists>v p. v \<le> 16 \<and> 2 \<le> length p \<and> length p \<le> 40 \<and> spk = witness_script v p
      \<and> classify_script H spk = (witness_class v (length p), take 32 p @ zeros (32 - length p))"
    using classify_witness [of v p H] pad by metis
next
  assume "\<exists>v p. v \<le> 16 \<and> 2 \<le> length p \<and> length p \<le> 40 \<and> spk = witness_script v p
      \<and> classify_script H spk = (witness_class v (length p), take 32 p @ zeros (32 - length p))"
  then show "fst (classify_script H spk) \<in> {P2WPKH, P2WSH, P2TR, WitnessUnknown}"
    using witness_class_type by (metis fst_conv)
qed

lemma classify_witness_template:
  assumes "v \<le> 16" "2 \<le> n" "n \<le> 40" "witness_class v n \<noteq> WitnessUnknown"
  shows "fst (classify_script H spk) = witness_class v n \<longleftrightarrow> (\<exists>p. length p = n \<and> spk = witness_script v p)"
proof
  assume t: "fst (classify_script H spk) = witness_class v n"
  then have "fst (classify_script H spk) \<in> {P2WPKH, P2WSH, P2TR, WitnessUnknown}"
    using witness_class_type [of v n] by simp
  then obtain w p where wp: "spk = witness_script w p" "classify_script H spk = (witness_class w (length p), take 32 p @ zeros (32 - length p))"
    unfolding classify_witness_iff by blast
  then have "w = v \<and> length p = n" using t assms(4) by (auto simp: witness_class_def split: if_splits)
  with wp(1) show "\<exists>p. length p = n \<and> spk = witness_script v p" by blast
qed (use assms in \<open>auto simp: classify_witness\<close>)

section \<open>Properties\<close>


text \<open>C33. \<open>is_bare_multisig\<close> accepts exactly the scripts \<open>OP_m <key>... OP_n
  OP_CHECKMULTISIG\<close> with \<open>1 \<le> m \<le> n \<le> 16\<close> and 33- or 65-byte keys whose number equals \<open>n\<close>
  modulo 256 (the key counter is a \<open>u8\<close>).\<close>

theorem is_bare_multisig_grammar:
  "is_bare_multisig spk \<longleftrightarrow>
     (\<exists>m n keys. 1 \<le> m \<and> m \<le> n \<and> n \<le> 16 \<and> list_all key_len_ok keys
        \<and> length keys mod 256 = n \<and> spk = multisig_script m n keys)"
  using multisig_script_recognised multisig_script_complete by metis

text \<open>The wrap-around of that counter is observable: a script with 257 key pushes that
  declares a 1-of-1 multisig is classified as bare multisig.\<close>

theorem multisig_counter_wraps:
  "classify_script H (multisig_script 1 1 (replicate 257 (replicate 33 2)))
     = (BareMultisig, pad20 (hash160 H (multisig_script 1 1 (replicate 257 (replicate 33 2)))))"
proof -
  let ?s = "multisig_script 1 1 (replicate 257 (replicate 33 (2::byte)))"
  have "is_bare_multisig ?s"
    by (rule multisig_script_recognised) (simp_all add: list_all_iff key_len_ok_def)
  moreover have "length ?s = 257 * 34 + 3"
    by (simp add: multisig_script_def push_key_def length_concat sum_list_replicate)
  moreover have "?s ! 0 = 0x51" by (simp add: multisig_script_def)
  ultimately show ?thesis
    by (simp add: classify_script_def classify_segwit_def classify_p2pk_def)
qed

end
