(* ===== verification/Core_Disk.thy ===== *)
theory Core_Disk
  imports Core_Types Core_Text Core_Float "HOL-Library.List_Lexorder" "HOL-Library.Char_ord"
    "HOL-Library.Multiset"
begin

text \<open>
  \<open>bidx-core/src/disk.rs\<close>: networks, directory sizes, the checkpoint file and the projection.
  The host the program runs on is the parameter \<open>host\<close>: text files, directory trees, \<open>statfs\<close>
  and environment variables. The interface \<open>text_files\<close> states what the checkpoint file relies
  on; it is interpreted on a map from paths to texts. Floating point is the parameter of
  \<open>Core_Float\<close>.
\<close>

section \<open>Networks\<close>

datatype network = Mainnet | Testnet3 | Testnet4 | Signet | Regtest

fun network_name :: "network \<Rightarrow> string" where
  "network_name Mainnet = ''mainnet''"
| "network_name Testnet3 = ''testnet3''"
| "network_name Testnet4 = ''testnet4''"
| "network_name Signet = ''signet''"
| "network_name Regtest = ''regtest''"

definition from_magic :: "u32 \<Rightarrow> network option" where
  "from_magic magic =
    (if magic = BLOCK_MAGIC then Some Mainnet
     else if magic = BLOCK_MAGIC_TESTNET3 then Some Testnet3
     else if magic = BLOCK_MAGIC_SIGNET then Some Signet
     else if magic = BLOCK_MAGIC_TESTNET4 then Some Testnet4
     else if magic = BLOCK_MAGIC_REGTEST then Some Regtest
     else None)"

definition is_blk_name :: "string \<Rightarrow> bool" where
  "is_blk_name name \<longleftrightarrow> take 3 name = ''blk'' \<and> 4 \<le> length name \<and> drop (length name - 4) name = ''.dat''"

definition detect_from_blocks_dir :: "fs \<Rightarrow> path \<Rightarrow> network option" where
  "detect_from_blocks_dir F dir =
    (case fs_read_dir F dir of
       Inl _ \<Rightarrow> None
     | Inr rd \<Rightarrow>
       (case sort (filter is_blk_name (concat (map (\<lambda>e. case e of Inl _ \<Rightarrow> [] | Inr n \<Rightarrow> [n]) rd))) of
          [] \<Rightarrow> None
        | first # _ \<Rightarrow>
          (case fs_read F (dir @ [first]) of
             Inl _ \<Rightarrow> None
           | Inr data \<Rightarrow> if length data < 4 then None else from_magic (from_le (take 4 data)))))"

section \<open>The host\<close>

datatype dir_entry =
    EntryError
  | NoFileType
  | Symlink
  | SubDir "dir_entry list option"
  | RegFile "u64 option"

record 'w host =
  h_read :: "'w \<Rightarrow> path \<Rightarrow> io_error + string"
  h_exists :: "'w \<Rightarrow> path \<Rightarrow> bool"
  h_create_dir_all :: "'w \<Rightarrow> path \<Rightarrow> ('w, io_error, unit) io"
  h_open_append :: "'w \<Rightarrow> path \<Rightarrow> ('w, io_error, unit) io"
  h_append :: "'w \<Rightarrow> path \<Rightarrow> string \<Rightarrow> ('w, io_error, unit) io"
  h_dir :: "'w \<Rightarrow> path \<Rightarrow> dir_entry list option"
  h_statfs :: "'w \<Rightarrow> path \<Rightarrow> (u64 \<times> u64) option"
  h_env :: "string \<Rightarrow> string option"

definition CHECKPOINT_HEIGHT_STEP :: u32 where
  "CHECKPOINT_HEIGHT_STEP = 100000"

definition MIN_FREE_BYTES :: u64 where
  "MIN_FREE_BYTES = 10 * 1024 * 1024 * 1024"

definition parse_u32 :: "string \<Rightarrow> u32 option" where
  "parse_u32 s = map_option of_nat (parse_uint (2 ^ 32) s)"

definition parse_u64 :: "string \<Rightarrow> u64 option" where
  "parse_u64 s = map_option of_nat (parse_uint (2 ^ 64) s)"

definition checkpoint_step :: "'w host \<Rightarrow> u32" where
  "checkpoint_step H =
    (case h_env H ''BIDX_DISK_CHECKPOINT_STEP'' of
       None \<Rightarrow> CHECKPOINT_HEIGHT_STEP
     | Some s \<Rightarrow> (case parse_u32 s of None \<Rightarrow> CHECKPOINT_HEIGHT_STEP | Some n \<Rightarrow> n))"

text \<open>The recursion over a directory tree; an unreadable directory counts nothing.\<close>

fun dir_inner :: "dir_entry list option \<Rightarrow> u64" and dir_total :: "u64 \<Rightarrow> dir_entry list \<Rightarrow> u64" where
  "dir_inner None = 0"
| "dir_inner (Some rd) = dir_total 0 rd"
| "dir_total tot [] = tot"
| "dir_total tot (SubDir d # rd) = dir_total (saturating_add tot (dir_inner d)) rd"
| "dir_total tot (RegFile (Some n) # rd) = dir_total (saturating_add tot n) rd"
| "dir_total tot (RegFile None # rd) = dir_total tot rd"
| "dir_total tot (EntryError # rd) = dir_total tot rd"
| "dir_total tot (NoFileType # rd) = dir_total tot rd"
| "dir_total tot (Symlink # rd) = dir_total tot rd"

definition dir_size_bytes :: "'w host \<Rightarrow> 'w \<Rightarrow> path \<Rightarrow> u64" where
  "dir_size_bytes H w p = (if \<not> h_exists H w p then 0 else dir_inner (h_dir H w p))"

definition saturating_mul :: "u64 \<Rightarrow> u64 \<Rightarrow> u64" where
  "saturating_mul x y = (if unat x * unat y < 2 ^ 64 then x * y else - 1)"

text \<open>The loop walks from the path to its ancestors.\<close>

function free_space_bytes :: "'w host \<Rightarrow> 'w \<Rightarrow> path \<Rightarrow> u64 option" where
  "free_space_bytes H w p =
    (case h_statfs H w p of
       Some (bavail, bsize) \<Rightarrow> Some (saturating_mul bavail bsize)
     | None \<Rightarrow> (case parent p of Some q \<Rightarrow> free_space_bytes H w q | None \<Rightarrow> None))"
  by auto
termination
  by (relation "measure (\<lambda>(H, w, p). length p)") (auto simp: parent_def split: if_splits)

declare free_space_bytes.simps [simp del]

section \<open>The checkpoint file\<close>

record disk_checkpoint =
  cp_height :: u32
  cp_total_bytes :: u64

definition checkpoint_line ::
    "network \<Rightarrow> string \<Rightarrow> string option \<times> disk_checkpoint list \<Rightarrow> string option \<times> disk_checkpoint list" where
  "checkpoint_line net l s =
    (let line = trim l in
     if line = [] \<or> hd line = CHR ''#'' then s
     else
       let parts = split_ws line in
       if parts ! 0 = ''network'' \<and> length parts = 2 then (Some (parts ! 1), snd s)
       else if length parts = 2 then
         if fst s = Some (network_name net) then
           (case (parse_u32 (parts ! 0), parse_u64 (parts ! 1)) of
              (Some h, Some b) \<Rightarrow> (fst s, snd s @ [\<lparr>cp_height = h, cp_total_bytes = b\<rparr>])
            | _ \<Rightarrow> s)
         else s
       else s)"

definition read_checkpoints :: "'w host \<Rightarrow> 'w \<Rightarrow> path \<Rightarrow> network \<Rightarrow> disk_checkpoint list" where
  "read_checkpoints H w p net =
    (case h_read H w p of
       Inl _ \<Rightarrow> []
     | Inr text \<Rightarrow> sort_key cp_height (snd (fold (checkpoint_line net) (lines text) (None, []))))"

definition network_line :: "network \<Rightarrow> string" where
  "network_line net = ''network '' @ network_name net"

definition has_section :: "'w host \<Rightarrow> 'w \<Rightarrow> path \<Rightarrow> network \<Rightarrow> disk_checkpoint list \<Rightarrow> bool" where
  "has_section H w p net existing \<longleftrightarrow>
    existing \<noteq> [] \<or>
    (case h_read H w p of
       Inl _ \<Rightarrow> False
     | Inr s \<Rightarrow> list_ex (\<lambda>l. trim l = network_line net) (lines s))"

definition writeln :: "'w host \<Rightarrow> path \<Rightarrow> string \<Rightarrow> 'w \<Rightarrow> ('w, io_error, unit) io" where
  "writeln H p l w = h_append H w p (l @ newline)"

definition header_line1 :: string where
  "header_line1 = ''# bidx disk checkpoints v1''"

definition header_line2 :: string where
  "header_line2 = ''# one '' @ [CHR 0x27] @ ''network <name>'' @ [CHR 0x27]
     @ '' section per chain; lines are '' @ [CHR 0x27] @ ''<height> <total_bytes>''
     @ [CHR 0x27]"

definition checkpoint_text :: "disk_checkpoint \<Rightarrow> string" where
  "checkpoint_text cp = show_nat (unat (cp_height cp)) @ '' '' @ show_nat (unat (cp_total_bytes cp))"

text \<open>The lines written once the file is open: the header of a new file, the section line when
  the network has no section yet, and the checkpoint.\<close>

definition write_checkpoint ::
    "'w host \<Rightarrow> path \<Rightarrow> bool \<Rightarrow> bool \<Rightarrow> network \<Rightarrow> disk_checkpoint \<Rightarrow> 'w \<Rightarrow> ('w, io_error, unit) io" where
  "write_checkpoint H p need_header section net cp w =
    io_bind (if need_header
             then io_bind (writeln H p header_line1 w) (\<lambda>w _. writeln H p header_line2 w)
             else (w, Inr ())) (\<lambda>w _.
    io_bind (if \<not> section then writeln H p (network_line net) w else (w, Inr ())) (\<lambda>w _.
      writeln H p (checkpoint_text cp) w))"

definition append_checkpoint ::
    "'w host \<Rightarrow> 'w \<Rightarrow> path \<Rightarrow> network \<Rightarrow> disk_checkpoint \<Rightarrow> ('w, io_error, unit) io" where
  "append_checkpoint H w p net cp =
    io_bind (case parent p of Some d \<Rightarrow> h_create_dir_all H w d | None \<Rightarrow> (w, Inr ())) (\<lambda>w _.
    let existing = read_checkpoints H w p net in
    if list_ex (\<lambda>c. cp_height c = cp_height cp) existing then (w, Inr ())
    else
      let section = has_section H w p net existing;
          need_header = (\<not> h_exists H w p)
      in io_bind (h_open_append H w p) (\<lambda>w _. write_checkpoint H p need_header section net cp w))"

section \<open>The projection\<close>

definition linreg_step ::
    "'f f64 \<Rightarrow> disk_checkpoint \<Rightarrow> 'f \<times> 'f \<times> 'f \<times> 'f \<Rightarrow> 'f \<times> 'f \<times> 'f \<times> 'f" where
  "linreg_step F p = (\<lambda>(sx, sy, sxy, sxx).
    (let x = f_of_int F (uint (cp_height p)); y = f_of_int F (uint (cp_total_bytes p)) in
     (f_add F sx x, f_add F sy y, f_add F sxy (f_mul F x y), f_add F sxx (f_mul F x x))))"

definition linreg :: "'f f64 \<Rightarrow> disk_checkpoint list \<Rightarrow> 'f \<times> 'f" where
  "linreg F pts =
    (if pts = [] then (f_zero F, f_zero F)
     else if length pts = 1 then (f_zero F, f_of_int F (uint (cp_total_bytes (pts ! 0))))
     else
       let n = f_of_int F (int (length pts)) in
       (case fold (linreg_step F) pts (f_zero F, f_zero F, f_zero F, f_zero F) of
          (sx, sy, sxy, sxx) \<Rightarrow>
            let denom = f_sub F (f_mul F n sxx) (f_mul F sx sx) in
            if f_lt F (f_abs F denom) (f_epsilon F) then (f_zero F, f_div F sy n)
            else
              let b = f_div F (f_sub F (f_mul F n sxy) (f_mul F sx sy)) denom;
                  a = f_div F (f_sub F sy (f_mul F b sx)) n
              in (a, f_max F b (f_zero F))))"

definition projected_total_bytes :: "'f f64 \<Rightarrow> disk_checkpoint list \<Rightarrow> u32 \<Rightarrow> u64" where
  "projected_total_bytes F pts target_height =
    (case linreg F pts of
       (a, b) \<Rightarrow> f_to_u64 F (f_max F (f_add F a (f_mul F b (f_of_int F (uint target_height)))) (f_zero F)))"

section \<open>Directory sizes\<close>

text \<open>The sum the walk approximates: the sizes of all readable files below readable
  directories, symbolic links left out.\<close>

fun tree_bytes :: "dir_entry \<Rightarrow> nat" where
  "tree_bytes (SubDir None) = 0"
| "tree_bytes (SubDir (Some rd)) = sum_list (map tree_bytes rd)"
| "tree_bytes (RegFile (Some n)) = unat n"
| "tree_bytes _ = 0"

lemma dir_walk_sum:
  "unat (dir_inner d) = min (tree_bytes (SubDir d)) (2 ^ 64 - 1)"
  "unat (dir_total tot rd) = min (unat tot + sum_list (map tree_bytes rd)) (2 ^ 64 - 1)"
proof (induction d and tot rd rule: dir_inner_dir_total.induct)
  case (3 tot)
  have "unat tot < 2 ^ 64" using unsigned_less [of tot] by simp
  then show ?case by simp
qed (auto simp: unat_saturating_add)

section \<open>Reading back what was appended\<close>

lemma name_no_ws: "c \<in> set (network_name net) \<Longrightarrow> \<not> is_ws c"
  by (cases net) (auto simp: is_ws_def Let_def)

lemma name_nonempty [simp]: "network_name net \<noteq> []"
  by (cases net) auto

lemma network_name_inject [simp]: "network_name a = network_name b \<longleftrightarrow> a = b"
  by (cases a; cases b) auto

lemma no_ws_line_ok: "(\<And>c. c \<in> set u \<union> set v \<Longrightarrow> \<not> is_ws c) \<Longrightarrow> v \<noteq> [] \<Longrightarrow> line_ok (u @ '' '' @ v)"
proof -
  assume ws: "\<And>c. c \<in> set u \<union> set v \<Longrightarrow> \<not> is_ws c" and "v \<noteq> []"
  have "is_ws (CHR 0x0A)" "is_ws (CHR 0x0D)" by (simp_all add: is_ws_def)
  then have "CHR 0x0A \<notin> set u" "CHR 0x0A \<notin> set v" "last v \<noteq> CHR 0x0D"
    using ws [of "CHR 0x0A"] ws [of "last v"] \<open>v \<noteq> []\<close> by auto
  then show ?thesis using \<open>v \<noteq> []\<close> by (simp add: line_ok_def strip_cr_def)
qed

lemma two_words_line:
  assumes "\<And>c. c \<in> set u \<union> set v \<Longrightarrow> \<not> is_ws c" "u \<noteq> []" "v \<noteq> []"
  shows "trim (u @ '' '' @ v) = u @ '' '' @ v" "split_ws (u @ '' '' @ v) = [u, v]"
proof -
  show "trim (u @ '' '' @ v) = u @ '' '' @ v"
    by (rule trim_id) (use assms in \<open>auto simp: hd_append\<close>)
  show "split_ws (u @ '' '' @ v) = [u, v]"
    by (rule split_two_words) (use assms in auto)
qed

lemma keyword_no_ws: "c \<in> set ''network'' \<Longrightarrow> \<not> is_ws c"
  by (auto simp: is_ws_def Let_def)

lemma section_line:
  shows "line_ok (network_line net)"
    and "checkpoint_line n (network_line net) s = (Some (network_name net), snd s)"
proof -
  have nl: "network_line net = ''network'' @ '' '' @ network_name net"
    by (simp add: network_line_def)
  have ws: "c \<in> set ''network'' \<union> set (network_name net) \<Longrightarrow> \<not> is_ws c" for c
    using name_no_ws keyword_no_ws by blast
  show "line_ok (network_line net)"
    unfolding nl by (rule no_ws_line_ok) (use ws in auto)
  have "trim (network_line net) = network_line net"
    unfolding nl by (rule two_words_line(1)) (use ws in auto)
  moreover have "split_ws (network_line net) = [''network'', network_name net]"
    unfolding nl by (rule two_words_line(2)) (use ws in auto)
  ultimately show "checkpoint_line n (network_line net) s = (Some (network_name net), snd s)"
    by (simp add: checkpoint_line_def Let_def network_line_def)
qed

lemma parse_word_show [simp]:
  "parse_u32 (show_nat (unat h)) = Some h" "parse_u64 (show_nat (unat b)) = Some b"
  for h :: u32 and b :: u64
proof -
  have "unat h < 2 ^ 32" "unat b < 2 ^ 64" using unsigned_less [of h] unsigned_less [of b] by simp_all
  then show "parse_u32 (show_nat (unat h)) = Some h" "parse_u64 (show_nat (unat b)) = Some b"
    unfolding parse_u32_def parse_u64_def parse_show [OF \<open>unat h < 2 ^ 32\<close>]
      parse_show [OF \<open>unat b < 2 ^ 64\<close>] by simp_all
qed

lemma checkpoint_text_line:
  shows "line_ok (checkpoint_text cp)"
    and "checkpoint_line net (checkpoint_text cp) s =
      (if fst s = Some (network_name net) then (fst s, snd s @ [cp]) else s)"
    and "trim (checkpoint_text cp) \<noteq> network_line n"
proof -
  let ?u = "show_nat (unat (cp_height cp))" and ?v = "show_nat (unat (cp_total_bytes cp))"
  have ws: "c \<in> set ?u \<union> set ?v \<Longrightarrow> \<not> is_ws c" for c
    using digit_not_ws show_nat_char by blast
  have hd: "is_ascii_digit (hd ?u)" by (rule show_nat_char [OF hd_in_set [OF show_nat_nonempty]])
  then have "hd ?u \<noteq> CHR ''#''" "hd ?u \<noteq> CHR ''n''" by (auto simp: is_ascii_digit_def)
  then have nw: "hd ?u \<noteq> CHR ''#''" "?u \<noteq> ''network''" by (auto dest: arg_cong [where f = hd])
  show "line_ok (checkpoint_text cp)"
    using no_ws_line_ok [of ?u ?v] ws by (simp add: checkpoint_text_def)
  have tr: "trim (checkpoint_text cp) = checkpoint_text cp"
    unfolding checkpoint_text_def by (rule two_words_line(1)) (use ws in auto)
  have sp: "split_ws (checkpoint_text cp) = [?u, ?v]"
    unfolding checkpoint_text_def by (rule two_words_line(2)) (use ws in auto)
  have hd_text: "hd (checkpoint_text cp) = hd ?u" "checkpoint_text cp \<noteq> []"
    by (simp_all add: checkpoint_text_def)
  show "checkpoint_line net (checkpoint_text cp) s =
      (if fst s = Some (network_name net) then (fst s, snd s @ [cp]) else s)"
    using nw by (simp add: checkpoint_line_def Let_def tr sp hd_text)
  show "trim (checkpoint_text cp) \<noteq> network_line n"
    using \<open>hd ?u \<noteq> CHR ''n''\<close> hd_text(1) by (auto simp: tr network_line_def)
qed

lemma comment_line:
  assumes "l = CHR ''#'' # r" "line_ok l" "\<not> is_ws (last l)"
  shows "checkpoint_line net l s = s"
proof -
  have "trim l = l" by (rule trim_id) (use assms in \<open>auto simp: is_ws_def Let_def\<close>)
  then show ?thesis using assms(1) by (simp add: checkpoint_line_def Let_def)
qed

lemma header_lines:
  "line_ok header_line1" "line_ok header_line2"
  "checkpoint_line net header_line1 s = s" "checkpoint_line net header_line2 s = s"
proof -
  show ok: "line_ok header_line1" "line_ok header_line2"
    by (simp_all add: line_ok_def strip_cr_def header_line1_def header_line2_def)
  have hash: "header_line1 = CHR ''#'' # tl header_line1" "header_line2 = CHR ''#'' # tl header_line2"
    and last: "\<not> is_ws (last header_line1)" "\<not> is_ws (last header_line2)"
    by (simp_all add: header_line1_def header_line2_def is_ws_def)
  show "checkpoint_line net header_line1 s = s" by (rule comment_line [OF hash(1) ok(1) last(1)])
  show "checkpoint_line net header_line2 s = s" by (rule comment_line [OF hash(2) ok(2) last(2)])
qed

section \<open>Appending\<close>

locale text_files =
  fixes H :: "'w host" and view :: "'w \<Rightarrow> path \<rightharpoonup> string"
  assumes read_view: "h_read H w p = Inr s \<longleftrightarrow> view w p = Some s"
    and exists_view: "h_exists H w p \<longleftrightarrow> view w p \<noteq> None"
    and mkdir_view: "h_create_dir_all H w d = (w', Inr ()) \<Longrightarrow> view w' = view w"
    and open_view: "h_open_append H w p = (w', Inr ()) \<Longrightarrow>
      view w' = (view w)(p \<mapsto> (case view w p of None \<Rightarrow> [] | Some s \<Rightarrow> s))"
    and append_view: "h_append H w p t = (w', Inr ()) \<Longrightarrow> view w p = Some s \<Longrightarrow>
      view w' = (view w)(p \<mapsto> s @ t)"
begin

definition scan :: "'w \<Rightarrow> path \<Rightarrow> network \<Rightarrow> string option \<times> disk_checkpoint list" where
  "scan w p net = (case view w p of None \<Rightarrow> (None, []) | Some s \<Rightarrow> fold (checkpoint_line net) (lines s) (None, []))"

lemma read_scan: "read_checkpoints H w p net = sort_key cp_height (snd (scan w p net))"
proof (cases "view w p")
  case None
  then have "\<exists>e. h_read H w p = Inl e" using read_view [of w p] by (cases "h_read H w p") auto
  with None show ?thesis by (auto simp: read_checkpoints_def scan_def)
next
  case (Some s)
  then have "h_read H w p = Inr s" by (simp add: read_view)
  with Some show ?thesis by (simp add: read_checkpoints_def scan_def)
qed

lemma section_view: "has_section H w p net ex \<longleftrightarrow> ex \<noteq> [] \<or>
    (case view w p of None \<Rightarrow> False | Some s \<Rightarrow> list_ex (\<lambda>l. trim l = network_line net) (lines s))"
proof (cases "view w p")
  case None
  then have "\<exists>e. h_read H w p = Inl e" using read_view [of w p] by (cases "h_read H w p") auto
  with None show ?thesis by (auto simp: has_section_def)
next
  case (Some s)
  then have "h_read H w p = Inr s" by (simp add: read_view)
  with Some show ?thesis by (simp add: has_section_def)
qed

definition well_formed :: "'w \<Rightarrow> path \<Rightarrow> bool" where
  "well_formed w p \<longleftrightarrow> (case view w p of None \<Rightarrow> True | Some s \<Rightarrow> whole_lines s)"

lemma writeln_scan:
  assumes "writeln H p l w = (w', Inr ())" "view w p = Some s" "whole_lines s" "line_ok l"
  shows "view w' = (view w)(p \<mapsto> s @ l @ newline) \<and> scan w' p net = checkpoint_line net l (scan w p net)"
proof -
  have v: "view w' = (view w)(p \<mapsto> s @ l @ newline)"
    using append_view [of w p "l @ newline" w' s] assms(1,2) by (simp add: writeln_def)
  then show ?thesis using assms by (simp add: scan_def lines_append_line)
qed

lemma open_scan:
  assumes "h_open_append H w p = (w', Inr ())" "well_formed w p"
  obtains s where "view w' = (view w)(p \<mapsto> s)" "whole_lines s" "\<forall>net. scan w' p net = scan w p net"
proof -
  let ?s = "case view w p of None \<Rightarrow> [] | Some s \<Rightarrow> s"
  have "view w' = (view w)(p \<mapsto> ?s)" by (rule open_view [OF assms(1)])
  then show thesis
    using assms(2) that [of ?s] by (auto simp: well_formed_def scan_def split: option.splits)
qed

text \<open>The lines one call adds.\<close>

definition added :: "bool \<Rightarrow> bool \<Rightarrow> network \<Rightarrow> disk_checkpoint \<Rightarrow> string list" where
  "added header new_section net cp =
    (if header then [header_line1, header_line2] else [])
    @ (if new_section then [network_line net] else []) @ [checkpoint_text cp]"

lemma writelns_scan:
  assumes "write_checkpoint H p hdr (\<not> ns) net cp w = (w', Inr ())"
    "view w p = Some s" "whole_lines s"
  shows "\<exists>s'. view w' = (view w)(p \<mapsto> s') \<and> whole_lines s'
    \<and> (\<forall>n. scan w' p n = fold (checkpoint_line n) (added hdr ns net cp) (scan w p n))"
proof -
  obtain w1 where w1: "(if hdr then io_bind (writeln H p header_line1 w) (\<lambda>w _. writeln H p header_line2 w)
      else (w, Inr ())) = (w1, Inr ())"
    and r1: "io_bind (if ns then writeln H p (network_line net) w1
      else (w1, Inr ())) (\<lambda>w _. writeln H p (checkpoint_text cp) w) = (w', Inr ())"
    using assms(1) by (auto simp: write_checkpoint_def io_bind_Inr_iff)
  obtain w2 where w2: "(if ns then writeln H p (network_line net) w1 else (w1, Inr ())) = (w2, Inr ())"
    and r2: "writeln H p (checkpoint_text cp) w2 = (w', Inr ())"
    using r1 by (auto simp: io_bind_Inr_iff)
  have "\<exists>s1. view w1 = (view w)(p \<mapsto> s1) \<and> whole_lines s1 \<and> (\<forall>n. scan w1 p n
      = fold (checkpoint_line n) (if hdr then [header_line1, header_line2] else []) (scan w p n))"
  proof (cases hdr)
    case True
    then obtain wa where a: "writeln H p header_line1 w = (wa, Inr ())" "writeln H p header_line2 wa = (w1, Inr ())"
      using w1 by (auto simp: io_bind_Inr_iff)
    note sa = writeln_scan [OF a(1) assms(2,3) header_lines(1)]
    have va: "view wa p = Some (s @ header_line1 @ newline)" using sa by simp
    note sb = writeln_scan [OF a(2) va whole_lines_app(1) header_lines(2)]
    show ?thesis using sa sb True
      by (intro exI [of _ "(s @ header_line1 @ newline) @ header_line2 @ newline"])
        (simp add: whole_lines_def newline_def)
  next
    case False
    then have "w1 = w" using w1 by simp
    then show ?thesis using False assms(2,3) by (intro exI [of _ s]) (simp add: fun_upd_idem)
  qed
  then obtain s1 where s1: "view w1 = (view w)(p \<mapsto> s1)" "whole_lines s1" "\<forall>n. scan w1 p n
      = fold (checkpoint_line n) (if hdr then [header_line1, header_line2] else []) (scan w p n)" by blast
  have v1: "view w1 p = Some s1" using s1(1) by simp
  have "\<exists>s2. view w2 = (view w)(p \<mapsto> s2) \<and> whole_lines s2 \<and> (\<forall>n. scan w2 p n
      = fold (checkpoint_line n) (if ns then [network_line net] else []) (scan w1 p n))"
    using w2 s1 writeln_scan [OF _ v1 s1(2) section_line(1), of net w2]
    by (cases ns) auto
  then obtain s2 where s2: "view w2 = (view w)(p \<mapsto> s2)" "whole_lines s2" "\<forall>n. scan w2 p n
      = fold (checkpoint_line n) (if ns then [network_line net] else []) (scan w1 p n)" by blast
  have v2: "view w2 p = Some s2" using s2(1) by simp
  note sc = writeln_scan [OF r2 v2 s2(2) checkpoint_text_line(1)]
  show ?thesis
    using sc s1(3) s2 by (intro exI [of _ "s2 @ checkpoint_text cp @ newline"]) (simp add: added_def)
qed

lemma scan_added:
  assumes "ns \<or> fst (scan w p net) = Some (network_name net)"
  shows "snd (fold (checkpoint_line net) (added hdr ns net cp) (scan w p net)) = snd (scan w p net) @ [cp]"
    and "n \<noteq> net \<Longrightarrow> fst (scan w p n) = fst (scan w p net) \<Longrightarrow>
      snd (fold (checkpoint_line n) (added hdr ns net cp) (scan w p n)) = snd (scan w p n)"
  using assms by (auto simp: added_def header_lines section_line checkpoint_text_line)

lemma fst_scan: "fst (scan w p n) = fst (scan w p net)"
proof -
  have "fst (fold (checkpoint_line n) ls s) = fst (fold (checkpoint_line net) ls s')"
    if "fst s = fst s'" for ls s s'
    using that
  proof (induction ls arbitrary: s s')
    case Nil
    then show ?case by simp
  next
    case (Cons l ls)
    have "fst (checkpoint_line n l s) = fst (checkpoint_line net l s')"
      using Cons.prems
      by (auto simp: checkpoint_line_def Let_def split: option.splits if_splits)
    with Cons.IH show ?case by simp
  qed
  then show ?thesis by (auto simp: scan_def split: option.splits)
qed

lemma append_scan:
  assumes run: "append_checkpoint H w p net cp = (w', Inr ())" and wf: "well_formed w p"
    and new: "cp_height cp \<notin> cp_height ` set (read_checkpoints H w p net)"
  shows "\<exists>hdr. \<forall>n. scan w' p n = fold (checkpoint_line n)
      (added hdr (\<not> has_section H w p net (read_checkpoints H w p net)) net cp) (scan w p n)"
    and "well_formed w' p" and "q \<noteq> p \<Longrightarrow> view w' q = view w q"
proof -
  obtain w0 where w0: "(case parent p of Some d \<Rightarrow> h_create_dir_all H w d | None \<Rightarrow> (w, Inr ())) = (w0, Inr ())"
    using run by (auto simp: append_checkpoint_def io_bind_Inr_iff)
  have v0: "view w0 = view w" using w0 mkdir_view by (auto split: option.splits)
  then have sc0: "scan w0 p n = scan w p n" for n by (simp add: scan_def)
  then have rd0: "read_checkpoints H w0 p n = read_checkpoints H w p n" for n by (simp add: read_scan)
  have hs0: "has_section H w0 p net ex = has_section H w p net ex" for ex
    by (simp add: section_view v0)
  let ?ns = "\<not> has_section H w p net (read_checkpoints H w p net)"
  let ?hdr = "\<not> h_exists H w0 p"
  have "\<not> list_ex (\<lambda>c. cp_height c = cp_height cp) (read_checkpoints H w p net)"
    using new by (metis (mono_tags, lifting) image_eqI list_ex_iff)
  then have "io_bind (h_open_append H w0 p) (\<lambda>w _. write_checkpoint H p ?hdr (\<not> ?ns) net cp w) = (w', Inr ())"
    using run by (simp add: append_checkpoint_def w0 rd0 hs0 Let_def)
  then obtain w1 where w1: "h_open_append H w0 p = (w1, Inr ())"
    and rest: "write_checkpoint H p ?hdr (\<not> ?ns) net cp w1 = (w', Inr ())"
    by (auto simp: io_bind_Inr_iff)
  have "well_formed w0 p" using wf by (simp add: well_formed_def v0)
  with w1 obtain s where s: "view w1 = (view w0)(p \<mapsto> s)" "whole_lines s"
    and "\<forall>n. scan w1 p n = scan w0 p n"
    by (rule open_scan)
  then have sc1: "scan w1 p n = scan w p n" for n by (simp add: sc0)
  have v1: "view w1 p = Some s" using s(1) by simp
  obtain s' where s': "view w' = (view w1)(p \<mapsto> s')" "whole_lines s'"
    and sc': "scan w' p n = fold (checkpoint_line n) (added ?hdr ?ns net cp) (scan w p n)" for n
    using writelns_scan [OF rest v1 s(2)] sc1 by auto
  then show "\<exists>hdr. \<forall>n. scan w' p n = fold (checkpoint_line n) (added hdr ?ns net cp) (scan w p n)"
    by blast
  show "well_formed w' p" using s' by (simp add: well_formed_def)
  show "q \<noteq> p \<Longrightarrow> view w' q = view w q" using s'(1) s(1) v0 by simp
qed

lemma append_recorded:
  assumes "append_checkpoint H w p net cp = (w', Inr ())" "well_formed w p"
    "cp_height cp \<notin> cp_height ` set (read_checkpoints H w p net)"
    and last: "fst (scan w p net) = Some (network_name net)
      \<or> \<not> has_section H w p net (read_checkpoints H w p net)"
  shows "mset (read_checkpoints H w' p net) = add_mset cp (mset (read_checkpoints H w p net))"
    and "n \<noteq> net \<Longrightarrow> read_checkpoints H w' p n = read_checkpoints H w p n"
proof -
  let ?ns = "\<not> has_section H w p net (read_checkpoints H w p net)"
  obtain hdr where sc: "\<And>n. scan w' p n = fold (checkpoint_line n) (added hdr ?ns net cp) (scan w p n)"
    using append_scan(1) [OF assms(1-3)] by blast
  have ok: "?ns \<or> fst (scan w p net) = Some (network_name net)" using last by blast
  show "mset (read_checkpoints H w' p net) = add_mset cp (mset (read_checkpoints H w p net))"
    using scan_added(1) [OF ok] by (simp add: read_scan sc)
  show "n \<noteq> net \<Longrightarrow> read_checkpoints H w' p n = read_checkpoints H w p n"
    using scan_added(2) [OF ok _ fst_scan] by (simp add: read_scan sc)
qed

lemma append_section:
  assumes "append_checkpoint H w p net cp = (w', Inr ())" "well_formed w p"
    "cp_height cp \<notin> cp_height ` set (read_checkpoints H w p net)"
    "fst (scan w p net) = Some (network_name net) \<or> \<not> has_section H w p net (read_checkpoints H w p net)"
  shows "fst (scan w' p net) = Some (network_name net)"
proof -
  obtain hdr where "scan w' p net = fold (checkpoint_line net)
      (added hdr (\<not> has_section H w p net (read_checkpoints H w p net)) net cp) (scan w p net)"
    using append_scan(1) [OF assms(1-3)] by blast
  then show ?thesis
    using assms(4) by (auto simp: added_def header_lines section_line checkpoint_text_line)
qed

lemma append_misplaced:
  assumes "append_checkpoint H w p net cp = (w', Inr ())" "well_formed w p"
    "cp_height cp \<notin> cp_height ` set (read_checkpoints H w p net)"
    and last: "fst (scan w p net) = Some (network_name other)" "other \<noteq> net"
    and sec: "has_section H w p net (read_checkpoints H w p net)"
  shows "read_checkpoints H w' p net = read_checkpoints H w p net"
    and "mset (read_checkpoints H w' p other) = add_mset cp (mset (read_checkpoints H w p other))"
proof -
  obtain hdr where sc: "\<And>n. scan w' p n = fold (checkpoint_line n) (added hdr False net cp) (scan w p n)"
    using append_scan(1) [OF assms(1-3)] sec by auto
  have "fst (scan w p other) = Some (network_name other)" using last(1) fst_scan [of w p other net] by simp
  then show "read_checkpoints H w' p net = read_checkpoints H w p net"
    and "mset (read_checkpoints H w' p other) = add_mset cp (mset (read_checkpoints H w p other))"
    using last by (auto simp: read_scan sc added_def header_lines checkpoint_text_line)
qed

end

text \<open>A host whose only files are texts.\<close>

type_synonym files = "path \<rightharpoonup> string"

definition map_host :: "files host" where
  "map_host = \<lparr>h_read = (\<lambda>w p. case w p of None \<Rightarrow> Inl ''not found'' | Some s \<Rightarrow> Inr s),
     h_exists = (\<lambda>w p. w p \<noteq> None), h_create_dir_all = (\<lambda>w d. (w, Inr ())),
     h_open_append = (\<lambda>w p. (w(p \<mapsto> case w p of None \<Rightarrow> [] | Some s \<Rightarrow> s), Inr ())),
     h_append = (\<lambda>w p t. case w p of None \<Rightarrow> (w, Inl ''not open'') | Some s \<Rightarrow> (w(p \<mapsto> s @ t), Inr ())),
     h_dir = (\<lambda>w p. None), h_statfs = (\<lambda>w p. Some (2 ^ 28, 4096)), h_env = (\<lambda>v. None)\<rparr>"

interpretation mh: text_files map_host "\<lambda>w. w"
  by unfold_locales (auto simp: map_host_def split: option.splits)

text \<open>The section the end of a checkpoint file belongs to.\<close>

definition last_section :: "string \<Rightarrow> string option" where
  "last_section text = fst (fold (checkpoint_line Mainnet) (lines text) (None, []))"

section \<open>Properties\<close>

text \<open>C37. A checkpoint with a height not yet recorded for its network, appended to a checkpoint
  file of whole lines that ends in the network's section or has no section for it, is read back
  together with the earlier checkpoints of the network, in order of height; the checkpoints of
  every other network and every other file stay as they were, and the file is again made of
  whole lines.\<close>
theorem append_checkpoint_recorded:
  assumes "text_files H view" and "append_checkpoint H w p net cp = (w', Inr ())"
    and "case view w p of None \<Rightarrow> True | Some s \<Rightarrow> whole_lines s"
    and "cp_height cp \<notin> cp_height ` set (read_checkpoints H w p net)"
    and "(case view w p of None \<Rightarrow> None | Some s \<Rightarrow> last_section s) = Some (network_name net)
      \<or> \<not> has_section H w p net (read_checkpoints H w p net)"
  shows "mset (read_checkpoints H w' p net) = add_mset cp (mset (read_checkpoints H w p net))
    \<and> sorted (map cp_height (read_checkpoints H w' p net))
    \<and> (\<forall>n. n \<noteq> net \<longrightarrow> read_checkpoints H w' p n = read_checkpoints H w p n)
    \<and> (\<forall>q. q \<noteq> p \<longrightarrow> view w' q = view w q)
    \<and> (case view w' p of None \<Rightarrow> True | Some s \<Rightarrow> whole_lines s)"
proof -
  have wf: "text_files.well_formed view w p"
    using assms(3) by (simp add: text_files.well_formed_def [OF assms(1)])
  have "fst (text_files.scan view w p Mainnet) = (case view w p of None \<Rightarrow> None | Some s \<Rightarrow> last_section s)"
    by (simp add: text_files.scan_def [OF assms(1)] last_section_def split: option.splits)
  then have last: "fst (text_files.scan view w p net) = Some (network_name net)
      \<or> \<not> has_section H w p net (read_checkpoints H w p net)"
    using assms(5) text_files.fst_scan [OF assms(1), of w p net Mainnet] by simp
  note app = text_files.append_recorded [OF assms(1,2) wf assms(4) last]
  note wf' = text_files.append_scan(2,3) [OF assms(1,2) wf assms(4)]
  have "sorted (map cp_height (read_checkpoints H w' p net))"
    by (simp add: read_checkpoints_def split: sum.splits)
  moreover have "case view w' p of None \<Rightarrow> True | Some s \<Rightarrow> whole_lines s"
    using wf'(1) by (simp add: text_files.well_formed_def [OF assms(1)])
  ultimately show ?thesis using app wf'(2) by blast
qed

definition ex_cp :: "u32 \<Rightarrow> disk_checkpoint" where
  "ex_cp h = \<lparr>cp_height = h, cp_total_bytes = 318705664\<rparr>"

lemma map_host_append:
  "\<exists>w'. append_checkpoint map_host w p net cp = (w', Inr ())"
  by (simp add: append_checkpoint_def write_checkpoint_def writeln_def map_host_def Let_def
      split: option.splits)

theorem append_checkpoint_recorded_witness:
  "\<exists>w'. append_checkpoint map_host Map.empty [''c.txt''] Signet (ex_cp 100000) = (w', Inr ())
    \<and> mset (read_checkpoints map_host w' [''c.txt''] Signet) = {# ex_cp 100000 #}"
proof -
  obtain w' where w': "append_checkpoint map_host Map.empty [''c.txt''] Signet (ex_cp 100000) = (w', Inr ())"
    using map_host_append by blast
  have rd: "read_checkpoints map_host Map.empty [''c.txt''] Signet = []"
    by (simp add: read_checkpoints_def map_host_def)
  have "\<not> has_section map_host Map.empty [''c.txt''] Signet []"
    by (simp add: has_section_def map_host_def)
  then show ?thesis
    using append_checkpoint_recorded [OF mh.text_files_axioms w'] rd w' by simp
qed

text \<open>C38. Misplaced checkpoints: when the file has a section for the network but ends in the section
  of another one, an appended checkpoint is written under that other network. The network it was
  measured for does not get it, and the other network's history gains a point that is not its
  own.\<close>
theorem checkpoint_misattributed:
  assumes "text_files H view" and "append_checkpoint H w p net cp = (w', Inr ())"
    and "view w p = Some s" and "whole_lines s"
    and "cp_height cp \<notin> cp_height ` set (read_checkpoints H w p net)"
    and "last_section s = Some (network_name other)" and "other \<noteq> net"
    and "has_section H w p net (read_checkpoints H w p net)"
  shows "read_checkpoints H w' p net = read_checkpoints H w p net
    \<and> mset (read_checkpoints H w' p other) = add_mset cp (mset (read_checkpoints H w p other))"
proof -
  have wf: "text_files.well_formed view w p"
    using assms(3,4) by (simp add: text_files.well_formed_def [OF assms(1)])
  have "fst (text_files.scan view w p Mainnet) = last_section s"
    using assms(3) by (simp add: text_files.scan_def [OF assms(1)] last_section_def)
  then have last: "fst (text_files.scan view w p net) = Some (network_name other)"
    using assms(6) text_files.fst_scan [OF assms(1), of w p net Mainnet] by simp
  show ?thesis
    using text_files.append_misplaced [OF assms(1,2) wf assms(5) last assms(7,8)] by blast
qed

definition ex_two_sections :: string where
  "ex_two_sections = network_line Mainnet @ newline @ checkpoint_text (ex_cp 100000) @ newline
     @ network_line Signet @ newline"

lemma ex_two_sections_lines:
  "lines ex_two_sections = [network_line Mainnet, checkpoint_text (ex_cp 100000), network_line Signet]"
  by (simp add: lines_def ex_two_sections_def lines_from_line [of _ "[]", simplified] lines_from_line
      section_line checkpoint_text_line)

theorem checkpoint_misattributed_witness:
  "\<exists>w'. append_checkpoint map_host [[''c.txt''] \<mapsto> ex_two_sections] [''c.txt''] Mainnet (ex_cp 200000) = (w', Inr ())
    \<and> read_checkpoints map_host w' [''c.txt''] Mainnet = [ex_cp 100000]
    \<and> mset (read_checkpoints map_host w' [''c.txt''] Signet) = {# ex_cp 200000 #}"
proof -
  let ?w = "[[''c.txt''] \<mapsto> ex_two_sections]"
  obtain w' where w': "append_checkpoint map_host ?w [''c.txt''] Mainnet (ex_cp 200000) = (w', Inr ())"
    using map_host_append by blast
  have v: "?w [''c.txt''] = Some ex_two_sections" by simp
  have wl: "whole_lines ex_two_sections"
    by (simp add: whole_lines_def ex_two_sections_def newline_def)
  have ls: "last_section ex_two_sections = Some (network_name Signet)"
    by (simp add: last_section_def ex_two_sections_lines section_line checkpoint_text_line)
  have rm: "read_checkpoints map_host ?w [''c.txt''] Mainnet = [ex_cp 100000]"
    by (simp add: read_checkpoints_def map_host_def ex_two_sections_lines section_line checkpoint_text_line)
  have rs: "read_checkpoints map_host ?w [''c.txt''] Signet = []"
    by (simp add: read_checkpoints_def map_host_def ex_two_sections_lines section_line checkpoint_text_line)
  have new: "cp_height (ex_cp 200000) \<notin> cp_height ` set (read_checkpoints map_host ?w [''c.txt''] Mainnet)"
    by (simp add: rm ex_cp_def)
  have sec: "has_section map_host ?w [''c.txt''] Mainnet (read_checkpoints map_host ?w [''c.txt''] Mainnet)"
    by (simp add: has_section_def rm)
  show ?thesis
    using checkpoint_misattributed [OF mh.text_files_axioms w' v wl new ls _ sec] w' by (simp add: rm rs)
qed

section \<open>The regression\<close>

text \<open>In exact arithmetic.\<close>

definition sum_of :: "(disk_checkpoint \<Rightarrow> real) \<Rightarrow> disk_checkpoint list \<Rightarrow> real" where
  "sum_of f pts = sum_list (map f pts)"

definition cx :: "disk_checkpoint \<Rightarrow> real" where
  "cx p = real_of_int (uint (cp_height p))"

definition cy :: "disk_checkpoint \<Rightarrow> real" where
  "cy p = real_of_int (uint (cp_total_bytes p))"

lemma cx_int: "cx p \<in> \<int>"
  unfolding cx_def by (rule Ints_of_int)

lemma cx_inject: "cx p = cx q \<longleftrightarrow> cp_height p = cp_height q"
  unfolding cx_def of_int_eq_iff by (rule word_uint_eq_iff [symmetric])

lemma cy_nonneg: "0 \<le> cy p"
  unfolding cy_def of_int_0_le_iff by (rule unsigned_greater_eq)

lemma linreg_fold_real:
  "fold (linreg_step real_f64) pts (a, b, c, d) =
    (a + sum_of cx pts, b + sum_of cy pts, c + sum_of (\<lambda>p. cx p * cy p) pts,
     d + sum_of (\<lambda>p. cx p * cx p) pts)"
  by (induction pts arbitrary: a b c d)
    (auto simp: linreg_step_def real_f64_def sum_of_def cx_def cy_def Let_def)

lemma linreg_real:
  assumes "2 \<le> length pts"
  shows "linreg real_f64 pts =
    (let n = real (length pts); sx = sum_of cx pts; sy = sum_of cy pts;
         sxy = sum_of (\<lambda>p. cx p * cy p) pts; sxx = sum_of (\<lambda>p. cx p * cx p) pts;
         denom = n * sxx - sx * sx
     in if \<bar>denom\<bar> < 1 / 2 ^ 52 then (0, sy / n)
        else ((sy - (n * sxy - sx * sy) / denom * sx) / n, max ((n * sxy - sx * sy) / denom) 0))"
proof -
  have "pts \<noteq> []" "length pts \<noteq> 1" using assms by auto
  then show ?thesis
    using linreg_fold_real [of pts 0 0 0 0]
    by (simp add: linreg_def Let_def) (simp add: real_f64_def)
qed

lemma sum_list_square_dev:
  fixes m :: real
  shows "sum_list (map (\<lambda>x. (x - m) * (x - m)) xs)
    = sum_list (map (\<lambda>x. x * x) xs) - 2 * m * sum_list xs + real (length xs) * (m * m)"
  by (induction xs) (auto simp: algebra_simps)

lemma sum_sq_pos:
  fixes m :: real
  assumes "x \<in> set xs" "x \<noteq> m"
  shows "0 < sum_list (map (\<lambda>x. (x - m) * (x - m)) xs)"
proof -
  have nn: "0 \<le> sum_list (map (\<lambda>x. (x - m) * (x - m)) ys)" for ys
    by (rule sum_list_nonneg) auto
  obtain us vs where "xs = us @ x # vs" using assms(1) by (meson split_list)
  moreover have "0 < (x - m) * (x - m)" using assms(2) by (simp add: zero_less_mult_iff) linarith
  ultimately show ?thesis using nn [of us] nn [of vs] by simp
qed

lemma denom_pos:
  fixes xs :: "real list"
  assumes "x \<in> set xs" "y \<in> set xs" "x \<noteq> y"
  shows "0 < real (length xs) * sum_list (map (\<lambda>x. x * x) xs) - sum_list xs * sum_list xs"
proof -
  define n where "n = real (length xs)"
  define m where "m = sum_list xs / n"
  have n: "0 < n" using assms(1) by (auto simp: n_def intro: length_pos_if_in_set)
  have "0 < sum_list (map (\<lambda>x. (x - m) * (x - m)) xs)"
    using assms sum_sq_pos [of x xs m] sum_sq_pos [of y xs m] by metis
  then have "0 < n * sum_list (map (\<lambda>x. (x - m) * (x - m)) xs)" using n by simp
  also have "\<dots> = n * sum_list (map (\<lambda>x. x * x) xs) - sum_list xs * sum_list xs"
    using n unfolding sum_list_square_dev n_def [symmetric] m_def
    by (simp add: field_simps)
  finally show ?thesis by (simp add: n_def)
qed

lemma sum_of_int: "sum_of cx pts \<in> \<int>" "sum_of (\<lambda>p. cx p * cx p) pts \<in> \<int>"
  by (induction pts) (auto simp: sum_of_def cx_int)

lemma sum_of_line:
  assumes "\<forall>p\<in>set pts. cy p = a + b * cx p"
  shows "sum_of cy pts = real (length pts) * a + b * sum_of cx pts"
    and "sum_of (\<lambda>p. cx p * cy p) pts = a * sum_of cx pts + b * sum_of (\<lambda>p. cx p * cx p) pts"
  using assms by (induction pts) (auto simp: sum_of_def algebra_simps)

lemma linreg_line:
  assumes line: "\<forall>p\<in>set pts. cy p = a + b * cx p" and b: "0 \<le> b"
    and pq: "p \<in> set pts" "q \<in> set pts" "cp_height p \<noteq> cp_height q"
  shows "linreg real_f64 pts = (a, b)"
proof -
  define n sx sxx where "n = real (length pts)" and "sx = sum_of cx pts"
    and "sxx = sum_of (\<lambda>p. cx p * cx p) pts"
  define denom where "denom = n * sxx - sx * sx"
  have "p \<noteq> q" using pq(3) by auto
  then have len: "2 \<le> length pts"
    using pq(1,2) by (cases pts; cases "tl pts") auto
  have "0 < denom"
    using denom_pos [of "cx p" "map cx pts" "cx q"] pq
    by (auto simp: denom_def n_def sx_def sxx_def sum_of_def comp_def cx_inject)
  moreover have "denom \<in> \<int>"
    using sum_of_int [of pts] by (simp add: denom_def n_def sx_def sxx_def)
  ultimately have d: "1 \<le> denom" by (auto elim!: Ints_cases)
  have "0 < length pts" using len by linarith
  then have n: "0 < n" by (simp add: n_def)
  have sy: "sum_of cy pts = n * a + b * sx"
    and sxy: "sum_of (\<lambda>p. cx p * cy p) pts = a * sx + b * sxx"
    using sum_of_line [OF line] by (simp_all add: n_def sx_def sxx_def)
  have num: "n * (a * sx + b * sxx) - sx * (n * a + b * sx) = b * denom"
    by (simp add: denom_def algebra_simps)
  have "linreg real_f64 pts = ((n * a + b * sx - b * sx) / n, max b 0)"
    using d unfolding linreg_real [OF len] Let_def n_def [symmetric] sx_def [symmetric]
      sxx_def [symmetric] sy sxy denom_def [symmetric] num by simp
  then show ?thesis using b n by simp
qed

lemma projected_single: "projected_total_bytes real_f64 [cp] h = real_to_u64 (cy cp * real_of_int (uint h))"
proof -
  have "0 \<le> real_of_int (uint h)" unfolding of_int_0_le_iff by (rule unsigned_greater_eq)
  then have "0 \<le> cy cp * real_of_int (uint h)" by (intro mult_nonneg_nonneg cy_nonneg)
  then show ?thesis by (simp add: projected_total_bytes_def real_f64_def linreg_def max_def cy_def)
qed

text \<open>Projection: when the recorded checkpoints lie on a line with a non-negative slope and
  at least two of them have different heights, the regression recovers that line (in exact
  arithmetic) and the projected size is its value at the target height, at least 0.\<close>
theorem projection_follows_line:
  assumes "\<forall>p\<in>set pts. cy p = a + b * cx p" and "0 \<le> b"
    and "p \<in> set pts" and "q \<in> set pts" and "cp_height p \<noteq> cp_height q"
  shows "linreg real_f64 pts = (a, b)
    \<and> projected_total_bytes real_f64 pts h = real_to_u64 (max 0 (a + b * real_of_int (uint h)))"
  using linreg_line [OF assms]
  by (simp add: projected_total_bytes_def) (simp add: real_f64_def max.commute)

theorem projection_follows_line_witness:
  "projected_total_bytes real_f64
    [\<lparr>cp_height = 100000, cp_total_bytes = 1500000\<rparr>, \<lparr>cp_height = 200000, cp_total_bytes = 2500000\<rparr>,
     \<lparr>cp_height = 300000, cp_total_bytes = 3500000\<rparr>] 400000 = 4500000"
proof -
  let ?p = "\<lparr>cp_height = 100000, cp_total_bytes = 1500000\<rparr>"
  let ?q = "\<lparr>cp_height = 200000, cp_total_bytes = 2500000\<rparr>"
  let ?pts = "[?p, ?q, \<lparr>cp_height = 300000, cp_total_bytes = 3500000\<rparr>]"
  have line: "\<forall>p\<in>set ?pts. cy p = 500000 + 10 * cx p" by (simp add: cx_def cy_def)
  have "projected_total_bytes real_f64 ?pts 400000 = real_to_u64 (max 0 (500000 + 10 * real_of_int (uint (400000 :: u32))))"
    using projection_follows_line [OF line, of ?p ?q] by simp
  then show ?thesis by (simp add: real_to_u64_def)
qed

end
