(* ===== verification/Parser_Tx.thy ===== *)
theory Parser_Tx
  imports Core_Cursor Core_Types Core_Script
begin

text \<open>
  \<open>bidx-parser/src/tx.rs\<close>: parsing a block payload into rows. \<open>parse_tx\<close> reads one
  transaction at the cursor, with the BIP144 marker test, the sanity limits on counts, the
  per-input witness statistics and the txid over the stripped serialization;
  \<open>parse_block_full\<close> iterates it and assembles the block row. Row fields keep the widths of
  the source, with its truncating casts; the sums of weights and coinbase values wrap at 64 bits.

  \<open>wire_tx\<close> with \<open>ser_tx\<close> and \<open>ser_stripped\<close> is the transaction wire format (BIP144), written
  forwards: the reference the parser is proved to invert.
\<close>

datatype tx_parse_error =
    CursorError parse_error
  | TxCountMismatch u64 u64
  | BadValue u64
  | BadSegwitFlag u32

definition MAX_MONEY :: u64 where
  "MAX_MONEY = 21000000 * 100000000"

record full_block =
  fb_block_row :: block_row
  fb_txs :: "tx_row list"
  fb_inputs :: "input_row list"
  fb_outputs :: "output_row list"

text \<open>The \<open>From<ParseError>\<close> conversion behind \<open>?\<close>.\<close>

abbreviation lift_cur :: "parse_error + 'a \<Rightarrow> tx_parse_error + 'a" where
  "lift_cur \<equiv> map_err CursorError"

definition read_input_count :: "u32 \<Rightarrow> cursor \<Rightarrow> tx_parse_error + ((bool \<times> u64) \<times> cursor)" where
  "read_input_count tx_index c =
    res_bind (lift_cur (read_u8 c)) (\<lambda>(marker, c).
    if marker = 0x00 then
      res_bind (lift_cur (read_u8 c)) (\<lambda>(flag, c).
      if flag = 0 then Inl (BadSegwitFlag tx_index)
      else res_bind (lift_cur (read_count c)) (\<lambda>(n, c). Inr ((True, n), c)))
    else if marker \<le> 0xfc then Inr ((False, ucast marker), c)
    else if marker = 0xfd then
      res_bind (lift_cur (read_u16 c)) (\<lambda>(n, c). Inr ((False, ucast n), c))
    else if marker = 0xfe then
      res_bind (lift_cur (read_u32 c)) (\<lambda>(n, c). Inr ((False, ucast n), c))
    else
      res_bind (lift_cur (read_u64 c)) (\<lambda>(n, c).
      if 4000000 < n then Inl (CursorError (CountOverflow n (c_pos c))) else Inr ((False, n), c)))"

definition read_input :: "u32 \<Rightarrow> u32 \<Rightarrow> bool \<Rightarrow> nat \<Rightarrow> cursor
    \<Rightarrow> tx_parse_error + (input_row \<times> cursor)" where
  "read_input height tx_index is_single_input input_index c =
    res_bind (lift_cur (read_array 32 c)) (\<lambda>(prev_txid, c).
    res_bind (lift_cur (read_u32 c)) (\<lambda>(prev_vout, c).
    res_bind (lift_cur (read_count c)) (\<lambda>(script_len, c).
    res_bind (lift_cur (cursor_skip (unat script_len) c)) (\<lambda>(_, c).
    res_bind (lift_cur (read_u32 c)) (\<lambda>(sequence, c).
    let is_coinbase = is_single_input \<and> input_index = 0 \<and> prev_txid = zeros 32
          \<and> prev_vout = 0xFFFFFFFF
    in Inr (\<lparr>i_height = height, i_tx_index = tx_index, i_input_index = of_nat input_index,
             i_txid = zeros 32, i_prev_txid = prev_txid, i_prev_vout = prev_vout,
             i_script_sig_len = ucast script_len, i_sequence = sequence,
             i_witness_items = 0, i_witness_bytes = 0, i_is_coinbase = is_coinbase\<rparr>, c))))))"

definition read_output :: "digests \<Rightarrow> u32 \<Rightarrow> u32 \<Rightarrow> nat \<Rightarrow> cursor
    \<Rightarrow> tx_parse_error + (output_row \<times> cursor)" where
  "read_output H height tx_index output_index c =
    res_bind (lift_cur (read_u64 c)) (\<lambda>(value_sat, c).
    if MAX_MONEY < value_sat then Inl (BadValue value_sat)
    else
    res_bind (lift_cur (read_count c)) (\<lambda>(spk_len, c).
    res_bind (lift_cur (read_bytes (unat spk_len) c)) (\<lambda>(spk, c).
    let (script_type, address_hash) = classify_script H spk
    in Inr (\<lparr>o_height = height, o_tx_index = tx_index, o_output_index = of_nat output_index,
             o_txid = zeros 32, o_value_sat = value_sat, o_script_pubkey_len = ucast spk_len,
             o_script_type = script_type_code script_type, o_address_hash = address_hash\<rparr>, c))))"

text \<open>The loop over the witness items of one input, accumulating \<open>witness_bytes\<close>.\<close>

fun read_items :: "nat \<Rightarrow> u32 \<Rightarrow> cursor \<Rightarrow> tx_parse_error + (u32 \<times> cursor)" where
  "read_items 0 acc c = Inr (acc, c)"
| "read_items (Suc n) acc c =
    res_bind (lift_cur (read_count c)) (\<lambda>(item_len, c).
    res_bind (lift_cur (cursor_skip (unat item_len) c)) (\<lambda>(_, c).
    read_items n (acc + ucast item_len) c))"

fun read_witnesses :: "input_row list \<Rightarrow> cursor \<Rightarrow> tx_parse_error + (input_row list \<times> cursor)" where
  "read_witnesses [] c = Inr ([], c)"
| "read_witnesses (inp # inps) c =
    res_bind (lift_cur (read_count c)) (\<lambda>(item_count, c).
    res_bind (read_items (unat item_count) (i_witness_bytes inp) c) (\<lambda>(wb, c).
    res_bind (read_witnesses inps c) (\<lambda>(inps', c).
    Inr (inp\<lparr>i_witness_items := ucast item_count, i_witness_bytes := wb\<rparr> # inps', c))))"

definition compute_txid :: "digests \<Rightarrow> bool \<Rightarrow> bytes \<Rightarrow> nat \<Rightarrow> nat \<Rightarrow> nat \<Rightarrow> hash32" where
  "compute_txid H has_witness block abs_start stripped_prefix_end abs_end =
    (if has_witness then
       let prefix = subslice abs_start stripped_prefix_end block;
           lock = subslice (abs_end - 4) abs_end block;
           first = sha256 H (take 4 prefix @ drop 6 prefix @ lock)
       in Hash32_from_bytes (sha256 H first)
     else dsha256 H (subslice abs_start abs_end block))"

text \<open>The rows built once the whole transaction has been read.\<close>

definition finish_tx :: "digests \<Rightarrow> bytes \<Rightarrow> u32 \<Rightarrow> u32 \<Rightarrow> nat \<Rightarrow> nat \<Rightarrow> nat \<Rightarrow> i32 \<Rightarrow> u32 \<Rightarrow> bool
    \<Rightarrow> u64 \<Rightarrow> u64 \<Rightarrow> input_row list \<Rightarrow> output_row list \<Rightarrow> tx_row \<times> input_row list \<times> output_row list" where
  "finish_tx H block height tx_index abs_start stripped_prefix_end abs_end version locktime
     has_witness input_count output_count inputs outputs =
    (let txid = compute_txid H has_witness block abs_start stripped_prefix_end abs_end;
         txid_bytes = as_bytes txid;
         inputs = map (\<lambda>inp. inp\<lparr>i_txid := txid_bytes\<rparr>) inputs;
         outputs = map (\<lambda>out. out\<lparr>o_txid := txid_bytes\<rparr>) outputs;
         total_len = of_nat (abs_end - abs_start) :: u64;
         stripped_len = (if has_witness then of_nat (stripped_prefix_end - abs_start - 2 + 4)
                         else total_len);
         weight = stripped_len * 3 + total_len
     in (\<lparr>t_height = height, t_tx_index = tx_index, t_txid = txid_bytes, t_version = version,
          t_locktime = locktime, t_size = ucast total_len, t_weight = ucast weight, t_fee = 0,
          t_input_count = ucast input_count, t_output_count = ucast output_count,
          t_has_witness = has_witness\<rparr>, inputs, outputs))"

definition parse_tx :: "digests \<Rightarrow> bytes \<Rightarrow> u32 \<Rightarrow> u32 \<Rightarrow> cursor
    \<Rightarrow> tx_parse_error + ((tx_row \<times> input_row list \<times> output_row list) \<times> cursor)" where
  "parse_tx H block height tx_index c =
    (let abs_start = c_pos c in
    res_bind (lift_cur (read_i32 c)) (\<lambda>(version, c).
    res_bind (read_input_count tx_index c) (\<lambda>((has_witness, input_count), c).
    res_bind (read_loop (read_input height tx_index (input_count = 1)) 0
               (unat (ucast input_count :: u32)) c) (\<lambda>(inputs, c).
    res_bind (lift_cur (read_count c)) (\<lambda>(output_count, c).
    res_bind (read_loop (read_output H height tx_index) 0 (unat (ucast output_count :: u32)) c)
      (\<lambda>(outputs, c).
    let stripped_prefix_end = c_pos c in
    res_bind (if has_witness then read_witnesses inputs c else Inr (inputs, c)) (\<lambda>(inputs, c).
    res_bind (lift_cur (read_u32 c)) (\<lambda>(locktime, c).
    Inr (finish_tx H block height tx_index abs_start stripped_prefix_end (c_pos c) version locktime
           has_witness input_count output_count inputs outputs, c)))))))))"

text \<open>One iteration of the transaction loop of \<open>parse_block_full\<close>.\<close>

record block_locals =
  bl_txs :: "tx_row list"
  bl_inputs :: "input_row list"
  bl_outputs :: "output_row list"
  bl_coinbase_value :: u64
  bl_weight_sum :: u64

fun parse_txs :: "digests \<Rightarrow> bytes \<Rightarrow> u32 \<Rightarrow> nat \<Rightarrow> nat \<Rightarrow> block_locals \<Rightarrow> cursor
    \<Rightarrow> tx_parse_error + (block_locals \<times> cursor)" where
  "parse_txs H payload height i 0 s c = Inr (s, c)"
| "parse_txs H payload height i (Suc n) s c =
    res_bind (parse_tx H payload height (of_nat i) c) (\<lambda>((tx, tx_inputs, tx_outputs), c).
    parse_txs H payload height (Suc i) n
      \<lparr>bl_txs = bl_txs s @ [tx], bl_inputs = bl_inputs s @ tx_inputs,
       bl_outputs = bl_outputs s @ tx_outputs,
       bl_coinbase_value =
         (if i = 0 then sum_list (map o_value_sat tx_outputs) else bl_coinbase_value s),
       bl_weight_sum = bl_weight_sum s + ucast (t_weight tx)\<rparr> c)"

definition parse_block_full :: "digests \<Rightarrow> bytes \<Rightarrow> u32 \<Rightarrow> hash32 \<Rightarrow> block_header
    \<Rightarrow> tx_parse_error + full_block" where
  "parse_block_full H payload height block_hash header =
    res_bind (lift_cur (cursor_skip 80 (cursor_new payload))) (\<lambda>(_, c).
    res_bind (lift_cur (read_count c)) (\<lambda>(tx_count, c).
    res_bind (parse_txs H payload height 0 (unat (ucast tx_count :: u32))
       \<lparr>bl_txs = [], bl_inputs = [], bl_outputs = [], bl_coinbase_value = 0, bl_weight_sum = 0\<rparr> c)
      (\<lambda>(s, c).
    if of_nat (length (bl_txs s)) \<noteq> tx_count
    then Inl (TxCountMismatch tx_count (of_nat (length (bl_txs s))))
    else
    let block_weight = ucast (min (bl_weight_sum s + 80 * 4) 0xFFFFFFFF) :: u32
    in Inr \<lparr>fb_block_row = \<lparr>b_height = height, b_hash = as_bytes block_hash,
               b_prev_hash = as_bytes (h_prev_hash header),
               b_merkle_root = as_bytes (h_merkle_root header), b_time = h_time header,
               b_bits = h_bits header, b_nonce = h_nonce header, b_version = h_version header,
               b_tx_count = ucast tx_count, b_size = of_nat (length payload),
               b_weight = block_weight, b_total_fee = 0,
               b_coinbase_value = bl_coinbase_value s\<rparr>,
            fb_txs = bl_txs s, fb_inputs = bl_inputs s, fb_outputs = bl_outputs s\<rparr>)))"

section \<open>The wire format\<close>

record wire_input =
  w_prev_txid :: bytes
  w_prev_vout :: u32
  w_script_sig :: bytes
  w_sequence :: u32
  w_items :: "bytes list"

record wire_output =
  w_value :: u64
  w_spk :: bytes

record wire_tx =
  w_version :: i32
  w_flag :: "u8 option"
  w_ins :: "wire_input list"
  w_outs :: "wire_output list"
  w_locktime :: u32

definition ser_input :: "wire_input \<Rightarrow> bytes" where
  "ser_input i = w_prev_txid i @ to_le (w_prev_vout i)
     @ compact_size (of_nat (length (w_script_sig i))) @ w_script_sig i @ to_le (w_sequence i)"

definition ser_output :: "wire_output \<Rightarrow> bytes" where
  "ser_output out = to_le (w_value out) @ compact_size (of_nat (length (w_spk out))) @ w_spk out"

definition ser_item :: "bytes \<Rightarrow> bytes" where
  "ser_item b = compact_size (of_nat (length b)) @ b"

definition ser_witness :: "wire_input \<Rightarrow> bytes" where
  "ser_witness i = compact_size (of_nat (length (w_items i))) @ concat (map ser_item (w_items i))"

definition ser_body :: "wire_tx \<Rightarrow> bytes" where
  "ser_body t = compact_size (of_nat (length (w_ins t))) @ concat (map ser_input (w_ins t))
     @ compact_size (of_nat (length (w_outs t))) @ concat (map ser_output (w_outs t))"

definition ser_stripped :: "wire_tx \<Rightarrow> bytes" where
  "ser_stripped t = to_le (w_version t) @ ser_body t @ to_le (w_locktime t)"

definition ser_tx :: "wire_tx \<Rightarrow> bytes" where
  "ser_tx t = to_le (w_version t)
     @ (case w_flag t of None \<Rightarrow> [] | Some f \<Rightarrow> [0, f])
     @ ser_body t
     @ (case w_flag t of None \<Rightarrow> [] | Some f \<Rightarrow> concat (map ser_witness (w_ins t)))
     @ to_le (w_locktime t)"

text \<open>The limits within which the parser accepts a transaction.\<close>

definition wire_input_ok :: "wire_input \<Rightarrow> bool" where
  "wire_input_ok i \<longleftrightarrow> length (w_prev_txid i) = 32 \<and> length (w_script_sig i) \<le> 4000000
     \<and> length (w_items i) \<le> 4000000 \<and> list_all (\<lambda>b. length b \<le> 4000000) (w_items i)"

definition wire_output_ok :: "wire_output \<Rightarrow> bool" where
  "wire_output_ok out \<longleftrightarrow> w_value out \<le> MAX_MONEY \<and> length (w_spk out) \<le> 4000000"

definition wire_tx_ok :: "wire_tx \<Rightarrow> bool" where
  "wire_tx_ok t \<longleftrightarrow> list_all wire_input_ok (w_ins t) \<and> list_all wire_output_ok (w_outs t)
     \<and> length (w_ins t) \<le> 4000000 \<and> length (w_outs t) \<le> 4000000
     \<and> (case w_flag t of None \<Rightarrow> w_ins t \<noteq> [] | Some f \<Rightarrow> f \<noteq> 0)"

text \<open>The rows a transaction stands for.\<close>

definition witness_bytes :: "wire_input \<Rightarrow> u32" where
  "witness_bytes i = of_nat (sum_list (map length (w_items i)))"

definition wire_input_row :: "u32 \<Rightarrow> u32 \<Rightarrow> bool \<Rightarrow> nat \<Rightarrow> wire_input \<Rightarrow> input_row" where
  "wire_input_row height tx_index single k i =
     \<lparr>i_height = height, i_tx_index = tx_index, i_input_index = of_nat k, i_txid = zeros 32,
      i_prev_txid = w_prev_txid i, i_prev_vout = w_prev_vout i,
      i_script_sig_len = of_nat (length (w_script_sig i)), i_sequence = w_sequence i,
      i_witness_items = 0, i_witness_bytes = 0,
      i_is_coinbase = (single \<and> k = 0 \<and> w_prev_txid i = zeros 32 \<and> w_prev_vout i = 0xFFFFFFFF)\<rparr>"

definition add_witness :: "input_row \<Rightarrow> wire_input \<Rightarrow> input_row" where
  "add_witness row i = row\<lparr>i_witness_items := of_nat (length (w_items i)),
     i_witness_bytes := i_witness_bytes row + witness_bytes i\<rparr>"

definition wire_output_row :: "digests \<Rightarrow> u32 \<Rightarrow> u32 \<Rightarrow> nat \<Rightarrow> wire_output \<Rightarrow> output_row" where
  "wire_output_row H height tx_index k out =
     \<lparr>o_height = height, o_tx_index = tx_index, o_output_index = of_nat k, o_txid = zeros 32,
      o_value_sat = w_value out, o_script_pubkey_len = of_nat (length (w_spk out)),
      o_script_type = script_type_code (fst (classify_script H (w_spk out))),
      o_address_hash = snd (classify_script H (w_spk out))\<rparr>"

definition wire_inputs :: "u32 \<Rightarrow> u32 \<Rightarrow> wire_tx \<Rightarrow> input_row list" where
  "wire_inputs height tx_index t =
    (let rows = map2 (wire_input_row height tx_index (length (w_ins t) = 1)) [0 ..< length (w_ins t)] (w_ins t)
     in if w_flag t = None then rows else map2 add_witness rows (w_ins t))"

definition wire_rows :: "digests \<Rightarrow> u32 \<Rightarrow> u32 \<Rightarrow> wire_tx
    \<Rightarrow> tx_row \<times> input_row list \<times> output_row list" where
  "wire_rows H height tx_index t =
    (let txid = dsha256 H (ser_stripped t) in
     (\<lparr>t_height = height, t_tx_index = tx_index, t_txid = txid, t_version = w_version t,
       t_locktime = w_locktime t, t_size = of_nat (length (ser_tx t)),
       t_weight = of_nat (3 * length (ser_stripped t) + length (ser_tx t)), t_fee = 0,
       t_input_count = of_nat (length (w_ins t)), t_output_count = of_nat (length (w_outs t)),
       t_has_witness = (w_flag t \<noteq> None)\<rparr>,
      map (\<lambda>inp. inp\<lparr>i_txid := txid\<rparr>) (wire_inputs height tx_index t),
      map (\<lambda>out. out\<lparr>o_txid := txid\<rparr>)
        (map2 (wire_output_row H height tx_index) [0 ..< length (w_outs t)] (w_outs t))))"

section \<open>Counts\<close>

lemma ucast_of_nat_64_32 [simp]: "(ucast (of_nat n :: u64) :: u32) = of_nat n"
  by (simp add: unsigned_of_nat word_of_nat_eq_iff)

lemma unat_small_count:
  "n \<le> 4000000 \<Longrightarrow> unat (of_nat n :: u64) = n"
  "n \<le> 4000000 \<Longrightarrow> unat (of_nat n :: u32) = n"
  by (intro unat_of_nat_less; simp)+

lemma count_le: "n \<le> 4000000 \<Longrightarrow> (of_nat n :: u64) \<le> 4000000"
  by (simp add: word_le_nat_alt unat_small_count)

lemma read_small_count [codec_simps]:
  "n \<le> 4000000 \<Longrightarrow> read_count (cur_at pre (compact_size (of_nat n) @ r))
     = Inr (of_nat n, cur_at (pre @ compact_size (of_nat n)) r)"
  using count_le [of n] by (simp add: read_count_at MAX_ITEMS_def)

lemma input_count_legacy:
  assumes "1 \<le> n" and "n \<le> 4000000"
  shows "read_input_count ti (cur_at pre (compact_size (of_nat n) @ r))
     = Inr ((False, of_nat n), cur_at (pre @ compact_size (of_nat n)) r)"
proof -
  let ?v = "of_nat n :: u64"
  have u: "unat ?v = n" using assms by (simp add: unat_small_count)
  have big: "?v \<le> 0xffffffff" using assms by (simp add: word_le_nat_alt u)
  consider (b) "?v \<le> 0xfc" | (h) "\<not> ?v \<le> 0xfc" "?v \<le> 0xffff" | (w) "\<not> ?v \<le> 0xfc" "\<not> ?v \<le> 0xffff"
    by blast
  then show ?thesis
  proof cases
    case b
    then have n: "n \<le> 0xfc" by (simp add: word_le_nat_alt u)
    have un: "unat (ucast ?v :: u8) = n"
      using n u by (subst unat_ucast_small) simp_all
    have "(ucast ?v :: u8) \<le> 0xfc" using n un by (simp add: word_le_nat_alt)
    moreover have "(ucast ?v :: u8) \<noteq> 0" using assms(1) un by (metis not_one_le_zero unat_0)
    moreover have "ucast (ucast ?v :: u8) = ?v"
      using n u by (intro ucast_ucast_small) simp
    ultimately show ?thesis
      using b by (simp add: compact_size_def read_input_count_def read_u8_at)
  next
    case h
    have "ucast (ucast ?v :: u16) = ?v"
      using h(2) by (intro ucast_ucast_small) (simp add: word_le_nat_alt u)
    with h read_u16_at [of "pre @ [0xfd]" "ucast ?v" r] show ?thesis
      by (simp add: compact_size_def read_input_count_def read_u8_at)
  next
    case w
    have "ucast (ucast ?v :: u32) = ?v"
      using big by (intro ucast_ucast_small) (simp add: word_le_nat_alt u)
    with w big read_u32_at [of "pre @ [0xfe]" "ucast ?v" r] show ?thesis
      by (simp add: compact_size_def read_input_count_def read_u8_at)
  qed
qed

section \<open>Inputs, outputs and witnesses\<close>

interpretation in_codec: indexed_codec ser_input "wire_input_row h ti single" wire_input_ok
    "read_input h ti single" for h ti single
  by unfold_locales
    (simp add: read_input_def ser_input_def wire_input_ok_def wire_input_row_def codec_simps
      unat_small_count)

interpretation out_codec: indexed_codec ser_output "wire_output_row H h ti" wire_output_ok
    "read_output H h ti" for H h ti
  by unfold_locales
    (simp add: read_output_def ser_output_def wire_output_ok_def wire_output_row_def codec_simps
      unat_small_count case_prod_unfold not_less Let_def)

lemma read_items_ser:
  "list_all (\<lambda>b. length b \<le> 4000000) items \<Longrightarrow>
     read_items (length items) acc (cur_at pre (concat (map ser_item items) @ r))
     = Inr (acc + of_nat (sum_list (map length items)), cur_at (pre @ concat (map ser_item items)) r)"
proof (induction items arbitrary: acc pre)
  case Nil
  then show ?case by simp
next
  case (Cons b items)
  then show ?case
    by (simp add: ser_item_def codec_simps unat_small_count add.assoc)
qed

lemma read_witnesses_ser:
  "length rows = length ws \<Longrightarrow> list_all wire_input_ok ws \<Longrightarrow>
     read_witnesses rows (cur_at pre (concat (map ser_witness ws) @ r))
     = Inr (map2 add_witness rows ws, cur_at (pre @ concat (map ser_witness ws)) r)"
proof (induction rows ws arbitrary: pre rule: list_induct2)
  case Nil
  then show ?case by simp
next
  case (Cons row rows w ws)
  then show ?case
    by (simp add: ser_witness_def codec_simps unat_small_count wire_input_ok_def read_items_ser
        add_witness_def witness_bytes_def)
qed

section \<open>Transactions\<close>

lemma ucast_word_sum: "(ucast (of_nat a * 3 + of_nat b :: u64) :: u32) = of_nat (3 * a + b)"
proof -
  have "(of_nat a * 3 + of_nat b :: u64) = of_nat (3 * a + b)" by simp
  then show ?thesis by (simp only: ucast_of_nat_64_32)
qed

lemma finish_legacy:
  assumes "w_flag t = None"
  shows "finish_tx H (pre @ ser_tx t @ r) h ti (length pre) e (length (pre @ ser_tx t)) (w_version t)
      (w_locktime t) False (of_nat (length (w_ins t))) (of_nat (length (w_outs t)))
      (wire_inputs h ti t) (map2 (wire_output_row H h ti) [0 ..< length (w_outs t)] (w_outs t))
    = wire_rows H h ti t"
proof -
  have "ser_stripped t = ser_tx t" using assms by (simp add: ser_stripped_def ser_tx_def)
  moreover have "(ucast (4 * of_nat n :: u64) :: u32) = 4 * of_nat n" for n
    using ucast_of_nat_64_32 [of "4 * n"] by simp
  ultimately show ?thesis
    using assms by (simp add: finish_tx_def wire_rows_def compute_txid_def subslice_at Let_def as_bytes_def)
qed

lemma finish_segwit:
  assumes "w_flag t = Some f" and "e = length (pre @ to_le (w_version t) @ [0, f] @ ser_body t)"
  shows "finish_tx H (pre @ ser_tx t @ r) h ti (length pre) e (length (pre @ ser_tx t)) (w_version t)
      (w_locktime t) True (of_nat (length (w_ins t))) (of_nat (length (w_outs t)))
      (wire_inputs h ti t) (map2 (wire_output_row H h ti) [0 ..< length (w_outs t)] (w_outs t))
    = wire_rows H h ti t"
proof -
  let ?v = "to_le (w_version t)" and ?l = "to_le (w_locktime t)"
    and ?w = "concat (map ser_witness (w_ins t))"
  have ser: "ser_tx t = (?v @ [0, f] @ ser_body t) @ ?w @ ?l"
    using assms(1) by (simp add: ser_tx_def)
  have "subslice (length pre) e (pre @ ser_tx t @ r) = ?v @ [0, f] @ ser_body t"
    using assms(2) unfolding ser by (simp add: subslice_def)
  moreover have "subslice (length (pre @ ser_tx t) - 4) (length (pre @ ser_tx t)) (pre @ ser_tx t @ r) = ?l"
    unfolding ser by (simp add: subslice_def)
  ultimately have "compute_txid H True (pre @ ser_tx t @ r) (length pre) e (length (pre @ ser_tx t))
      = dsha256 H (ser_stripped t)"
    by (simp add: compute_txid_def Let_def Hash32_from_bytes_def dsha256_def ser_stripped_def)
  moreover have "e - length pre - 2 + 4 = length (ser_stripped t)"
    using assms(2) by (simp add: ser_stripped_def)
  ultimately show ?thesis
    using assms(1) unfolding finish_tx_def wire_rows_def Let_def
    by (simp add: as_bytes_def ucast_word_sum)
qed

lemma parse_tx_ser:
  assumes "wire_tx_ok t"
  shows "parse_tx H (pre @ ser_tx t @ r) h ti (cur_at pre (ser_tx t @ r))
     = Inr (wire_rows H h ti t, cur_at (pre @ ser_tx t) r)"
proof -
  let ?ni = "length (w_ins t)" and ?no = "length (w_outs t)"
  have ok: "list_all wire_input_ok (w_ins t)" "list_all wire_output_ok (w_outs t)"
    "?ni \<le> 4000000" "?no \<le> 4000000"
    using assms by (simp_all add: wire_tx_ok_def)
  have single: "((of_nat ?ni :: u64) = 1) \<longleftrightarrow> ?ni = 1"
    using unat_small_count(1) [OF ok(3)] by (metis of_nat_1 unat_1)
  note loops = in_codec.read_loop_enc [OF ok(1), where i = 0, simplified]
    out_codec.read_loop_enc [OF ok(2), where i = 0, simplified]
  show ?thesis
  proof (cases "w_flag t")
    case None
    then have n1: "1 \<le> ?ni" using assms by (auto simp: wire_tx_ok_def Suc_le_eq)
    have "parse_tx H (pre @ ser_tx t @ r) h ti (cur_at pre (ser_tx t @ r))
        = Inr (finish_tx H (pre @ ser_tx t @ r) h ti (length pre)
            (length (pre @ to_le (w_version t) @ ser_body t)) (length (pre @ ser_tx t)) (w_version t)
            (w_locktime t) False (of_nat ?ni) (of_nat ?no) (wire_inputs h ti t)
            (map2 (wire_output_row H h ti) [0 ..< ?no] (w_outs t)), cur_at (pre @ ser_tx t) r)"
      using None
      by (simp add: parse_tx_def ser_tx_def ser_body_def wire_inputs_def Let_def codec_simps loops
          input_count_legacy [OF n1 ok(3)] unat_small_count ok single)
    then show ?thesis by (simp only: finish_legacy [OF None])
  next
    case (Some f)
    then have "f \<noteq> 0" using assms by (simp add: wire_tx_ok_def)
    have "parse_tx H (pre @ ser_tx t @ r) h ti (cur_at pre (ser_tx t @ r))
        = Inr (finish_tx H (pre @ ser_tx t @ r) h ti (length pre)
            (length (pre @ to_le (w_version t) @ [0, f] @ ser_body t)) (length (pre @ ser_tx t)) (w_version t)
            (w_locktime t) True (of_nat ?ni) (of_nat ?no) (wire_inputs h ti t)
            (map2 (wire_output_row H h ti) [0 ..< ?no] (w_outs t)), cur_at (pre @ ser_tx t) r)"
      using Some \<open>f \<noteq> 0\<close>
      by (simp add: parse_tx_def ser_tx_def ser_body_def wire_inputs_def Let_def codec_simps loops
          read_input_count_def read_witnesses_ser ok unat_small_count single)
    then show ?thesis by (simp only: finish_segwit [OF Some refl])
  qed
qed

section \<open>Blocks\<close>

definition ser_block :: "block_header \<Rightarrow> wire_tx list \<Rightarrow> bytes" where
  "ser_block hdr ts = header_bytes hdr @ compact_size (of_nat (length ts)) @ concat (map ser_tx ts)"

definition tx_weight :: "wire_tx \<Rightarrow> nat" where
  "tx_weight t = 3 * length (ser_stripped t) + length (ser_tx t)"

text \<open>The rows of the transactions of a block, numbered from \<open>i\<close>.\<close>

definition block_rows :: "digests \<Rightarrow> u32 \<Rightarrow> nat \<Rightarrow> wire_tx list
    \<Rightarrow> (tx_row \<times> input_row list \<times> output_row list) list" where
  "block_rows H h i ts = map2 (\<lambda>k t. wire_rows H h (of_nat k) t) [i ..< i + length ts] ts"

lemma block_rows_Cons:
  "block_rows H h i (t # ts) = wire_rows H h (of_nat i) t # block_rows H h (Suc i) ts"
  by (simp add: block_rows_def upt_rec)

lemma parse_txs_ser:
  assumes "list_all wire_tx_ok ts" and "payload = pre @ concat (map ser_tx ts) @ r"
  shows "parse_txs H payload h i (length ts) s (cur_at pre (concat (map ser_tx ts) @ r)) =
    Inr (\<lparr>bl_txs = bl_txs s @ map fst (block_rows H h i ts),
          bl_inputs = bl_inputs s @ concat (map (fst \<circ> snd) (block_rows H h i ts)),
          bl_outputs = bl_outputs s @ concat (map (snd \<circ> snd) (block_rows H h i ts)),
          bl_coinbase_value = (if i = 0 \<and> ts \<noteq> [] then sum_list (map w_value (w_outs (hd ts)))
             else bl_coinbase_value s),
          bl_weight_sum = bl_weight_sum s + sum_list (map (\<lambda>t. ucast (of_nat (tx_weight t) :: u32)) ts)\<rparr>,
         cur_at (pre @ concat (map ser_tx ts)) r)"
  using assms
proof (induction ts arbitrary: i s pre)
  case Nil
  then show ?case by (cases s) (simp add: block_rows_def)
next
  case (Cons t ts)
  have p: "parse_tx H payload h (of_nat i) (cur_at pre (ser_tx t @ concat (map ser_tx ts) @ r))
      = Inr (wire_rows H h (of_nat i) t, cur_at (pre @ ser_tx t) (concat (map ser_tx ts) @ r))"
    using parse_tx_ser [of t H pre "concat (map ser_tx ts) @ r" h "of_nat i"] Cons.prems by simp
  obtain tx ins outs where w: "wire_rows H h (of_nat i) t = (tx, ins, outs)" by (cases "wire_rows H h (of_nat i) t")
  have wt: "t_weight tx = of_nat (tx_weight t)"
    using w by (auto simp: wire_rows_def Let_def tx_weight_def)
  have "map o_value_sat outs = map w_value (w_outs t)"
    using w by (auto simp: wire_rows_def Let_def wire_output_row_def intro!: nth_equalityI)
  then have cb: "sum_list (map o_value_sat outs) = sum_list (map w_value (w_outs t))" by simp
  have "payload = (pre @ ser_tx t) @ concat (map ser_tx ts) @ r" using Cons.prems by simp
  note ih = Cons.IH [OF _ this]
  show ?case
    using Cons.prems(1) by (simp add: p w wt cb ih block_rows_Cons add.assoc)
qed

lemma parse_block_ser:
  assumes "header_ok hdr" and "list_all wire_tx_ok ts" and "length ts \<le> 4000000"
  shows "parse_block_full H (ser_block hdr ts @ r) h bh hdr = Inr
    \<lparr>fb_block_row = \<lparr>b_height = h, b_hash = bh, b_prev_hash = h_prev_hash hdr,
        b_merkle_root = h_merkle_root hdr, b_time = h_time hdr, b_bits = h_bits hdr,
        b_nonce = h_nonce hdr, b_version = h_version hdr, b_tx_count = of_nat (length ts),
        b_size = of_nat (length (ser_block hdr ts @ r)),
        b_weight = ucast (min (sum_list (map (\<lambda>t. ucast (of_nat (tx_weight t) :: u32)) ts) + 320 :: u64) 0xFFFFFFFF),
        b_total_fee = 0,
        b_coinbase_value = (if ts = [] then 0 else sum_list (map w_value (w_outs (hd ts))))\<rparr>,
     fb_txs = map fst (block_rows H h 0 ts),
     fb_inputs = concat (map (fst \<circ> snd) (block_rows H h 0 ts)),
     fb_outputs = concat (map (snd \<circ> snd) (block_rows H h 0 ts))\<rparr>"
proof -
  let ?pay = "ser_block hdr ts @ r" and ?cs = "compact_size (of_nat (length ts))"
  have pay: "?pay = header_bytes hdr @ ?cs @ concat (map ser_tx ts) @ r" by (simp add: ser_block_def)
  have skip: "cursor_skip 80 (cursor_new ?pay)
      = Inr ((), cur_at (header_bytes hdr) (?cs @ concat (map ser_tx ts) @ r))"
    using length_header_bytes [OF assms(1)]
    by (simp add: pay cursor_new_cur_at skip_at BLOCK_HEADER_LEN_def)
  have count: "read_count (cur_at (header_bytes hdr) (?cs @ concat (map ser_tx ts) @ r))
      = Inr (of_nat (length ts), cur_at (header_bytes hdr @ ?cs) (concat (map ser_tx ts) @ r))"
    using assms(3) by (rule read_small_count)
  have n: "unat (ucast (of_nat (length ts) :: u64) :: u32) = length ts"
    using assms(3) by (simp add: unat_small_count)
  have len: "length (block_rows H h 0 ts) = length ts" by (simp add: block_rows_def)
  have "?pay = (header_bytes hdr @ ?cs) @ concat (map ser_tx ts) @ r" by (simp add: pay)
  note txs = parse_txs_ser [OF assms(2) this]
  show ?thesis
    unfolding parse_block_full_def skip map_err.simps res_bind.simps case_prod_conv count n txs
    by (simp add: len as_bytes_def Let_def)
qed

section \<open>Properties\<close>

text \<open>C21. The transaction parser inverts the wire format. For every transaction within the
  parser's limits (legacy or segwit, with any witness), standing anywhere in the block,
  \<open>parse_tx\<close> consumes exactly its bytes and returns its rows: the txid is the double SHA-256
  of the serialization without marker, flag and witnesses, the weight is three times the
  stripped size plus the total size, inputs carry their witness item and byte counts, outputs
  their script class, and the coinbase flag is set exactly on a lone null-outpoint input.\<close>

theorem parse_tx_inverts_wire_format:
  assumes "wire_tx_ok t"
  shows "parse_tx H (pre @ ser_tx t @ r) h ti (cur_at pre (ser_tx t @ r))
     = Inr (wire_rows H h ti t, cur_at (pre @ ser_tx t) r)"
  using assms by (rule parse_tx_ser)

definition ex_wire_tx :: wire_tx where
  "ex_wire_tx = \<lparr>w_version = 2, w_flag = Some 1,
     w_ins = [\<lparr>w_prev_txid = replicate 32 5, w_prev_vout = 1, w_script_sig = [], w_sequence = 0xfffffffd,
               w_items = [replicate 71 6, replicate 33 7]\<rparr>],
     w_outs = [\<lparr>w_value = 1000, w_spk = witness_script 0 (replicate 20 8)\<rparr>],
     w_locktime = 0\<rparr>"

lemma ex_wire_tx_ok: "wire_tx_ok ex_wire_tx"
proof -
  have "length (witness_script 0 (replicate 20 8)) = 22" by (simp add: witness_script_def)
  then show ?thesis
    by (simp add: wire_tx_ok_def ex_wire_tx_def wire_input_ok_def wire_output_ok_def MAX_MONEY_def)
qed

theorem parse_tx_inverts_wire_format_witness:
  "wire_tx_ok ex_wire_tx
   \<and> parse_tx pad_digests (zeros 80 @ ser_tx ex_wire_tx @ [1]) 9 0 (cur_at (zeros 80) (ser_tx ex_wire_tx @ [1]))
     = Inr (wire_rows pad_digests 9 0 ex_wire_tx, cur_at (zeros 80 @ ser_tx ex_wire_tx) [1])"
  using parse_tx_inverts_wire_format [OF ex_wire_tx_ok] ex_wire_tx_ok by blast

text \<open>C22. A well-formed block parses completely: \<open>parse_block_full\<close> returns the rows of all its
  transactions in order, numbered from 0, a block row with the header's fields, the declared
  transaction count, the payload size, the coinbase value of the first transaction and the
  summed weight plus 320 (clamped to 32 bits).\<close>

theorem parse_block_full_complete:
  assumes "header_ok hdr" and "list_all wire_tx_ok ts" and "length ts \<le> 4000000"
  shows "parse_block_full H (ser_block hdr ts @ r) h bh hdr = Inr
    \<lparr>fb_block_row = \<lparr>b_height = h, b_hash = bh, b_prev_hash = h_prev_hash hdr,
        b_merkle_root = h_merkle_root hdr, b_time = h_time hdr, b_bits = h_bits hdr,
        b_nonce = h_nonce hdr, b_version = h_version hdr, b_tx_count = of_nat (length ts),
        b_size = of_nat (length (ser_block hdr ts @ r)),
        b_weight = ucast (min (sum_list (map (\<lambda>t. ucast (of_nat (tx_weight t) :: u32)) ts) + 320 :: u64) 0xFFFFFFFF),
        b_total_fee = 0,
        b_coinbase_value = (if ts = [] then 0 else sum_list (map w_value (w_outs (hd ts))))\<rparr>,
     fb_txs = map fst (block_rows H h 0 ts),
     fb_inputs = concat (map (fst \<circ> snd) (block_rows H h 0 ts)),
     fb_outputs = concat (map (snd \<circ> snd) (block_rows H h 0 ts))\<rparr>"
  by (rule parse_block_ser [OF assms])

theorem parse_block_full_complete_witness:
  "let hdr = \<lparr>h_version = 1, h_prev_hash = zeros 32, h_merkle_root = zeros 32, h_time = 1, h_bits = 2, h_nonce = 3\<rparr>
   in \<exists>fb. parse_block_full pad_digests (ser_block hdr [ex_wire_tx]) 5 (zeros 32) hdr = Inr fb
        \<and> b_tx_count (fb_block_row fb) = 1 \<and> b_coinbase_value (fb_block_row fb) = 1000"
proof -
  let ?hdr = "\<lparr>h_version = 1, h_prev_hash = zeros 32, h_merkle_root = zeros 32, h_time = 1, h_bits = 2, h_nonce = 3\<rparr>"
  have "header_ok ?hdr" by (simp add: header_ok_def)
  from parse_block_full_complete [OF this, of "[ex_wire_tx]" pad_digests "[]" 5 "zeros 32"] ex_wire_tx_ok
  show ?thesis by (simp add: Let_def) (simp add: ex_wire_tx_def)
qed

text \<open>The sanity limit on counts is not applied to every legacy input count: a count in the
  five-byte \<open>0xfe\<close> form is accepted at its full 32-bit range, although \<open>read_count\<close> rejects the
  same bytes.\<close>

theorem input_count_limit_bypassed:
  assumes "4000000 < unat n"
  shows "read_input_count ti (cur_at pre (0xfe # to_le (n :: u32) @ r))
       = Inr ((False, ucast n), cur_at (pre @ 0xfe # to_le n) r)
     \<and> read_count (cur_at pre (0xfe # to_le n @ r)) = Inl (CountOverflow (ucast n) (length pre + 5))"
proof -
  have "unat (ucast n :: u64) = unat n"
  proof (rule unat_ucast_small)
    have "unat n < 2 ^ LENGTH(32)" by (rule unsigned_less)
    then show "unat n < 2 ^ LENGTH(64)" by simp
  qed
  then have "MAX_ITEMS < (ucast n :: u64)" using assms by (simp add: MAX_ITEMS_def word_less_nat_alt)
  then show ?thesis
    using read_u32_at [of "pre @ [0xfe]" n r]
    by (simp add: read_input_count_def read_count_def read_varint_def read_u8_at)
qed

theorem input_count_limit_bypassed_witness:
  "read_input_count 0 (cur_at [] (0xfe # to_le (0xffffffff :: u32) @ []))
     = Inr ((False, 0xffffffff), cur_at ([] @ 0xfe # to_le (0xffffffff :: u32)) [])"
  using input_count_limit_bypassed [of "0xffffffff :: u32" 0 "[]" "[]"] by simp

end
