(* ===== verification/Parser_Blk.thy ===== *)
theory Parser_Blk
  imports Core_Types Core_Text
begin

unbundle bit_operations_syntax

text \<open>
  \<open>bidx-parser/src/blkfile.rs\<close>: the blk files of Bitcoin Core. A path is the list of its
  components; the file system is the parameter \<open>fs\<close> (reading a file, mapping a file, listing a
  directory). Error texts are kept as the data they print.

  \<open>frame\<close> is the record layout, magic, length, payload: the reference for \<open>record_walk_end\<close>,
  the record iterator and \<open>block_bytes\<close>.
\<close>

datatype corrupt_reason =
    RecordOverruns nat nat
  | BadMagic u32
  | BadRecordLen nat

datatype blk_error =
    BlkIo path io_error
  | NoFiles path
  | NoRecords path
  | Corrupt u32 u64 corrupt_reason

record blk_record =
  br_location :: block_location
  br_header :: block_header
  br_hash :: hash32
  br_header_raw :: bytes

record blk_file =
  bf_file_id :: u32
  bf_path :: path
  bf_mmap :: bytes
  bf_decoded :: "bytes option"
  bf_data_end :: nat

definition read_xor_key :: "fs \<Rightarrow> path \<Rightarrow> bytes option" where
  "read_xor_key F blk_path =
    (case parent blk_path of
       None \<Rightarrow> None
     | Some dir \<Rightarrow>
       (case fs_read F (dir @ [''xor.dat'']) of
          Inl _ \<Rightarrow> None
        | Inr raw \<Rightarrow>
            if length raw \<noteq> 8 then None else if raw = zeros 8 then None else Some raw))"

text \<open>The loop over the 8-byte chunks, then the remainder with the key index at its offset.\<close>

function xor_chunks :: "u64 \<Rightarrow> bytes \<Rightarrow> bytes \<times> bytes" where
  "xor_chunks k64 buf =
    (if length buf < 8 then ([], buf)
     else let v = from_le (take 8 buf) :: u64;
              (out, rem) = xor_chunks k64 (drop 8 buf)
          in (to_le (v XOR k64) @ out, rem))"
  by pat_completeness auto
termination by (relation "measure (\<lambda>(_, buf). length buf)") auto

declare xor_chunks.simps [simp del]

definition xor_decode :: "bytes \<Rightarrow> bytes \<Rightarrow> bytes" where
  "xor_decode buf key =
    (let k64 = from_le key; (out, rem) = xor_chunks k64 buf; start = length buf - length rem
     in out @ map (\<lambda>(i, b). b XOR key ! ((start + i) mod 8)) (enumerate 0 rem))"

definition walk_word :: "bytes \<Rightarrow> nat \<Rightarrow> bytes option \<Rightarrow> u32" where
  "walk_word raw off key =
    (let b = subslice off (off + 4) raw;
         b = (case key of None \<Rightarrow> b
              | Some k \<Rightarrow> map (\<lambda>(i, byte). byte XOR k ! ((off + i) mod 8)) (enumerate 0 b))
     in from_le b)"

function walk_loop :: "bytes \<Rightarrow> bytes option \<Rightarrow> nat \<Rightarrow> nat \<Rightarrow> nat" where
  "walk_loop raw key pos fin =
    (if pos + 8 + BLOCK_HEADER_LEN \<le> length raw then
       if \<not> is_known_network_magic (walk_word raw pos key) then fin
       else let len = unat (walk_word raw (pos + 4) key) in
       if len < BLOCK_HEADER_LEN \<or> length raw - pos - 8 < len then fin
       else walk_loop raw key (pos + (8 + len)) (pos + (8 + len))
     else fin)"
  by pat_completeness auto
termination by (relation "measure (\<lambda>(raw, _, pos, _). length raw - pos)")
    (auto simp: BLOCK_HEADER_LEN_def)

declare walk_loop.simps [simp del]

definition record_walk_end :: "bytes \<Rightarrow> bytes option \<Rightarrow> nat" where
  "record_walk_end raw key =
    (let fin = walk_loop raw key 0 0
     in if fin = 0 \<and> raw \<noteq> [] \<and> raw ! 0 \<noteq> 0 then length raw else fin)"

definition blk_open :: "fs \<Rightarrow> path \<Rightarrow> u32 \<Rightarrow> blk_error + blk_file" where
  "blk_open F p file_id =
    res_bind (map_err (BlkIo p) (fs_mmap F p)) (\<lambda>mmap.
    let xor_key = read_xor_key F p;
        data_end = record_walk_end mmap xor_key;
        decoded = (case xor_key of
                     Some key \<Rightarrow> Some (take data_end (xor_decode mmap key))
                   | None \<Rightarrow> None)
    in Inr \<lparr>bf_file_id = file_id, bf_path = p, bf_mmap = mmap, bf_decoded = decoded,
            bf_data_end = data_end\<rparr>)"

definition blk_data :: "blk_file \<Rightarrow> bytes" where
  "blk_data f = (case bf_decoded f of Some v \<Rightarrow> v | None \<Rightarrow> take (bf_data_end f) (bf_mmap f))"

definition blk_len :: "blk_file \<Rightarrow> nat" where
  "blk_len f = length (blk_data f)"

definition blk_is_empty :: "blk_file \<Rightarrow> bool" where
  "blk_is_empty f = (blk_data f = [])"

definition block_bytes :: "blk_file \<Rightarrow> block_location \<Rightarrow> blk_error + bytes" where
  "block_bytes f loc =
    (let start = unat (data_offset loc);
         len = unat (l_record_len loc) - 8;
         fin = start + len;
         buf = blk_data f
     in if length buf < fin
        then Inl (Corrupt (bf_file_id f) (l_offset loc) (RecordOverruns fin (length buf)))
        else Inr (subslice start fin buf))"

text \<open>The iterator: \<open>None\<close> at the end, otherwise an error or a record with the next position.\<close>

function skip_zeros :: "bytes \<Rightarrow> nat \<Rightarrow> nat" where
  "skip_zeros data pos =
    (if pos < length data \<and> data ! pos = 0 then skip_zeros data (pos + 1) else pos)"
  by pat_completeness auto
termination by (relation "measure (\<lambda>(data, pos). length data - pos)") auto

declare skip_zeros.simps [simp del]

definition record_next :: "digests \<Rightarrow> u32 \<Rightarrow> bytes \<Rightarrow> nat \<Rightarrow> (blk_error + blk_record \<times> nat) option" where
  "record_next H file_id data pos =
    (let pos = skip_zeros data pos in
     if length data < pos + 8 then None
     else let offset = of_nat pos :: u64;
              magic = from_le (subslice pos (pos + 4) data);
              len = unat (from_le (subslice (pos + 4) (pos + 8) data) :: u32)
     in if \<not> is_known_network_magic magic then Some (Inl (Corrupt file_id offset (BadMagic magic)))
     else if len < BLOCK_HEADER_LEN \<or> length data < pos + 8 + len
     then Some (Inl (Corrupt file_id offset (BadRecordLen len)))
     else let payload = subslice (pos + 8) (pos + 8 + len) data;
              header_raw = take BLOCK_HEADER_LEN payload;
              header = header_parse header_raw;
              hash = header_hash H header_raw;
              location = \<lparr>l_file_id = file_id, l_offset = offset, l_record_len = of_nat (len + 8)\<rparr>
     in Some (Inr (\<lparr>br_location = location, br_header = header, br_hash = hash,
                    br_header_raw = header_raw\<rparr>, pos + (8 + len))))"

lemma skip_zeros_ge: "pos \<le> skip_zeros data pos"
proof (induction data pos rule: skip_zeros.induct)
  case (1 data pos)
  then show ?case by (subst skip_zeros.simps) auto
qed

lemma record_next_advances:
  "record_next H fid data pos = Some (Inr (rec, pos')) \<Longrightarrow> pos < pos' \<and> pos' \<le> length data"
  using skip_zeros_ge [of pos data]
  by (auto simp: record_next_def Let_def split: if_splits)

text \<open>A \<open>for rec in file.records()\<close> loop that stops at the first error.\<close>

function collect_records :: "digests \<Rightarrow> u32 \<Rightarrow> bytes \<Rightarrow> nat \<Rightarrow> blk_error + blk_record list" where
  "collect_records H fid data pos =
    (case record_next H fid data pos of
       None \<Rightarrow> Inr []
     | Some (Inl e) \<Rightarrow> Inl e
     | Some (Inr (rec, pos')) \<Rightarrow> res_bind (collect_records H fid data pos') (\<lambda>rs. Inr (rec # rs)))"
  by pat_completeness auto
termination by (relation "measure (\<lambda>(_, _, data, pos). length data - pos)")
    (auto dest: record_next_advances)

declare collect_records.simps [simp del]

definition records :: "digests \<Rightarrow> blk_file \<Rightarrow> blk_error + blk_record list" where
  "records H f = collect_records H (bf_file_id f) (blk_data f) 0"

section \<open>Directory listing\<close>

definition strip_prefix :: "string \<Rightarrow> string \<Rightarrow> string option" where
  "strip_prefix p s = (if take (length p) s = p then Some (drop (length p) s) else None)"

definition strip_suffix :: "string \<Rightarrow> string \<Rightarrow> string option" where
  "strip_suffix p s = map_option rev (strip_prefix (rev p) (rev s))"

definition parse_blk_name :: "string \<Rightarrow> u32 option" where
  "parse_blk_name name =
    (case strip_prefix ''blk'' name of
       None \<Rightarrow> None
     | Some r \<Rightarrow>
       (case strip_suffix ''.dat'' r of
          None \<Rightarrow> None
        | Some stem \<Rightarrow>
            if length stem \<noteq> 5 \<or> \<not> list_all is_ascii_digit stem then None
            else Some (of_nat (digits_val stem))))"

definition discover_entry :: "path \<Rightarrow> io_error + string \<Rightarrow> (u32 \<times> path) list
    \<Rightarrow> blk_error + (u32 \<times> path) list" where
  "discover_entry dir entry out =
    res_bind (map_err (BlkIo dir) entry) (\<lambda>name.
    Inr (case parse_blk_name name of Some n \<Rightarrow> out @ [(n, dir @ [name])] | None \<Rightarrow> out))"

definition discover_blk_files :: "fs \<Rightarrow> path \<Rightarrow> blk_error + (u32 \<times> path) list" where
  "discover_blk_files F dir =
    res_bind (map_err (BlkIo dir) (fs_read_dir F dir)) (\<lambda>rd.
    res_bind (res_fold (discover_entry dir) rd []) (\<lambda>out.
    let out = sort_key fst out in
    if out = [] then Inl (NoFiles dir) else Inr out))"

section \<open>XOR obfuscation\<close>

lemma le_split: "x < 256 \<Longrightarrow> take_bit 8 (x + 256 * m) = (x :: nat)" "x < 256 \<Longrightarrow> drop_bit 8 (x + 256 * m) = m"
  by (simp_all add: take_bit_eq_mod drop_bit_eq_div)

lemma le_join: "(v :: nat) = take_bit 8 v + 256 * drop_bit 8 v"
  by (simp add: take_bit_eq_mod drop_bit_eq_div)

lemma le_val_xor:
  "length a = length b \<Longrightarrow> le_val (map2 (XOR) a b) = le_val a XOR le_val b"
proof (induction a b rule: list_induct2)
  case Nil
  then show ?case by simp
next
  case (Cons x xs y ys)
  let ?v = "unat x + 256 * le_val xs" and ?w = "unat y + 256 * le_val ys"
  have "?v XOR ?w = take_bit 8 (?v XOR ?w) + 256 * drop_bit 8 (?v XOR ?w)" by (rule le_join)
  also have "\<dots> = (unat x XOR unat y) + 256 * (le_val xs XOR le_val ys)"
    by (simp only: take_bit_xor drop_bit_xor le_split unat_byte_lt)
  finally show ?case using Cons by (simp add: unsigned_xor_eq)
qed

lemma from_le_xor:
  "length a = length b \<Longrightarrow> (from_le (map2 (XOR) a b) :: 'a::len word) = from_le a XOR from_le b"
  by (simp add: from_le_def le_val_xor of_nat_xor_eq)

lemma to_le_xor:
  assumes "LENGTH('a) = 8 * length a" and "length b = length a"
  shows "to_le (from_le a XOR from_le b :: 'a::len word) = map2 (XOR) a b"
  using to_from_le [of "map2 (XOR) a b", where 'a = 'a] from_le_xor [of a b, where 'a = 'a] assms by simp

text \<open>Byte \<open>i\<close> of the stream is combined with byte \<open>i mod 8\<close> of the key.\<close>

definition xor_at :: "nat \<Rightarrow> bytes \<Rightarrow> bytes \<Rightarrow> bytes" where
  "xor_at off key b = map (\<lambda>(i, x). x XOR key ! ((off + i) mod 8)) (enumerate 0 b)"

lemma length_xor_at [simp]: "length (xor_at off key b) = length b"
  by (simp add: xor_at_def)

lemma nth_xor_at: "i < length b \<Longrightarrow> xor_at off key b ! i = b ! i XOR key ! ((off + i) mod 8)"
  by (simp add: xor_at_def nth_enumerate_eq)

lemma xor_at_append: "xor_at off key (a @ b) = xor_at off key a @ xor_at (off + length a) key b"
  by (intro nth_equalityI) (auto simp: nth_xor_at nth_append add.assoc)

lemma xor_at_cong: "off mod 8 = off' mod 8 \<Longrightarrow> xor_at off key b = xor_at off' key b"
proof (intro nth_equalityI)
  fix i
  assume m: "off mod 8 = off' mod 8" and i: "i < length (xor_at off key b)"
  from m have "(off + i) mod 8 = (off' + i) mod 8" by (metis mod_add_left_eq)
  with i show "xor_at off key b ! i = xor_at off' key b ! i" by (simp add: nth_xor_at)
qed simp

lemma xor_at_subslice:
  "e \<le> length b \<Longrightarrow> a \<le> e \<Longrightarrow> subslice a e (xor_at 0 key b) = xor_at a key (subslice a e b)"
  by (intro nth_equalityI) (simp_all add: length_subslice nth_subslice nth_xor_at)

lemma xor_chunks_spec:
  "length key = 8 \<Longrightarrow> xor_chunks (from_le key) buf =
     (xor_at 0 key (take (length buf - length buf mod 8) buf), drop (length buf - length buf mod 8) buf)"
proof (induction "from_le key :: u64" buf rule: xor_chunks.induct)
  case (1 buf)
  show ?case
  proof (cases "length buf < 8")
    case True
    then show ?thesis by (subst xor_chunks.simps) (simp add: xor_at_def)
  next
    case False
    let ?n = "length buf - length buf mod 8" and ?m = "length (drop 8 buf) - length (drop 8 buf) mod 8"
    have m: "?n = 8 + ?m"
      using False by (simp add: le_mod_geq)
    have rec: "xor_chunks (from_le key) (drop 8 buf) = (xor_at 0 key (take ?m (drop 8 buf)), drop ?m (drop 8 buf))"
      using 1 False by blast
    have "to_le (from_le (take 8 buf) XOR from_le key :: u64) = map2 (XOR) (take 8 buf) key"
      using False 1(2) by (intro to_le_xor) simp_all
    also have "\<dots> = xor_at 0 key (take 8 buf)"
      using False 1(2) by (intro nth_equalityI) (simp_all add: nth_xor_at)
    finally have head: "to_le (from_le (take 8 buf) XOR from_le key :: u64) = xor_at 0 key (take 8 buf)" .
    have "xor_at 0 key (take ?n buf) = xor_at 0 key (take 8 buf) @ xor_at 8 key (take ?m (drop 8 buf))"
      using False unfolding m take_add xor_at_append by simp
    also have "xor_at 8 key (take ?m (drop 8 buf)) = xor_at 0 key (take ?m (drop 8 buf))"
      by (rule xor_at_cong) simp
    finally show ?thesis
      using False rec head m
      by (subst xor_chunks.simps) (simp add: add.commute)
  qed
qed

lemma xor_decode_at:
  assumes "length key = 8"
  shows "xor_decode buf key = xor_at 0 key buf"
proof -
  let ?n = "length buf - length buf mod 8"
  have "xor_at 0 key buf = xor_at 0 key (take ?n buf) @ xor_at ?n key (drop ?n buf)"
    using xor_at_append [of 0 key "take ?n buf" "drop ?n buf"] by simp
  then show ?thesis
    by (simp add: xor_decode_def xor_chunks_spec [OF assms] Let_def) (simp add: xor_at_def)
qed

lemma xor_at_involution: "xor_at off key (xor_at off key b) = b"
  by (intro nth_equalityI) (simp_all add: nth_xor_at xor.assoc)

section \<open>Record framing\<close>

definition frame :: "u32 \<times> bytes \<Rightarrow> bytes" where
  "frame r = to_le (fst r) @ to_le (of_nat (length (snd r)) :: u32) @ snd r"

definition frame_ok :: "u32 \<times> bytes \<Rightarrow> bool" where
  "frame_ok r \<longleftrightarrow> is_known_network_magic (fst r) \<and> BLOCK_HEADER_LEN \<le> length (snd r)
     \<and> length (snd r) + 8 < 2 ^ 32"

text \<open>Bytes at which no complete record starts: padding, a truncated record, garbage.\<close>

definition no_record :: "bytes \<Rightarrow> bool" where
  "no_record b \<longleftrightarrow> length b < 8 + BLOCK_HEADER_LEN
     \<or> \<not> is_known_network_magic (from_le (take 4 b))
     \<or> (let len = unat (from_le (subslice 4 8 b) :: u32) in len < BLOCK_HEADER_LEN \<or> length b - 8 < len)"

lemma length_frame [simp]: "length (frame r) = 8 + length (snd r)"
  by (simp add: frame_def)

lemma frame_len: "frame_ok r \<Longrightarrow> unat (of_nat (length (snd r)) :: u32) = length (snd r)"
  by (intro unat_of_nat_less) (simp add: frame_ok_def)

lemma frame_words:
  "subslice (length pre) (length pre + 4) (pre @ frame r @ rest) = to_le (fst r)"
  "subslice (length pre + 4) (length pre + 8) (pre @ frame r @ rest) = to_le (of_nat (length (snd r)) :: u32)"
  "subslice (length pre + 8) (length pre + 8 + length (snd r)) (pre @ frame r @ rest) = snd r"
  by (simp_all add: subslice_def frame_def)

lemma walk_word_plain: "walk_word raw off None = from_le (subslice off (off + 4) raw)"
  by (simp add: walk_word_def)

lemma walk_step:
  assumes "frame_ok r"
  shows "walk_loop (pre @ frame r @ rest) None (length pre) fin =
         walk_loop (pre @ frame r @ rest) None (length (pre @ frame r)) (length (pre @ frame r))"
proof -
  let ?raw = "pre @ frame r @ rest"
  have w: "walk_word ?raw (length pre) None = fst r"
    "walk_word ?raw (length pre + 4) None = of_nat (length (snd r))"
    using frame_words [of pre r rest] by (simp_all add: walk_word_plain add.commute [of 8])
  show ?thesis
    using assms frame_len [OF assms]
    by (subst walk_loop.simps) (simp add: w frame_ok_def Let_def)
qed

lemma walk_stop:
  assumes "no_record tail"
  shows "walk_loop (pre @ tail) None (length pre) fin = fin"
proof -
  have "subslice (length pre) (length pre + 4) (pre @ tail) = take 4 tail"
    "subslice (length pre + 4) (length pre + 4 + 4) (pre @ tail) = subslice 4 8 tail"
    by (simp_all add: subslice_def)
  then show ?thesis
    using assms by (subst walk_loop.simps) (auto simp: walk_word_plain no_record_def Let_def)
qed

lemma walk_frames:
  assumes "list_all frame_ok rs" and "no_record tail"
  shows "walk_loop (pre @ concat (map frame rs) @ tail) None (length pre) fin =
    (if rs = [] then fin else length pre + length (concat (map frame rs)))"
  using assms
proof (induction rs arbitrary: pre fin)
  case Nil
  then show ?case by (simp add: walk_stop)
next
  case (Cons r rs)
  have "walk_loop (pre @ frame r @ concat (map frame rs) @ tail) None (length pre) fin
      = walk_loop ((pre @ frame r) @ concat (map frame rs) @ tail) None (length (pre @ frame r)) (length (pre @ frame r))"
    using walk_step [of r pre "concat (map frame rs) @ tail" fin] Cons.prems by simp
  also have "\<dots> = length (pre @ frame r) + length (concat (map frame rs))"
    using Cons.IH [of "pre @ frame r" "length (pre @ frame r)"] Cons.prems by auto
  finally show ?case by simp
qed

lemma walk_word_xor:
  assumes "off + 4 \<le> length raw"
  shows "walk_word (xor_at 0 key raw) off (Some key) = walk_word raw off None"
  using assms
  by (simp add: walk_word_def xor_at_subslice xor_at_involution flip: xor_at_def)

lemma walk_loop_xor: "walk_loop (xor_at 0 key raw) (Some key) pos fin = walk_loop raw None pos fin"
proof (induction raw "None :: bytes option" pos fin rule: walk_loop.induct)
  case (1 raw pos fin)
  show ?case
  proof (cases "pos + 8 + BLOCK_HEADER_LEN \<le> length raw")
    case True
    then have "walk_word (xor_at 0 key raw) pos (Some key) = walk_word raw pos None"
      "walk_word (xor_at 0 key raw) (pos + 4) (Some key) = walk_word raw (pos + 4) None"
      by (simp_all add: walk_word_xor BLOCK_HEADER_LEN_def)
    with 1 True show ?thesis
      by (subst walk_loop.simps, subst (2) walk_loop.simps) (simp add: Let_def)
  next
    case False
    then show ?thesis by (subst walk_loop.simps, subst (2) walk_loop.simps) simp
  qed
qed

lemma frame_not_Nil [simp]: "frame r \<noteq> []"
  using length_frame [of r] by (metis add_is_0 list.size(3) zero_neq_numeral)

lemma concat_frames_Nil: "concat (map frame rs) = [] \<longleftrightarrow> rs = []"
  by (cases rs) simp_all

lemma walk_end_frames:
  assumes "list_all frame_ok rs" and "no_record tail" and "rs \<noteq> []"
  shows "record_walk_end (concat (map frame rs) @ tail) None = length (concat (map frame rs))"
    and "record_walk_end (xor_at 0 key (concat (map frame rs) @ tail)) (Some key) = length (concat (map frame rs))"
proof -
  have w: "walk_loop (concat (map frame rs) @ tail) None 0 0 = length (concat (map frame rs))"
    using walk_frames [OF assms(1,2), of "[]" 0] assms(3) by simp
  have nz: "length (concat (map frame rs)) \<noteq> 0"
    using assms(3) concat_frames_Nil by (metis length_0_conv)
  show "record_walk_end (concat (map frame rs) @ tail) None = length (concat (map frame rs))"
    using w nz unfolding record_walk_end_def Let_def by presburger
  show "record_walk_end (xor_at 0 key (concat (map frame rs) @ tail)) (Some key) = length (concat (map frame rs))"
    using w nz unfolding record_walk_end_def Let_def walk_loop_xor by presburger
qed

section \<open>The records of a file\<close>

definition frame_record :: "digests \<Rightarrow> u32 \<Rightarrow> nat \<Rightarrow> u32 \<times> bytes \<Rightarrow> blk_record" where
  "frame_record H fid off r =
     \<lparr>br_location = \<lparr>l_file_id = fid, l_offset = of_nat off, l_record_len = of_nat (length (snd r) + 8)\<rparr>,
      br_header = header_parse (take BLOCK_HEADER_LEN (snd r)),
      br_hash = dsha256 H (take BLOCK_HEADER_LEN (snd r)),
      br_header_raw = take BLOCK_HEADER_LEN (snd r)\<rparr>"

fun frame_records :: "digests \<Rightarrow> u32 \<Rightarrow> nat \<Rightarrow> (u32 \<times> bytes) list \<Rightarrow> blk_record list" where
  "frame_records H fid off [] = []"
| "frame_records H fid off (r # rs) = frame_record H fid off r # frame_records H fid (off + length (frame r)) rs"

lemma known_magic_first_byte: "is_known_network_magic m \<Longrightarrow> to_le m ! 0 \<noteq> 0"
proof -
  assume "is_known_network_magic m"
  then show ?thesis
    by (auto simp: is_known_network_magic_def magic_defs to_le_u32_first)
qed

lemma record_next_frame:
  assumes "frame_ok r"
  shows "record_next H fid (pre @ frame r @ rest) (length pre) =
    Some (Inr (frame_record H fid (length pre) r, length (pre @ frame r)))"
proof -
  have "(pre @ frame r @ rest) ! length pre = to_le (fst r) ! 0"
    by (simp add: frame_def nth_append)
  then have z: "skip_zeros (pre @ frame r @ rest) (length pre) = length pre"
    using assms known_magic_first_byte
    by (subst skip_zeros.simps) (simp add: frame_ok_def)
  show ?thesis
    unfolding record_next_def z Let_def frame_words
    using assms frame_len [OF assms]
    by (simp add: frame_ok_def frame_record_def header_hash_def frame_words(3))
qed

lemma collect_frames:
  "list_all frame_ok rs \<Longrightarrow>
     collect_records H fid (pre @ concat (map frame rs)) (length pre) = Inr (frame_records H fid (length pre) rs)"
proof (induction rs arbitrary: pre)
  case Nil
  have "skip_zeros pre (length pre) = length pre" by (subst skip_zeros.simps) simp
  then show ?case by (subst collect_records.simps) (simp add: record_next_def)
next
  case (Cons r rs)
  then show ?case
    using record_next_frame [of r H fid pre "concat (map frame rs)"] Cons.IH [of "pre @ frame r"]
    by (subst collect_records.simps) simp
qed

lemma block_bytes_frame:
  assumes "frame_ok r" and "blk_data f = pre @ frame r @ rest" and "length (blk_data f) < 2 ^ 64"
  shows "block_bytes f (br_location (frame_record H fid (length pre) r)) = Inr (snd r)"
proof -
  have o: "unat (of_nat (length pre) + 8 :: u64) = length pre + 8"
    using unat_of_nat_less [of "length pre + 8", where 'a = 64] assms(2,3) by simp
  have l: "unat (of_nat (length (snd r) + 8) :: u32) = length (snd r) + 8"
    using assms(1) by (intro unat_of_nat_less) (simp add: frame_ok_def)
  show ?thesis
    using assms(2) frame_words(3) [of pre r rest]
    unfolding block_bytes_def frame_record_def data_offset_def Let_def
    by (simp add: o l del: of_nat_add)
qed

lemma block_bytes_frames:
  assumes "list_all frame_ok rs" and "blk_data f = pre @ concat (map frame rs) @ rest"
    and "length (blk_data f) < 2 ^ 64"
  shows "map (\<lambda>rec. block_bytes f (br_location rec)) (frame_records H fid (length pre) rs) = map (Inr \<circ> snd) rs"
  using assms
proof (induction rs arbitrary: pre)
  case Nil
  then show ?case by simp
next
  case (Cons r rs)
  then show ?case
    using block_bytes_frame [of r f pre "concat (map frame rs) @ rest" H fid] Cons.IH [of "pre @ frame r"]
    by simp
qed

section \<open>Properties\<close>

text \<open>How a file with the plain contents \<open>d\<close> lies on disk under the key of its directory.\<close>

definition on_disk :: "bytes option \<Rightarrow> bytes \<Rightarrow> bytes" where
  "on_disk key d = (case key of None \<Rightarrow> d | Some k \<Rightarrow> xor_at 0 k d)"

lemma read_xor_key_length: "read_xor_key F p = Some k \<Longrightarrow> length k = 8"
  by (auto simp: read_xor_key_def split: option.splits sum.splits if_splits)

lemma open_exact:
  assumes "fs_mmap F p = Inr (on_disk (read_xor_key F p) (concat (map frame rs) @ tail))"
    and "list_all frame_ok rs" and "rs \<noteq> []" and "no_record tail"
  obtains f where "blk_open F p fid = Inr f" "blk_data f = concat (map frame rs)" "bf_file_id f = fid"
proof (cases "read_xor_key F p")
  case None
  then show thesis
    using that assms(1) walk_end_frames(1) [OF assms(2,4,3)]
    by (simp add: blk_open_def on_disk_def blk_data_def Let_def)
next
  case (Some k)
  have "xor_decode (xor_at 0 k d) k = d" for d
    using read_xor_key_length [OF Some] by (simp add: xor_decode_at xor_at_involution)
  then show thesis
    using that Some assms(1) walk_end_frames(2) [OF assms(2,4,3), of k]
    by (simp add: blk_open_def on_disk_def blk_data_def Let_def)
qed

text \<open>C23. Opening and scanning a blk file is exact. For a file holding a non-empty sequence of
  well-framed records followed by anything at which no complete record starts (preallocated
  padding, a half-written record), obfuscated or not by its directory's XOR key: \<open>BlkFile::open\<close>
  keeps precisely the records' bytes, iterating yields one record per block in file order with
  its header, hash and offset, without error, and \<open>block_bytes\<close> at each yielded location returns
  that block's payload.\<close>

theorem blk_file_scan_exact:
  assumes "fs_mmap F p = Inr (on_disk (read_xor_key F p) (concat (map frame rs) @ tail))"
    and "list_all frame_ok rs" and "rs \<noteq> []" and "no_record tail"
    and "length (concat (map frame rs)) < 2 ^ 64"
  shows "\<exists>f. blk_open F p fid = Inr f
     \<and> blk_data f = concat (map frame rs)
     \<and> records H f = Inr (frame_records H fid 0 rs)
     \<and> map (\<lambda>rec. block_bytes f (br_location rec)) (frame_records H fid 0 rs) = map (Inr \<circ> snd) rs"
proof -
  obtain f where f: "blk_open F p fid = Inr f" "blk_data f = concat (map frame rs)" "bf_file_id f = fid"
    by (rule open_exact [OF assms(1-4)])
  have "records H f = Inr (frame_records H fid 0 rs)"
    using collect_frames [OF assms(2), of H fid "[]"] f by (simp add: records_def)
  moreover have "map (\<lambda>rec. block_bytes f (br_location rec)) (frame_records H fid 0 rs) = map (Inr \<circ> snd) rs"
    using block_bytes_frames [OF assms(2), of f "[]" "[]" H fid] f assms(5) by simp
  ultimately show ?thesis using f by blast
qed

definition ex_frames :: "(u32 \<times> bytes) list" where
  "ex_frames = [(BLOCK_MAGIC, replicate 81 1), (BLOCK_MAGIC, replicate 90 0)]"

definition ex_fs :: "bytes \<Rightarrow> fs" where
  "ex_fs key = \<lparr>fs_read = (\<lambda>p. if last p = ''xor.dat'' then Inr key else Inl ''not found''),
     fs_mmap = (\<lambda>p. Inr (xor_at 0 key (concat (map frame ex_frames) @ zeros 300))),
     fs_read_dir = (\<lambda>_. Inr [Inr ''blk00000.dat'', Inr ''xor.dat''])\<rparr>"

lemma ex_frames_ok: "list_all frame_ok ex_frames"
  by (simp add: ex_frames_def frame_ok_def is_known_network_magic_def BLOCK_HEADER_LEN_def)

lemma no_record_zeros: "no_record (zeros n)"
proof -
  have "le_val (replicate m 0) = 0" for m by (induction m) simp_all
  then have "from_le (take 4 (zeros n)) = (0 :: u32)" by (simp add: from_le_def zeros_def min_def)
  then show ?thesis
    by (simp add: no_record_def is_known_network_magic_def magic_defs)
qed

theorem blk_file_scan_exact_witness:
  "\<exists>f. blk_open (ex_fs (replicate 8 0xa5)) [''blocks'', ''blk00000.dat''] 0 = Inr f
     \<and> records pad_digests f = Inr (frame_records pad_digests 0 0 ex_frames)
     \<and> map (\<lambda>rec. block_bytes f (br_location rec)) (frame_records pad_digests 0 0 ex_frames)
         = map (Inr \<circ> snd) ex_frames"
proof -
  let ?F = "ex_fs (replicate 8 0xa5)" and ?p = "[''blocks'', ''blk00000.dat'']"
  have "hd (replicate 8 (0xa5 :: byte)) \<noteq> hd (zeros 8)" by (simp add: zeros_def)
  then have "replicate 8 (0xa5 :: byte) \<noteq> zeros 8" by metis
  then have k: "read_xor_key ?F ?p = Some (replicate 8 0xa5)"
    by (simp add: read_xor_key_def parent_def ex_fs_def)
  have "fs_mmap ?F ?p = Inr (on_disk (read_xor_key ?F ?p) (concat (map frame ex_frames) @ zeros 300))"
    unfolding k by (simp add: on_disk_def ex_fs_def)
  moreover have "length (concat (map frame ex_frames)) < 2 ^ 64" by (simp add: ex_frames_def)
  moreover have "ex_frames \<noteq> []" by (simp add: ex_frames_def)
  ultimately show ?thesis
    using blk_file_scan_exact [OF _ ex_frames_ok _ no_record_zeros, of ?F ?p 300 0 pad_digests] by blast
qed

text \<open>The 8-bytes-at-a-time XOR decoder is the byte-wise one: byte \<open>i\<close> of the result is byte \<open>i\<close>
  of the buffer combined with byte \<open>i mod 8\<close> of the key, for every buffer length; hence decoding
  twice gives the buffer back.\<close>

theorem xor_decode_pointwise:
  assumes "length key = 8"
  shows "length (xor_decode buf key) = length buf
     \<and> (\<forall>i < length buf. xor_decode buf key ! i = buf ! i XOR key ! (i mod 8))
     \<and> xor_decode (xor_decode buf key) key = buf"
  using assms by (simp add: xor_decode_at nth_xor_at xor_at_involution)

theorem xor_decode_pointwise_witness:
  "xor_decode (xor_decode [1, 2, 3, 4, 5, 6, 7, 8, 9, 10, 11] [9, 8, 7, 6, 5, 4, 3, 2]) [9, 8, 7, 6, 5, 4, 3, 2]
     = [1, 2, 3, 4, 5, 6, 7, 8, 9, 10, 11]"
  using xor_decode_pointwise [of "[9, 8, 7, 6, 5, 4, 3, 2]" "[1, 2, 3, 4, 5, 6, 7, 8, 9, 10, 11]"] by simp

lemma strip_prefix_Some: "strip_prefix p s = Some r \<longleftrightarrow> s = p @ r"
  by (auto simp: strip_prefix_def) (metis append_take_drop_id)

lemma strip_suffix_Some: "strip_suffix p s = Some r \<longleftrightarrow> s = r @ p"
  by (auto simp: strip_suffix_def strip_prefix_Some) (metis rev_append rev_rev_ident)+

lemma parse_blk_name_Some:
  "parse_blk_name name = Some n \<longleftrightarrow>
     (\<exists>stem. name = ''blk'' @ stem @ ''.dat'' \<and> length stem = 5 \<and> list_all is_ascii_digit stem
        \<and> n = of_nat (digits_val stem))"
proof -
  have "strip_prefix p (p @ r) = Some r" "strip_suffix p (r @ p) = Some r" for p r :: string
    by (simp_all add: strip_prefix_Some strip_suffix_Some)
  note strip = this(1) [of "''blk''", simplified] this(2)
  show ?thesis
    unfolding parse_blk_name_def
    by (auto split: option.splits if_splits simp: strip_prefix_Some strip_suffix_Some strip)
qed

lemma discover_fold:
  "res_fold (discover_entry dir) (map Inr names) out
     = Inr (out @ List.map_filter (\<lambda>n. map_option (\<lambda>i. (i, dir @ [n])) (parse_blk_name n)) names)"
  by (induction names arbitrary: out) (auto simp: discover_entry_def map_filter_simps split: option.splits)

text \<open>Discovery finds exactly the files named \<open>blk\<close>, five digits, \<open>.dat\<close>, each with its number,
  sorted by number; a directory without any is the error \<open>NoFiles\<close>.\<close>

theorem discover_blk_files_exact:
  assumes "fs_read_dir F dir = Inr (map Inr names)"
  shows "case discover_blk_files F dir of
      Inl e \<Rightarrow> e = NoFiles dir \<and> (\<forall>n \<in> set names. parse_blk_name n = None)
    | Inr out \<Rightarrow> sorted (map fst out) \<and> out \<noteq> []
        \<and> set out = {(i, dir @ [name]) |i name. name \<in> set names \<and>
            (\<exists>stem. name = ''blk'' @ stem @ ''.dat'' \<and> length stem = 5 \<and> list_all is_ascii_digit stem
               \<and> i = of_nat (digits_val stem))}"
proof -
  define out where "out = List.map_filter (\<lambda>n. map_option (\<lambda>i. (i, dir @ [n])) (parse_blk_name n)) names"
  have set: "set out = {(i, dir @ [name]) |i name. name \<in> set names \<and> parse_blk_name name = Some i}"
    by (force simp: out_def List.map_filter_def)
  have r: "discover_blk_files F dir = (if sort_key fst out = [] then Inl (NoFiles dir) else Inr (sort_key fst out))"
    by (simp add: discover_blk_files_def assms discover_fold Let_def out_def)
  show ?thesis
  proof (cases "out = []")
    case True
    then have "\<forall>n \<in> set names. parse_blk_name n = None" using set by (auto simp flip: not_Some_eq)
    with True r show ?thesis by simp
  next
    case False
    then have "sort_key fst out \<noteq> []" by (metis set_empty set_sort)
    then show ?thesis
      using r set by (simp add: parse_blk_name_Some)
  qed
qed

theorem discover_blk_files_exact_witness:
  "case discover_blk_files (ex_fs []) [''blocks''] of Inl e \<Rightarrow> False | Inr out \<Rightarrow> sorted (map fst out) \<and> out \<noteq> []"
proof -
  have "fs_read_dir (ex_fs []) [''blocks''] = Inr (map Inr [''blk00000.dat'', ''xor.dat''])"
    by (simp add: ex_fs_def)
  from discover_blk_files_exact [OF this] have "case discover_blk_files (ex_fs []) [''blocks''] of
      Inl e \<Rightarrow> parse_blk_name ''blk00000.dat'' = None
    | Inr out \<Rightarrow> sorted (map fst out) \<and> out \<noteq> []"
    by (auto split: sum.splits)
  moreover have "parse_blk_name ''blk00000.dat'' \<noteq> None" by code_simp
  ultimately show ?thesis by (auto split: sum.splits)
qed

end
