(* ===== verification/Parser_Chain.thy ===== *)
theory Parser_Chain
  imports Parser_Blk Core_Float "HOL-Library.Multiset"
begin

text \<open>
  \<open>bidx-parser/src/chain.rs\<close>: the header pass. All records of all blk files are collected into a
  map from hash to parent, location and work; cumulative work is computed for every header
  connected to a genesis block; the tip is the header with the most work and the main chain the
  walk back from it.

  Maps are association lists; the orders in which the source iterates over \<open>headers\<close> and over
  \<open>cum_work\<close> are the parameters \<open>ith\<close> and \<open>itc\<close>. Work values are the abstract \<open>f64\<close>. The two
  loops that follow parent links run on fuel, one more than the number of headers, and yield
  \<open>None\<close> when it runs out; it does not when parent links are acyclic.
\<close>

record chain_build_stats =
  cbs_total_records :: nat
  cbs_unique_blocks :: nat
  cbs_orphans :: nat
  cbs_files_scanned :: nat
  cbs_tip_height :: u32
  cbs_tip_hash :: hash32

record 'f header_entry =
  he_prev :: hash32
  he_location :: block_location
  he_work :: 'f

type_synonym 'f headers = "(hash32 \<times> 'f header_entry) list"
type_synonym 'f cum_map = "(hash32 \<times> 'f) list"

definition work_from_bits :: "'f f64 \<Rightarrow> u32 \<Rightarrow> 'f" where
  "work_from_bits F bits =
    (let exponent = int (unat (drop_bit 24 bits));
         mantissa = int (unat (bits AND 0x007fffff))
     in if mantissa = 0 \<or> exponent < 3 then f_zero F
        else let target_log2 = f_add F (f_log2 F (f_of_int F mantissa))
                   (f_mul F (f_of_int F 8) (f_sub F (f_of_int F exponent) (f_of_int F 3)))
             in f_exp2 F (f_sub F (f_of_int F 256) target_log2))"

text \<open>\<open>headers.entry(hash).or_insert(..)\<close>: the first record of a hash wins.\<close>

definition or_insert :: "'k \<Rightarrow> 'v \<Rightarrow> ('k \<times> 'v) list \<Rightarrow> ('k \<times> 'v) list" where
  "or_insert k v m = (case map_of m k of Some _ \<Rightarrow> m | None \<Rightarrow> m @ [(k, v)])"

definition add_record :: "'f f64 \<Rightarrow> blk_record \<Rightarrow> 'f headers \<times> chain_build_stats
    \<Rightarrow> 'f headers \<times> chain_build_stats" where
  "add_record F rec = (\<lambda>(headers, stats).
     (or_insert (br_hash rec)
        \<lparr>he_prev = h_prev_hash (br_header rec), he_location = br_location rec,
         he_work = work_from_bits F (h_bits (br_header rec))\<rparr> headers,
      stats\<lparr>cbs_total_records := cbs_total_records stats + 1\<rparr>))"

definition scan_file :: "'f f64 \<Rightarrow> digests \<Rightarrow> fs \<Rightarrow> u32 \<times> path \<Rightarrow> 'f headers \<times> chain_build_stats
    \<Rightarrow> blk_error + ('f headers \<times> chain_build_stats)" where
  "scan_file F H S = (\<lambda>(file_id, p) (headers, stats).
     res_bind (blk_open S p file_id) (\<lambda>bf.
     let stats = stats\<lparr>cbs_files_scanned := cbs_files_scanned stats + 1\<rparr> in
     res_bind (records H bf) (\<lambda>recs.
     Inr (fold (add_record F) recs (headers, stats)))))"

text \<open>The stack pass over the genesis candidates.\<close>

definition genesis_candidates :: "'f headers \<Rightarrow> 'f headers \<Rightarrow> hash32 list" where
  "genesis_candidates headers iterated =
     map fst (filter (\<lambda>(_, e). he_prev e = Hash32_ZERO \<or> map_of headers (he_prev e) = None) iterated)"

function stack_loop :: "'f f64 \<Rightarrow> 'f headers \<Rightarrow> (hash32 \<times> bool) list \<Rightarrow> 'f cum_map \<Rightarrow> 'f cum_map" where
  "stack_loop F headers [] cum = cum"
| "stack_loop F headers ((h, processed) # stack) cum =
    (case map_of headers h of
       None \<Rightarrow> stack_loop F headers stack cum
     | Some entry \<Rightarrow>
         if map_of cum h \<noteq> None then stack_loop F headers stack cum
         else let parent_cum = (if he_prev entry = Hash32_ZERO then Some (f_zero F)
                                else map_of cum (he_prev entry))
         in if processed then
              let base = (case parent_cum of Some b \<Rightarrow> b | None \<Rightarrow> f_zero F)
              in stack_loop F headers stack (AList.update h (f_add F base (he_work entry)) cum)
            else (case parent_cum of
                    Some _ \<Rightarrow> stack_loop F headers ((h, True) # stack) cum
                  | None \<Rightarrow> stack_loop F headers stack cum))"
  by pat_completeness auto
termination
  by (relation "measure (\<lambda>(_, _, stack, _). sum_list (map (\<lambda>(_, p). if p then 1 else 2) stack))") auto

definition candidate_pass :: "'f f64 \<Rightarrow> 'f headers \<Rightarrow> hash32 list \<Rightarrow> 'f cum_map \<Rightarrow> 'f cum_map" where
  "candidate_pass F headers cands cum = fold (\<lambda>g. stack_loop F headers [(g, False)]) cands cum"

text \<open>The memoising walk of \<open>resolve_cum\<close>; \<open>path\<close> has the last visited hash first.\<close>

fun fill_path :: "'f f64 \<Rightarrow> 'f headers \<Rightarrow> hash32 list \<Rightarrow> 'f \<Rightarrow> 'f cum_map \<Rightarrow> 'f cum_map" where
  "fill_path F headers [] acc cum = cum"
| "fill_path F headers (p # path) acc cum =
    (case map_of headers p of
       None \<Rightarrow> cum
     | Some e \<Rightarrow> let acc = f_add F acc (he_work e)
                 in fill_path F headers path acc (AList.update p acc cum))"

fun resolve_walk :: "'f f64 \<Rightarrow> 'f headers \<Rightarrow> nat \<Rightarrow> hash32 \<Rightarrow> hash32 list \<Rightarrow> 'f cum_map
    \<Rightarrow> 'f cum_map option" where
  "resolve_walk F headers 0 cur path cum = None"
| "resolve_walk F headers (Suc fuel) cur path cum =
    (case map_of cum cur of
       Some w \<Rightarrow> Some (fill_path F headers path w cum)
     | None \<Rightarrow>
       (case map_of headers cur of
          None \<Rightarrow> Some cum
        | Some e \<Rightarrow>
            if he_prev e = Hash32_ZERO
            then Some (fill_path F headers path (he_work e) (AList.update cur (he_work e) cum))
            else resolve_walk F headers fuel (he_prev e) (cur # path) cum))"

definition resolve_cum :: "'f f64 \<Rightarrow> 'f headers \<Rightarrow> hash32 \<Rightarrow> 'f cum_map \<Rightarrow> 'f cum_map option" where
  "resolve_cum F headers h cum =
    (case map_of cum h of
       Some _ \<Rightarrow> Some cum
     | None \<Rightarrow>
       (case map_of headers h of
          None \<Rightarrow> Some cum
        | Some entry \<Rightarrow>
            if he_prev entry = Hash32_ZERO
            then Some (AList.update h (f_add F (f_zero F) (he_work entry)) cum)
            else resolve_walk F headers (Suc (length headers)) h [] cum))"

fun resolve_all :: "'f f64 \<Rightarrow> 'f headers \<Rightarrow> hash32 list \<Rightarrow> 'f cum_map \<Rightarrow> 'f cum_map option" where
  "resolve_all F headers [] cum = Some cum"
| "resolve_all F headers (h # hs) cum = Option.bind (resolve_cum F headers h cum) (resolve_all F headers hs)"

definition better_tip :: "'f f64 \<Rightarrow> hash32 \<times> 'f \<Rightarrow> (hash32 \<times> 'f) option \<Rightarrow> (hash32 \<times> 'f) option" where
  "better_tip F hw tip =
    (case tip of
       Some (_, tw) \<Rightarrow> if f_ge F tw (snd hw) then tip else Some hw
     | None \<Rightarrow> Some hw)"

definition best_tip :: "'f f64 \<Rightarrow> 'f cum_map \<Rightarrow> (hash32 \<times> 'f) option" where
  "best_tip F entries = fold (better_tip F) entries None"

text \<open>The walk back from the tip, tip first. Indexing \<open>headers\<close> with an absent hash would panic in
  the source; the tip and every hash reached from it are present.\<close>

fun walk_back :: "'f headers \<Rightarrow> nat \<Rightarrow> hash32 \<Rightarrow> hash32 list option" where
  "walk_back headers 0 cur = None"
| "walk_back headers (Suc fuel) cur =
    (case map_of headers cur of
       None \<Rightarrow> None
     | Some entry \<Rightarrow>
         if he_prev entry = Hash32_ZERO then Some [cur]
         else (case map_of headers (he_prev entry) of
                 Some _ \<Rightarrow> map_option ((#) cur) (walk_back headers fuel (he_prev entry))
               | None \<Rightarrow> Some [cur]))"

definition assign_heights :: "'f headers \<Rightarrow> hash32 list \<Rightarrow> chain_index" where
  "assign_heights headers chain =
     \<lparr>by_height = map (\<lambda>h. he_location (the (map_of headers h))) chain,
      hash_to_height = fold (\<lambda>(i, h). AList.update h (of_nat i)) (enumerate 0 chain) []\<rparr>"

text \<open>Everything after the scan; the outer \<open>None\<close> stands for not returning.\<close>

definition build_from_headers :: "'f f64 \<Rightarrow> ('f headers \<Rightarrow> 'f headers) \<Rightarrow> ('f cum_map \<Rightarrow> 'f cum_map)
    \<Rightarrow> path \<Rightarrow> 'f headers \<times> chain_build_stats \<Rightarrow> (blk_error + (chain_index \<times> chain_build_stats)) option" where
  "build_from_headers F ith itc dir = (\<lambda>(headers, stats).
     let stats = stats\<lparr>cbs_unique_blocks := length headers\<rparr>;
         cum = candidate_pass F headers (genesis_candidates headers (ith headers)) []
     in Option.bind (resolve_all F headers (map fst (ith headers)) cum) (\<lambda>cum.
     case best_tip F (itc cum) of
       None \<Rightarrow> Some (Inl (NoRecords dir))
     | Some (tip_hash, _) \<Rightarrow>
         Option.bind (walk_back headers (Suc (length headers)) tip_hash) (\<lambda>back.
         let chain = rev back;
             stats = stats\<lparr>cbs_orphans := length headers - length chain,
                           cbs_tip_height := of_nat (length chain) - 1,
                           cbs_tip_hash := tip_hash\<rparr>
         in Some (Inr (assign_heights headers chain, stats)))))"

definition stats_default :: chain_build_stats where
  "stats_default = \<lparr>cbs_total_records = 0, cbs_unique_blocks = 0, cbs_orphans = 0,
     cbs_files_scanned = 0, cbs_tip_height = 0, cbs_tip_hash = Hash32_ZERO\<rparr>"

definition build_chain_index :: "'f f64 \<Rightarrow> digests \<Rightarrow> fs \<Rightarrow> ('f headers \<Rightarrow> 'f headers)
    \<Rightarrow> ('f cum_map \<Rightarrow> 'f cum_map) \<Rightarrow> path \<Rightarrow> (blk_error + (chain_index \<times> chain_build_stats)) option" where
  "build_chain_index F H S ith itc dir =
    (case res_bind (discover_blk_files S dir) (\<lambda>files.
            res_fold (scan_file F H S) files ([], stats_default)) of
       Inl e \<Rightarrow> Some (Inl e)
     | Inr scanned \<Rightarrow> build_from_headers F ith itc dir scanned)"

section \<open>Ancestry\<close>

text \<open>\<open>ancestry hs h ps\<close>: \<open>ps\<close> is the chain of headers from \<open>h\<close> back to a genesis block.\<close>

inductive ancestry :: "'f headers \<Rightarrow> hash32 \<Rightarrow> hash32 list \<Rightarrow> bool" for hs where
  genesis: "map_of hs h = Some e \<Longrightarrow> he_prev e = Hash32_ZERO \<Longrightarrow> ancestry hs h [h]"
| extend: "map_of hs h = Some e \<Longrightarrow> he_prev e \<noteq> Hash32_ZERO \<Longrightarrow> ancestry hs (he_prev e) ps
    \<Longrightarrow> ancestry hs h (h # ps)"

inductive_cases ancestry_cases: "ancestry hs h ps"

fun chain_work :: "'f f64 \<Rightarrow> 'f headers \<Rightarrow> hash32 list \<Rightarrow> 'f" where
  "chain_work F hs [] = f_zero F"
| "chain_work F hs [h] = he_work (the (map_of hs h))"
| "chain_work F hs (h # ps) = f_add F (chain_work F hs ps) (he_work (the (map_of hs h)))"

lemma ancestry_not_Nil: "ancestry hs h ps \<Longrightarrow> \<exists>qs. ps = h # qs"
  by (erule ancestry.cases) auto

lemma ancestry_unique: "ancestry hs h ps \<Longrightarrow> ancestry hs h qs \<Longrightarrow> ps = qs"
proof (induction arbitrary: qs rule: ancestry.induct)
  case (genesis h e)
  from genesis.prems genesis.hyps show ?case by (cases rule: ancestry.cases) simp_all
next
  case (extend h e ps)
  from extend.prems show ?case
  proof (cases rule: ancestry.cases)
    case (extend e' qs')
    then show ?thesis using extend.hyps extend.IH by simp
  qed (use extend.hyps in simp)
qed

lemma ancestry_member:
  "ancestry hs h ps \<Longrightarrow> x \<in> set ps \<Longrightarrow> \<exists>qs. ancestry hs x qs \<and> length qs \<le> length ps"
proof (induction rule: ancestry.induct)
  case (genesis h e)
  then show ?case by (auto intro: ancestry.genesis exI [of _ "[h]"])
next
  case (extend h e ps)
  then show ?case by (fastforce intro: ancestry.extend le_SucI)
qed

lemma ancestry_distinct: "ancestry hs h ps \<Longrightarrow> distinct ps"
proof (induction rule: ancestry.induct)
  case (genesis h e)
  then show ?case by simp
next
  case (extend h e ps)
  have "h \<notin> set ps"
  proof
    assume "h \<in> set ps"
    then obtain qs where "ancestry hs h qs" "length qs \<le> length ps"
      using ancestry_member [OF extend.hyps(3)] by blast
    moreover have "ancestry hs h (h # ps)" using extend.hyps by (rule ancestry.extend)
    ultimately show False using ancestry_unique by fastforce
  qed
  with extend.IH show ?case by simp
qed

lemma ancestry_dom: "ancestry hs h ps \<Longrightarrow> set ps \<subseteq> fst ` set hs"
  by (induction rule: ancestry.induct) (auto simp: dom_map_of_conv_image_fst [symmetric])

lemma ancestry_length: "ancestry hs h ps \<Longrightarrow> length ps \<le> length hs"
proof -
  assume a: "ancestry hs h ps"
  have "length ps = card (set ps)" using ancestry_distinct [OF a] by (simp add: distinct_card)
  also have "\<dots> \<le> card (fst ` set hs)" using ancestry_dom [OF a] by (simp add: card_mono)
  also have "\<dots> \<le> length hs" by (metis card_image_le card_length finite_set le_trans)
  finally show ?thesis .
qed

section \<open>Cumulative work\<close>

definition cum_ok :: "'f f64 \<Rightarrow> 'f headers \<Rightarrow> 'f cum_map \<Rightarrow> bool" where
  "cum_ok F hs cum \<longleftrightarrow> (\<forall>h w. map_of cum h = Some w \<longrightarrow> (\<exists>ps. ancestry hs h ps \<and> w = chain_work F hs ps))"

lemma cum_okD: "cum_ok F hs cum \<Longrightarrow> map_of cum h = Some w \<Longrightarrow> \<exists>ps. ancestry hs h ps \<and> w = chain_work F hs ps"
  by (simp add: cum_ok_def)

lemma cum_ok_update:
  "cum_ok F hs cum \<Longrightarrow> ancestry hs h ps \<Longrightarrow> w = chain_work F hs ps \<Longrightarrow> cum_ok F hs (AList.update h w cum)"
  by (auto simp: cum_ok_def AList.update_conv' split: if_splits)

lemma chain_work_extend:
  "ancestry hs h' ps \<Longrightarrow> map_of hs h = Some e \<Longrightarrow> chain_work F hs (h # ps) = f_add F (chain_work F hs ps) (he_work e)"
  by (auto dest!: ancestry_not_Nil)

lemma stack_single:
  "stack_loop F hs [(g, False)] cum =
    (case map_of hs g of None \<Rightarrow> cum
     | Some e \<Rightarrow> if map_of cum g \<noteq> None then cum
        else (case (if he_prev e = Hash32_ZERO then Some (f_zero F) else map_of cum (he_prev e)) of
          None \<Rightarrow> cum
        | Some b \<Rightarrow> AList.update g (f_add F b (he_work e)) cum))"
  by (auto split: option.splits)

declare stack_loop.simps [simp del]

lemma dom_map_update: "dom (map_of (AList.update k v m)) = insert k (dom (map_of m))"
  unfolding AList.update_conv' by simp

lemma stack_single_ok:
  assumes "f64_order F" and "cum_ok F hs cum"
  shows "cum_ok F hs (stack_loop F hs [(g, False)] cum)
     \<and> dom (map_of cum) \<subseteq> dom (map_of (stack_loop F hs [(g, False)] cum))"
proof (cases "map_of hs g")
  case None
  then show ?thesis using assms(2) by (simp add: stack_single)
next
  case (Some e)
  show ?thesis
  proof (cases "he_prev e = Hash32_ZERO")
    case True
    have "cum_ok F hs (AList.update g (f_add F (f_zero F) (he_work e)) cum)"
      using assms(2) ancestry.genesis [OF Some True]
      by (rule cum_ok_update) (simp add: Some f64_order.zero_add [OF assms(1)])
    then show ?thesis using assms(2) Some True
      by (auto simp: stack_single AList.update_conv')
  next
    case False
    have "cum_ok F hs (AList.update g (f_add F b (he_work e)) cum)" if b: "map_of cum (he_prev e) = Some b" for b
    proof -
      obtain ps where ps: "ancestry hs (he_prev e) ps" "b = chain_work F hs ps"
        using cum_okD [OF assms(2) b] by blast
      show ?thesis
        using assms(2) ancestry.extend [OF Some False ps(1)]
        by (rule cum_ok_update) (simp add: ps chain_work_extend [OF ps(1) Some])
    qed
    then show ?thesis using assms(2) Some False
      by (auto simp: stack_single AList.update_conv' split: option.splits)
  qed
qed

lemma candidate_pass_ok:
  "f64_order F \<Longrightarrow> cum_ok F hs cum \<Longrightarrow> cum_ok F hs (candidate_pass F hs cands cum)"
  unfolding candidate_pass_def
  by (induction cands arbitrary: cum) (simp_all add: stack_single_ok)

text \<open>The hashes of \<open>path\<close>, last visited first, each the child of the one before it.\<close>

fun linked :: "'f headers \<Rightarrow> hash32 \<Rightarrow> hash32 list \<Rightarrow> bool" where
  "linked hs cur [] = True"
| "linked hs cur (p # path) =
    ((\<exists>e. map_of hs p = Some e \<and> he_prev e \<noteq> Hash32_ZERO \<and> he_prev e = cur) \<and> linked hs p path)"

lemma fill_path_ok:
  assumes "cum_ok F hs cum" and "linked hs cur path" and "ancestry hs cur ps"
  shows "cum_ok F hs (fill_path F hs path (chain_work F hs ps) cum)
     \<and> dom (map_of cum) \<union> set path \<subseteq> dom (map_of (fill_path F hs path (chain_work F hs ps) cum))"
  using assms
proof (induction path arbitrary: cur ps cum)
  case Nil
  then show ?case by simp
next
  case (Cons p path)
  then obtain e where e: "map_of hs p = Some e" "he_prev e \<noteq> Hash32_ZERO" "he_prev e = cur"
    and l: "linked hs p path" by auto
  have a: "ancestry hs p (p # ps)" using ancestry.extend [OF e(1,2)] e(3) Cons.prems(3) by simp
  have w: "f_add F (chain_work F hs ps) (he_work e) = chain_work F hs (p # ps)"
    using chain_work_extend [OF Cons.prems(3) e(1)] by simp
  have "cum_ok F hs (AList.update p (chain_work F hs (p # ps)) cum)"
    using Cons.prems(1) a by (rule cum_ok_update) simp
  from Cons.IH [OF this l a] show ?case
    by (simp add: e(1) w dom_map_update Let_def)
qed

lemma resolve_walk_ok:
  assumes "resolve_walk F hs fuel cur path cum = Some cum'" and "cum_ok F hs cum"
    and "linked hs cur path"
  shows "cum_ok F hs cum' \<and> dom (map_of cum) \<subseteq> dom (map_of cum')
     \<and> (\<forall>ps. ancestry hs cur ps \<longrightarrow> insert cur (set path) \<subseteq> dom (map_of cum'))"
  using assms
proof (induction fuel arbitrary: cur path)
  case 0
  then show ?case by simp
next
  case (Suc fuel)
  show ?case
  proof (cases "map_of cum cur")
    case (Some w)
    then obtain ps where "ancestry hs cur ps" "w = chain_work F hs ps"
      using cum_okD [OF Suc.prems(2)] by blast
    then show ?thesis
      using fill_path_ok [OF Suc.prems(2,3)] Suc.prems(1) Some by auto
  next
    case nc: None
    show ?thesis
    proof (cases "map_of hs cur")
      case None
      then show ?thesis using Suc.prems nc by (auto elim: ancestry_cases)
    next
      case (Some e)
      show ?thesis
      proof (cases "he_prev e = Hash32_ZERO")
        case True
        have a: "ancestry hs cur [cur]" using ancestry.genesis [OF Some True] .
        have "cum_ok F hs (AList.update cur (chain_work F hs [cur]) cum)"
          using Suc.prems(2) a by (rule cum_ok_update) simp
        from fill_path_ok [OF this Suc.prems(3) a] Suc.prems(1) nc Some True
        show ?thesis by (auto simp: AList.update_conv')
      next
        case False
        then have r: "resolve_walk F hs fuel (he_prev e) (cur # path) cum = Some cum'"
          using Suc.prems(1) nc Some by simp
        have l: "linked hs (he_prev e) (cur # path)" using Some False Suc.prems(3) by simp
        have "\<exists>qs. ancestry hs (he_prev e) qs" if "ancestry hs cur ps" for ps
          by (rule ancestry.cases [OF that]) (use Some False in auto)
        with Suc.IH [OF r Suc.prems(2) l] show ?thesis by auto
      qed
    qed
  qed
qed

lemma resolve_cum_ok:
  assumes "f64_order F" and "resolve_cum F hs h cum = Some cum'" and "cum_ok F hs cum"
  shows "cum_ok F hs cum' \<and> dom (map_of cum) \<subseteq> dom (map_of cum')
     \<and> (\<forall>ps. ancestry hs h ps \<longrightarrow> h \<in> dom (map_of cum'))"
proof (cases "map_of cum h")
  case (Some w)
  then show ?thesis using assms by (auto simp: resolve_cum_def)
next
  case nc: None
  show ?thesis
  proof (cases "map_of hs h")
    case None
    then show ?thesis using assms nc by (auto simp: resolve_cum_def elim: ancestry_cases)
  next
    case (Some e)
    show ?thesis
    proof (cases "he_prev e = Hash32_ZERO")
      case True
      have "cum_ok F hs (AList.update h (he_work e) cum)"
        using assms(3) ancestry.genesis [OF Some True] by (rule cum_ok_update) (simp add: Some)
      then show ?thesis
        using assms nc Some True
        by (auto simp: resolve_cum_def f64_order.zero_add [OF assms(1)] AList.update_conv')
    next
      case False
      then have "resolve_walk F hs (Suc (length hs)) h [] cum = Some cum'"
        using assms(2) nc Some by (simp add: resolve_cum_def)
      from resolve_walk_ok [OF this assms(3)] show ?thesis by auto
    qed
  qed
qed

lemma resolve_all_ok:
  assumes "f64_order F" and "resolve_all F hs ks cum = Some cum'" and "cum_ok F hs cum"
  shows "cum_ok F hs cum' \<and> dom (map_of cum) \<subseteq> dom (map_of cum')
     \<and> (\<forall>h \<in> set ks. (\<exists>ps. ancestry hs h ps) \<longrightarrow> h \<in> dom (map_of cum'))"
  using assms(2,3)
proof (induction ks arbitrary: cum)
  case Nil
  then show ?case by simp
next
  case (Cons k ks)
  then obtain t where t: "resolve_cum F hs k cum = Some t" and r: "resolve_all F hs ks t = Some cum'"
    by (auto simp: bind_eq_Some_conv)
  from resolve_cum_ok [OF assms(1) t Cons.prems(2)] Cons.IH [OF r] show ?case by (auto 0 3)
qed

section \<open>Fuel\<close>

definition acyclic_links :: "'f headers \<Rightarrow> (hash32 \<Rightarrow> nat) \<Rightarrow> bool" where
  "acyclic_links hs rank \<longleftrightarrow> (\<forall>(h, e) \<in> set hs. map_of hs (he_prev e) \<noteq> None \<longrightarrow> rank (he_prev e) < rank h)"

definition below :: "'f headers \<Rightarrow> (hash32 \<Rightarrow> nat) \<Rightarrow> hash32 \<Rightarrow> hash32 set" where
  "below hs rank h = (if map_of hs h = None then {} else {x \<in> fst ` set hs. rank x \<le> rank h})"

lemma below_finite: "finite (below hs rank h)"
  by (simp add: below_def)

lemma card_below: "card (below hs rank h) \<le> length hs"
proof -
  have "card (below hs rank h) \<le> card (fst ` set hs)" by (auto simp: below_def intro: card_mono)
  also have "\<dots> \<le> length hs" by (metis card_image_le card_length finite_set le_trans)
  finally show ?thesis .
qed

lemma below_prev:
  assumes "acyclic_links hs rank" and "map_of hs h = Some e"
  shows "card (below hs rank (he_prev e)) < card (below hs rank h)"
proof (rule psubset_card_mono [OF below_finite])
  have h: "h \<in> below hs rank h"
    using assms(2) by (force simp: below_def dest: map_of_SomeD)
  have "(h, e) \<in> set hs" using assms(2) by (rule map_of_SomeD)
  then have "rank (he_prev e) < rank h" if "map_of hs (he_prev e) \<noteq> None"
    using assms(1) that by (auto simp: acyclic_links_def)
  then have "h \<notin> below hs rank (he_prev e)" "below hs rank (he_prev e) \<subseteq> below hs rank h"
    using assms(2) by (auto simp: below_def)
  with h show "below hs rank (he_prev e) \<subset> below hs rank h" by blast
qed

lemma resolve_walk_returns:
  assumes "acyclic_links hs rank" and "card (below hs rank cur) < fuel"
  shows "\<exists>cum'. resolve_walk F hs fuel cur path cum = Some cum'"
  using assms(2)
proof (induction fuel arbitrary: cur path)
  case 0
  then show ?case by simp
next
  case (Suc fuel)
  show ?case
  proof (cases "map_of hs cur")
    case (Some e)
    with below_prev [OF assms(1) Some] Suc.prems have "card (below hs rank (he_prev e)) < fuel" by simp
    from Suc.IH [OF this, of "cur # path"] Some show ?thesis by (auto split: option.splits)
  qed (simp split: option.splits)
qed

lemma resolve_all_returns:
  assumes "acyclic_links hs rank"
  shows "\<exists>cum'. resolve_all F hs ks cum = Some cum'"
proof (induction ks arbitrary: cum)
  case Nil
  then show ?case by simp
next
  case (Cons k ks)
  have "card (below hs rank k) < Suc (length hs)" using card_below [of hs rank k] by simp
  from resolve_walk_returns [OF assms this, of F "[]" cum]
  have "\<exists>t. resolve_cum F hs k cum = Some t" by (auto simp: resolve_cum_def split: option.splits)
  with Cons show ?case by auto
qed

lemma walk_back_ancestry:
  "ancestry hs h ps \<Longrightarrow> length ps \<le> fuel \<Longrightarrow> walk_back hs fuel h = Some ps"
proof (induction arbitrary: fuel rule: ancestry.induct)
  case (genesis h e)
  then show ?case by (cases fuel) simp_all
next
  case (extend h e ps)
  then obtain n where "fuel = Suc n" by (cases fuel) simp_all
  moreover have "map_of hs (he_prev e) \<noteq> None" using extend.hyps(3) by (auto elim: ancestry.cases)
  ultimately show ?case using extend by auto
qed

section \<open>The tip and the main chain\<close>

lemma best_tip_fold:
  assumes "f64_order F"
  shows "case fold (better_tip F) es tip of
      None \<Rightarrow> tip = None \<and> es = []
    | Some (h, w) \<Rightarrow> (Some (h, w) = tip \<or> (h, w) \<in> set es)
        \<and> (\<forall>(h', w') \<in> set es. f_ge F w w') \<and> (\<forall>h' w'. tip = Some (h', w') \<longrightarrow> f_ge F w w')"
proof (induction es arbitrary: tip)
  case Nil
  then show ?case using f64_order.ge_refl [OF assms] by (auto split: option.splits)
next
  case (Cons e es)
  obtain h w where e: "e = (h, w)" by fastforce
  show ?case
  proof (cases tip)
    case None
    then show ?thesis using Cons [of "Some e"] by (auto simp: better_tip_def e split: option.splits)
  next
    case (Some t)
    obtain th tw where t: "t = (th, tw)" by fastforce
    note tr = f64_order.ge_trans [OF assms] and tot = f64_order.ge_total [OF assms]
    show ?thesis
    proof (cases "f_ge F tw w")
      case True
      then have b: "better_tip F e tip = tip" by (simp add: better_tip_def Some t e)
      have f: "fold (better_tip F) (e # es) tip = fold (better_tip F) es tip" by (simp only: fold_simps b)
      show ?thesis unfolding f using Cons [of tip] True
        by (auto simp: Some t e split: option.splits intro: tr)
    next
      case False
      then have b: "better_tip F e tip = Some e" by (simp add: better_tip_def Some t e)
      have "f_ge F w tw" using False tot by blast
      moreover have f: "fold (better_tip F) (e # es) tip = fold (better_tip F) es (Some e)"
        by (simp only: fold_simps b)
      ultimately show ?thesis unfolding f using Cons [of "Some e"]
        by (auto simp: Some t e split: option.splits intro: tr)
    qed
  qed
qed

lemma best_tip_max:
  assumes "f64_order F"
  shows "case best_tip F es of None \<Rightarrow> es = []
    | Some (h, w) \<Rightarrow> (h, w) \<in> set es \<and> (\<forall>(h', w') \<in> set es. f_ge F w w')"
  using best_tip_fold [OF assms, where es = es and tip = None] by (auto simp: best_tip_def split: option.splits)

lemma hash_to_height_nth:
  assumes "distinct chain" and "i < length chain"
  shows "map_of (hash_to_height (assign_heights hs chain)) (chain ! i) = Some (of_nat i)"
proof -
  have "map_of (fold (\<lambda>(i, h). AList.update h (of_nat i :: u32)) (enumerate n chain) m) (chain ! i)
      = Some (of_nat (n + i))" for n m
    using assms
  proof (induction chain arbitrary: n m i)
    case Nil
    then show ?case by simp
  next
    case (Cons c chain)
    have keep: "map_of (fold (\<lambda>(i, h). AList.update h (of_nat i :: u32)) (enumerate k xs) m') c = map_of m' c"
      if "c \<notin> set xs" for k xs m'
      using that by (induction xs arbitrary: k m') (auto simp: AList.update_conv')
    show ?case
    proof (cases i)
      case 0
      then show ?thesis using Cons.prems(1) by (simp add: keep AList.update_conv')
    next
      case (Suc j)
      then show ?thesis using Cons.IH [of j "Suc n"] Cons.prems by simp
    qed
  qed
  from this [of 0 "[]"] show ?thesis by (simp add: assign_heights_def)
qed

lemma hash_to_height_dom:
  "dom (map_of (hash_to_height (assign_heights hs chain))) = set chain"
proof -
  have "dom (map_of (fold (\<lambda>(i, h). AList.update h (of_nat i :: u32)) (enumerate n chain) m))
      = dom (map_of m) \<union> set chain" for n m
    by (induction chain arbitrary: n m) (auto simp: dom_map_update)
  from this [of 0 "[]"] show ?thesis by (simp add: assign_heights_def)
qed

definition permutes_lists :: "('a list \<Rightarrow> 'a list) \<Rightarrow> bool" where
  "permutes_lists it \<longleftrightarrow> (\<forall>xs. mset (it xs) = mset xs)"

lemma permutes_set: "permutes_lists it \<Longrightarrow> set (it xs) = set xs"
  by (metis permutes_lists_def set_mset_mset)

lemma cum_distinct:
  assumes "distinct (map fst cum)"
  shows "resolve_cum F hs h cum = Some cum' \<Longrightarrow> distinct (map fst cum')"
proof -
  have fill: "distinct (map fst m) \<Longrightarrow> distinct (map fst (fill_path F hs path a m))" for path a m
    by (induction path arbitrary: a m) (auto simp: AList.distinct_update Let_def split: option.splits)
  have walk: "resolve_walk F hs n cur path m = Some m' \<Longrightarrow> distinct (map fst m) \<Longrightarrow> distinct (map fst m')"
    for n cur path m m'
    by (induction n arbitrary: cur path)
      (auto simp: fill AList.distinct_update split: option.splits if_splits)
  show "resolve_cum F hs h cum = Some cum' \<Longrightarrow> distinct (map fst cum')"
    using assms walk by (auto simp: resolve_cum_def AList.distinct_update split: option.splits if_splits)
qed

lemma resolve_all_distinct:
  "resolve_all F hs ks cum = Some cum' \<Longrightarrow> distinct (map fst cum) \<Longrightarrow> distinct (map fst cum')"
  by (induction ks arbitrary: cum) (auto simp: bind_eq_Some_conv dest: cum_distinct)

lemma candidate_pass_distinct:
  "distinct (map fst cum) \<Longrightarrow> distinct (map fst (candidate_pass F hs cands cum))"
  unfolding candidate_pass_def
  by (induction cands arbitrary: cum)
    (auto simp: stack_single AList.distinct_update split: option.splits)

lemma resolved_cum:
  assumes "f64_order F" and "permutes_lists ith" and "acyclic_links hs rank"
  obtains cum where
    "resolve_all F hs (map fst (ith hs)) (candidate_pass F hs (genesis_candidates hs (ith hs)) []) = Some cum"
    "distinct (map fst cum)"
    "\<And>h w. (h, w) \<in> set cum \<Longrightarrow> \<exists>ps. ancestry hs h ps \<and> w = chain_work F hs ps"
    "\<And>h ps. ancestry hs h ps \<Longrightarrow> (h, chain_work F hs ps) \<in> set cum"
proof -
  let ?c0 = "candidate_pass F hs (genesis_candidates hs (ith hs)) []"
  have "cum_ok F hs []" by (simp add: cum_ok_def)
  then have c0: "cum_ok F hs ?c0" by (rule candidate_pass_ok [OF assms(1)])
  obtain cum where r: "resolve_all F hs (map fst (ith hs)) ?c0 = Some cum"
    using resolve_all_returns [OF assms(3)] by blast
  have d: "distinct (map fst cum)"
    by (rule resolve_all_distinct [OF r]) (simp add: candidate_pass_distinct)
  note ok = resolve_all_ok [OF assms(1) r c0]
  have member: "(h, w) \<in> set cum \<longleftrightarrow> map_of cum h = Some w" for h w
    using d by simp
  have keys: "set (map fst (ith hs)) = fst ` set hs" using permutes_set [OF assms(2)] by simp
  have "\<exists>ps. ancestry hs h ps \<and> w = chain_work F hs ps" if "(h, w) \<in> set cum" for h w
    using ok that unfolding member by (auto simp: cum_ok_def)
  moreover have "(h, chain_work F hs ps) \<in> set cum" if a: "ancestry hs h ps" for h ps
  proof -
    have "h \<in> set (map fst (ith hs))"
      using ancestry_dom [OF a] ancestry_not_Nil [OF a] keys by auto
    then obtain w where "map_of cum h = Some w" using ok a by blast
    moreover obtain qs where "ancestry hs h qs" "w = chain_work F hs qs"
      using ok calculation by (auto simp: cum_ok_def)
    ultimately show ?thesis using ancestry_unique [OF a] unfolding member by blast
  qed
  ultimately show thesis using that r d by blast
qed

section \<open>Scanning a directory with one file\<close>

definition scan_all :: "'f f64 \<Rightarrow> digests \<Rightarrow> fs \<Rightarrow> path \<Rightarrow> blk_error + ('f headers \<times> chain_build_stats)" where
  "scan_all F H S dir = res_bind (discover_blk_files S dir) (\<lambda>files.
     res_fold (scan_file F H S) files ([], stats_default))"

definition chain_fs :: "(u32 \<times> bytes) list \<Rightarrow> fs" where
  "chain_fs rs = \<lparr>fs_read = (\<lambda>_. Inl ''not found''), fs_mmap = (\<lambda>_. Inr (concat (map frame rs))),
     fs_read_dir = (\<lambda>_. Inr [Inr ''blk00000.dat''])\<rparr>"

lemma scan_chain_fs:
  assumes "list_all frame_ok rs" and "rs \<noteq> []"
  shows "scan_all F H (chain_fs rs) dir = Inr (fold (add_record F) (frame_records H 0 0 rs)
     ([], stats_default\<lparr>cbs_files_scanned := 1\<rparr>))"
proof -
  have "parse_blk_name ''blk00000.dat'' = Some 0" by code_simp
  then have d: "discover_blk_files (chain_fs rs) dir = Inr [(0, dir @ [''blk00000.dat''])]"
    by (simp add: discover_blk_files_def chain_fs_def discover_entry_def)
  have "read_xor_key (chain_fs rs) p = None" for p
    by (simp add: read_xor_key_def chain_fs_def split: option.splits)
  then have m: "fs_mmap (chain_fs rs) p = Inr (on_disk (read_xor_key (chain_fs rs) p) (concat (map frame rs) @ []))" for p
    by (simp add: on_disk_def) (simp add: chain_fs_def)
  have "no_record []" by (simp add: no_record_def)
  then obtain f where "blk_open (chain_fs rs) (dir @ [''blk00000.dat'']) 0 = Inr f"
    "blk_data f = concat (map frame rs)" "bf_file_id f = 0"
    using open_exact [OF m assms] by metis
  moreover from this have "records H f = Inr (frame_records H 0 0 rs)"
    using collect_frames [OF assms(1), of H 0 "[]"] by (simp add: records_def)
  ultimately show ?thesis
    by (simp add: scan_all_def d scan_file_def stats_default_def)
qed

text \<open>A single block with the given parent, for the witnesses.\<close>

definition one_block :: "hash32 \<Rightarrow> (u32 \<times> bytes) list" where
  "one_block prev = [(BLOCK_MAGIC, header_bytes \<lparr>h_version = 1, h_prev_hash = prev,
     h_merkle_root = zeros 32, h_time = 1, h_bits = 0x1d00ffff, h_nonce = 0\<rparr>)]"

definition one_header :: "hash32 \<Rightarrow> real headers" where
  "one_header prev = [(to_le (1 :: u32) @ take 28 prev,
     \<lparr>he_prev = prev, he_location = \<lparr>l_file_id = 0, l_offset = 0, l_record_len = 88\<rparr>,
      he_work = work_from_bits real_f64 0x1d00ffff\<rparr>)]"

lemma scan_one_block:
  assumes "length prev = 32"
  shows "scan_all real_f64 pad_digests (chain_fs (one_block prev)) dir
    = Inr (one_header prev, stats_default\<lparr>cbs_files_scanned := 1, cbs_total_records := 1\<rparr>)"
proof -
  let ?h = "\<lparr>h_version = 1, h_prev_hash = prev, h_merkle_root = zeros 32, h_time = 1,
    h_bits = 0x1d00ffff, h_nonce = 0\<rparr>"
  have ok: "header_ok ?h" using assms by (simp add: header_ok_def)
  have len: "length (header_bytes ?h) = 80" using length_header_bytes [OF ok] by (simp add: BLOCK_HEADER_LEN_def)
  have "dsha256 pad_digests (header_bytes ?h) = to_le (1 :: u32) @ take 28 prev"
    using assms by (simp add: dsha256_def pad_digests_def header_bytes_def)
  moreover have "list_all frame_ok (one_block prev)" "one_block prev \<noteq> []"
    using len by (simp_all add: one_block_def frame_ok_def is_known_network_magic_def BLOCK_HEADER_LEN_def)
  ultimately show ?thesis
    using scan_chain_fs [of "one_block prev" real_f64 pad_digests dir] len parse_header_bytes [OF ok, of "[]"]
    by (simp add: one_block_def one_header_def frame_record_def add_record_def or_insert_def
        stats_default_def BLOCK_HEADER_LEN_def)
qed

lemma one_header_acyclic: "hd prev \<noteq> 1 \<Longrightarrow> acyclic_links (one_header prev) (\<lambda>_. 0)"
proof -
  have "hd (to_le (1 :: u32)) = 1" by (simp add: hd_conv_nth to_le_u32_first)
  moreover have "to_le (1 :: u32) \<noteq> []" by (rule to_le_u32_first)
  ultimately have "hd (to_le (1 :: u32) @ take 28 prev) = 1" by simp
  moreover assume "hd prev \<noteq> 1"
  ultimately have "prev \<noteq> to_le (1 :: u32) @ take 28 prev" by metis
  then show ?thesis by (auto simp: acyclic_links_def one_header_def)
qed

lemma permutes_id: "permutes_lists (\<lambda>xs. xs)"
  by (simp add: permutes_lists_def)

section \<open>Properties\<close>

text \<open>C24. The header pass finds the main chain. Whatever the iteration order of the hash maps, when
  the scanned headers have no cycle of parent links the pass returns; and if some header is
  connected to a genesis block, it returns the chain of a header whose cumulative work is at
  least that of every header connected to a genesis block: heights run from the genesis block
  (height 0) along parent links to the tip, \<open>by_height\<close> lists the blocks' locations in that
  order, \<open>hash_to_height\<close> knows exactly those hashes at those heights, and the statistics give the
  tip and the number of blocks left out.\<close>

theorem main_chain_has_most_work:
  assumes "f64_order F" and "permutes_lists ith" and "permutes_lists itc"
    and "scan_all F H S dir = Inr (hs, stats)" and "acyclic_links hs rank"
    and "ancestry hs h0 ps0"
  shows "\<exists>ci st tip ps. build_chain_index F H S ith itc dir = Some (Inr (ci, st))
     \<and> ancestry hs tip ps
     \<and> (\<forall>h qs. ancestry hs h qs \<longrightarrow> f_ge F (chain_work F hs ps) (chain_work F hs qs))
     \<and> by_height ci = map (\<lambda>h. he_location (the (map_of hs h))) (rev ps)
     \<and> dom (map_of (hash_to_height ci)) = set ps
     \<and> (\<forall>i < length ps. map_of (hash_to_height ci) (rev ps ! i) = Some (of_nat i))
     \<and> cbs_tip_hash st = tip \<and> cbs_tip_height st = of_nat (length ps) - 1
     \<and> cbs_orphans st = length hs - length ps"
proof -
  obtain cum where r: "resolve_all F hs (map fst (ith hs)) (candidate_pass F hs (genesis_candidates hs (ith hs)) []) = Some cum"
    and sound: "\<And>h w. (h, w) \<in> set cum \<Longrightarrow> \<exists>ps. ancestry hs h ps \<and> w = chain_work F hs ps"
    and complete: "\<And>h ps. ancestry hs h ps \<Longrightarrow> (h, chain_work F hs ps) \<in> set cum"
    by (rule resolved_cum [OF assms(1,2,5)]) (rule that, assumption, blast+)
  have its: "set (itc cum) = set cum" by (rule permutes_set [OF assms(3)])
  have "itc cum \<noteq> []" using complete [OF assms(6)] its by auto
  then obtain tip w where t: "best_tip F (itc cum) = Some (tip, w)"
    and m: "(tip, w) \<in> set cum" "\<forall>(h', w') \<in> set cum. f_ge F w w'"
    using best_tip_max [OF assms(1), of "itc cum"] its by (auto split: option.splits)
  obtain ps where ps: "ancestry hs tip ps" "w = chain_work F hs ps" using sound [OF m(1)] by blast
  have "walk_back hs (Suc (length hs)) tip = Some ps"
    by (rule walk_back_ancestry [OF ps(1)]) (use ancestry_length [OF ps(1)] in simp)
  then have b: "build_chain_index F H S ith itc dir = Some (Inr (assign_heights hs (rev ps),
      stats\<lparr>cbs_unique_blocks := length hs, cbs_orphans := length hs - length ps,
        cbs_tip_height := of_nat (length ps) - 1, cbs_tip_hash := tip\<rparr>))"
    using assms(4) r t by (simp add: build_chain_index_def build_from_headers_def scan_all_def Let_def)
  have "\<forall>h qs. ancestry hs h qs \<longrightarrow> f_ge F (chain_work F hs ps) (chain_work F hs qs)"
    using m(2) complete ps(2) by blast
  moreover have "\<forall>i < length ps. map_of (hash_to_height (assign_heights hs (rev ps))) (rev ps ! i) = Some (of_nat i)"
    using hash_to_height_nth [of "rev ps" _ hs] ancestry_distinct [OF ps(1)] by simp
  moreover have "dom (map_of (hash_to_height (assign_heights hs (rev ps)))) = set ps"
    by (simp add: hash_to_height_dom)
  ultimately show ?thesis
    using b ps(1) by (auto simp: assign_heights_def intro!: exI [of _ tip] exI [of _ ps])
qed

theorem main_chain_has_most_work_witness:
  "\<exists>ci st. build_chain_index real_f64 pad_digests (chain_fs (one_block Hash32_ZERO)) (\<lambda>xs. xs) (\<lambda>xs. xs) [''blocks'']
       = Some (Inr (ci, st)) \<and> cbs_tip_hash st \<in> fst ` set (one_header Hash32_ZERO)"
proof -
  have l: "length Hash32_ZERO = 32" by simp
  have "hd Hash32_ZERO \<noteq> 1" by (simp add: Hash32_ZERO_def)
  note ac = one_header_acyclic [OF this]
  let ?g = "to_le (1 :: u32) @ take 28 Hash32_ZERO"
  have "ancestry (one_header Hash32_ZERO) ?g [?g]"
    by (rule ancestry.genesis, simp add: one_header_def, simp)
  from main_chain_has_most_work [OF rf.f64_order_axioms permutes_id permutes_id scan_one_block [OF l] ac this]
  obtain ci st tip ps where "build_chain_index real_f64 pad_digests (chain_fs (one_block Hash32_ZERO)) (\<lambda>xs. xs) (\<lambda>xs. xs) [''blocks'']
       = Some (Inr (ci, st))" "ancestry (one_header Hash32_ZERO) tip ps" "cbs_tip_hash st = tip" by blast
  then show ?thesis using ancestry_dom [of "one_header Hash32_ZERO" tip ps] ancestry_not_Nil by fastforce
qed

text \<open>A directory whose blocks do not reach a genesis block (a pruned node, a partial copy)
  yields the error \<open>NoRecords\<close>, however many records were found: headers without a null parent
  never get cumulative work, so the branch of the walk back that accepts a truncated history
  is never taken.\<close>

theorem truncated_history_rejected:
  assumes "f64_order F" and "permutes_lists ith" and "permutes_lists itc"
    and "scan_all F H S dir = Inr (hs, stats)" and "acyclic_links hs rank"
    and "\<forall>(h, e) \<in> set hs. he_prev e \<noteq> Hash32_ZERO"
  shows "build_chain_index F H S ith itc dir = Some (Inl (NoRecords dir))"
proof -
  obtain cum where r: "resolve_all F hs (map fst (ith hs)) (candidate_pass F hs (genesis_candidates hs (ith hs)) []) = Some cum"
    and sound: "\<And>h w. (h, w) \<in> set cum \<Longrightarrow> \<exists>ps. ancestry hs h ps \<and> w = chain_work F hs ps"
    by (rule resolved_cum [OF assms(1,2,5)]) (rule that, assumption, blast+)
  have "\<not> ancestry hs h ps" for h ps
  proof
    assume "ancestry hs h ps"
    then show False
      by (induction rule: ancestry.induct) (use assms(6) in \<open>auto dest: map_of_SomeD\<close>)
  qed
  then have "set cum = {}" using sound by (metis equals0I surj_pair)
  then have "itc cum = []" using permutes_set [OF assms(3), of cum] by simp
  then show ?thesis
    using assms(4) r by (simp add: build_chain_index_def build_from_headers_def scan_all_def best_tip_def)
qed

theorem truncated_history_rejected_witness:
  "build_chain_index real_f64 pad_digests (chain_fs (one_block (replicate 32 7))) (\<lambda>xs. xs) (\<lambda>xs. xs) [''blocks'']
     = Some (Inl (NoRecords [''blocks'']))"
proof -
  let ?p = "replicate 32 (7 :: byte)"
  have l: "length ?p = 32" by simp
  have h: "hd ?p = 7" by simp
  then have ac: "acyclic_links (one_header ?p) (\<lambda>_. 0)" by (intro one_header_acyclic) simp
  have "hd Hash32_ZERO = 0" by (simp add: Hash32_ZERO_def)
  then have "?p \<noteq> Hash32_ZERO"
  proof (intro notI)
    assume z: "hd Hash32_ZERO = 0" "?p = Hash32_ZERO"
    from h have "hd Hash32_ZERO = (7 :: byte)" unfolding z(2) .
    with z(1) show False by simp
  qed
  then have "\<forall>(h, e) \<in> set (one_header ?p). he_prev e \<noteq> Hash32_ZERO" by (simp add: one_header_def)
  from truncated_history_rejected [OF rf.f64_order_axioms permutes_id permutes_id scan_one_block [OF l] ac this]
  show ?thesis .
qed

end
