(* ===== verification/Store_Codec.thy ===== *)
theory Store_Codec
  imports Core_Cursor
begin

text \<open>
  The on-disk encodings of \<open>bidx-store/src/utxo.rs\<close>: 36-byte outpoint keys, 45-byte
  \<open>UtxoValue\<close>s, compact-size integers over a shrinking slice, and the per-block undo record.
  A decoder over \<open>&mut &[u8]\<close> is a function from the slice to the value and the rest of the
  slice. \<open>slice_codec\<close> is the interface of such a decoder that inverts an encoder; the two
  counted loops of \<open>BlockUndo::decode\<close> are instances of it.
\<close>

record utxo_value =
  u_value_sat :: u64
  u_script_type :: u8
  u_height :: u32
  u_address_hash :: bytes

definition ENCODED_LEN :: nat where
  "ENCODED_LEN = 8 + 1 + 4 + 32"

definition utxo_value_encode :: "utxo_value \<Rightarrow> bytes" where
  "utxo_value_encode v =
     to_le (u_value_sat v) @ [u_script_type v] @ to_le (u_height v) @ u_address_hash v"

definition utxo_value_decode :: "bytes \<Rightarrow> utxo_value option" where
  "utxo_value_decode b =
    (if length b \<noteq> ENCODED_LEN then None
     else Some \<lparr>u_value_sat = from_le (subslice 0 8 b), u_script_type = b ! 8,
                u_height = from_le (subslice 9 13 b), u_address_hash = subslice 13 45 b\<rparr>)"

definition make_key :: "bytes \<Rightarrow> u32 \<Rightarrow> bytes" where
  "make_key txid vout = txid @ to_le vout"

definition undo_key :: "u32 \<Rightarrow> bytes" where
  "undo_key height = to_be height"

record block_undo =
  undo_spent :: "(bytes \<times> utxo_value) list"
  undo_created :: "bytes list"

definition put_varint :: "bytes \<Rightarrow> u64 \<Rightarrow> bytes" where
  "put_varint out n =
    (if n \<le> 0xfc then out @ [ucast n]
     else if n \<le> 0xffff then (out @ [0xfd]) @ to_le (ucast n :: u16)
     else if n \<le> 0xffffffff then (out @ [0xfe]) @ to_le (ucast n :: u32)
     else (out @ [0xff]) @ to_le n)"

fun slice_read_varint :: "bytes \<Rightarrow> (u64 \<times> bytes) option" where
  "slice_read_varint [] = None"
| "slice_read_varint (first # b) =
    (if first \<le> 0xfc then Some (ucast first, b)
     else if first = 0xfd then
       if length b < 2 then None else Some (ucast (from_le (take 2 b) :: u16), drop 2 b)
     else if first = 0xfe then
       if length b < 4 then None else Some (ucast (from_le (take 4 b) :: u32), drop 4 b)
     else
       if length b < 8 then None else Some (from_le (take 8 b), drop 8 b))"

text \<open>The body of the loop over the spent entries and of the loop over the created keys.\<close>

definition read_spent_entry :: "bytes \<Rightarrow> ((bytes \<times> utxo_value) \<times> bytes) option" where
  "read_spent_entry b =
    (if length b < 81 then None
     else case utxo_value_decode (subslice 36 81 b) of
       None \<Rightarrow> None
     | Some val \<Rightarrow> Some ((take 36 b, val), drop 81 b))"

definition read_created_key :: "bytes \<Rightarrow> (bytes \<times> bytes) option" where
  "read_created_key b = (if length b < 36 then None else Some (take 36 b, drop 36 b))"

fun slice_loop :: "(bytes \<Rightarrow> ('a \<times> bytes) option) \<Rightarrow> nat \<Rightarrow> bytes \<Rightarrow> ('a list \<times> bytes) option" where
  "slice_loop f 0 b = Some ([], b)"
| "slice_loop f (Suc n) b =
    (case f b of
       None \<Rightarrow> None
     | Some (x, b') \<Rightarrow> (case slice_loop f n b' of None \<Rightarrow> None | Some (xs, b'') \<Rightarrow> Some (x # xs, b'')))"

definition block_undo_encode :: "block_undo \<Rightarrow> bytes" where
  "block_undo_encode u =
    (let out = put_varint [] (of_nat (length (undo_spent u)));
         out = foldl (\<lambda>out (key, val). (out @ key) @ utxo_value_encode val) out (undo_spent u);
         out = put_varint out (of_nat (length (undo_created u)))
     in foldl (\<lambda>out key. out @ key) out (undo_created u))"

definition block_undo_decode :: "bytes \<Rightarrow> block_undo option" where
  "block_undo_decode b =
    (case slice_read_varint b of
       None \<Rightarrow> None
     | Some (n_spent, b) \<Rightarrow>
    (case slice_loop read_spent_entry (unat n_spent) b of
       None \<Rightarrow> None
     | Some (spent, b) \<Rightarrow>
    (case slice_read_varint b of
       None \<Rightarrow> None
     | Some (n_created, b) \<Rightarrow>
    (case slice_loop read_created_key (unat n_created) b of
       None \<Rightarrow> None
     | Some (created, b) \<Rightarrow> Some \<lparr>undo_spent = spent, undo_created = created\<rparr>))))"

section \<open>Fixed-width values and keys\<close>

definition utxo_value_ok :: "utxo_value \<Rightarrow> bool" where
  "utxo_value_ok v \<longleftrightarrow> length (u_address_hash v) = 32"

lemma length_utxo_value_encode [simp]:
  "utxo_value_ok v \<Longrightarrow> length (utxo_value_encode v) = ENCODED_LEN"
  by (simp add: utxo_value_encode_def utxo_value_ok_def ENCODED_LEN_def)

lemma utxo_decode_encode:
  "utxo_value_ok v \<Longrightarrow> utxo_value_decode (utxo_value_encode v) = Some v"
  by (simp add: utxo_value_decode_def utxo_value_encode_def utxo_value_ok_def ENCODED_LEN_def
      subslice_def nth_append)

lemma utxo_decode_ok: "utxo_value_decode b = Some v \<Longrightarrow> utxo_value_ok v"
  by (auto simp: utxo_value_decode_def utxo_value_ok_def ENCODED_LEN_def subslice_def
      split: if_splits)

lemma utxo_encode_decode:
  assumes "utxo_value_decode b = Some v"
  shows "utxo_value_encode v = b"
proof -
  have len: "length b = 45" using assms
    by (simp add: utxo_value_decode_def ENCODED_LEN_def split: if_splits)
  have "b = take 8 b @ subslice 8 9 b @ subslice 9 13 b @ subslice 13 45 b"
    using len by (simp add: subslice_def flip: take_add append_assoc)
  moreover have "subslice 8 9 b = [b ! 8]" using len
    by (simp add: subslice_def take_Suc_conv_app_nth numeral_2_eq_2 hd_drop_conv_nth take_Suc)
  ultimately show ?thesis
    using assms len
    by (auto simp: utxo_value_decode_def utxo_value_encode_def ENCODED_LEN_def to_from_le
        subslice_def)
qed

lemma length_make_key [simp]: "length (make_key t v) = length t + 4"
  by (simp add: make_key_def)

lemma make_key_inject:
  "length t = length t' \<Longrightarrow> make_key t v = make_key t' v' \<longleftrightarrow> t = t' \<and> v = v'"
  by (auto simp: make_key_def dest: to_le_inject [rotated])

lemma undo_key_inject: "undo_key h = undo_key h' \<longleftrightarrow> h = h'"
  by (auto simp: undo_key_def to_be_def dest: to_le_inject [rotated])

section \<open>Decoders over a slice\<close>

locale slice_codec =
  fixes enc :: "'a \<Rightarrow> bytes" and wf :: "'a \<Rightarrow> bool" and dec :: "bytes \<Rightarrow> ('a \<times> bytes) option"
  assumes dec_enc: "wf x \<Longrightarrow> dec (enc x @ r) = Some (x, r)"
begin

lemma slice_loop_enc:
  "list_all wf xs \<Longrightarrow> slice_loop dec (length xs) (concat (map enc xs) @ r) = Some (xs, r)"
  by (induction xs) (simp_all add: dec_enc)

lemma enc_inject: "wf x \<Longrightarrow> wf y \<Longrightarrow> enc x = enc y \<Longrightarrow> x = y"
  by (metis dec_enc option.inject prod.inject)

lemma enc_prefix_free: "wf x \<Longrightarrow> wf y \<Longrightarrow> enc x @ r = enc y @ s \<Longrightarrow> x = y \<and> r = s"
  by (metis dec_enc option.inject prod.inject)

end

lemma put_varint_compact: "put_varint out n = out @ compact_size n"
  by (simp add: put_varint_def compact_size_def)

lemma slice_varint_compact:
  "slice_read_varint (compact_size v @ r) = Some (v, r)"
proof -
  consider (b) "v \<le> 0xfc" | (h) "\<not> v \<le> 0xfc" "v \<le> 0xffff"
    | (w) "\<not> v \<le> 0xffff" "v \<le> 0xffffffff" | (d) "\<not> v \<le> 0xffffffff"
    by blast
  then show ?thesis
  proof cases
    case b
    then have u: "unat v \<le> 0xfc" by (simp add: word_le_nat_alt)
    then have "unat (ucast v :: u8) = unat v" by (intro unat_ucast_small) simp
    with u have "(ucast v :: u8) \<le> 0xfc" by (simp add: word_le_nat_alt)
    with b u show ?thesis by (simp add: compact_size_def ucast_ucast_small)
  next
    case h
    then have "unat v < 2 ^ LENGTH(16)" by (simp add: word_le_nat_alt)
    with h show ?thesis by (simp add: compact_size_def ucast_ucast_small)
  next
    case w
    then have "unat v < 2 ^ LENGTH(32)" and "\<not> v \<le> 0xfc" by (simp_all add: word_le_nat_alt)
    with w show ?thesis by (simp add: compact_size_def ucast_ucast_small)
  next
    case d
    then have "\<not> v \<le> 0xfc" and "\<not> v \<le> 0xffff" by (simp_all add: word_le_nat_alt)
    with d show ?thesis by (simp add: compact_size_def)
  qed
qed

interpretation sc_varint: slice_codec compact_size "\<lambda>_. True" slice_read_varint
  by unfold_locales (rule slice_varint_compact)

definition spent_entry_bytes :: "bytes \<times> utxo_value \<Rightarrow> bytes" where
  "spent_entry_bytes e = fst e @ utxo_value_encode (snd e)"

definition spent_entry_ok :: "bytes \<times> utxo_value \<Rightarrow> bool" where
  "spent_entry_ok e \<longleftrightarrow> length (fst e) = 36 \<and> utxo_value_ok (snd e)"

interpretation sc_spent: slice_codec spent_entry_bytes spent_entry_ok read_spent_entry
  by unfold_locales
    (auto simp: spent_entry_bytes_def spent_entry_ok_def read_spent_entry_def subslice_def
      ENCODED_LEN_def utxo_decode_encode)

interpretation sc_created: slice_codec "\<lambda>k. k" "\<lambda>k. length k = 36" read_created_key
  by unfold_locales (simp add: read_created_key_def)

definition block_undo_ok :: "block_undo \<Rightarrow> bool" where
  "block_undo_ok u \<longleftrightarrow> list_all spent_entry_ok (undo_spent u)
     \<and> list_all (\<lambda>k. length k = 36) (undo_created u)
     \<and> length (undo_spent u) < 2 ^ 64 \<and> length (undo_created u) < 2 ^ 64"

lemma block_undo_bytes:
  "block_undo_encode u = compact_size (of_nat (length (undo_spent u)))
     @ concat (map spent_entry_bytes (undo_spent u))
     @ compact_size (of_nat (length (undo_created u))) @ concat (undo_created u)"
proof -
  have a: "foldl (\<lambda>out (key, val). out @ key @ utxo_value_encode val) out es
      = out @ concat (map spent_entry_bytes es)" for out es
    by (induction es arbitrary: out) (auto simp: spent_entry_bytes_def)
  have b: "foldl (\<lambda>out key. out @ key) out ks = out @ concat ks" for out and ks :: "bytes list"
    by (induction ks arbitrary: out) auto
  show ?thesis by (simp add: block_undo_encode_def a b put_varint_compact Let_def)
qed

lemma undo_decode_encode:
  assumes "block_undo_ok u"
  shows "block_undo_decode (block_undo_encode u @ r) = Some u"
proof -
  have n: "unat (of_nat (length (undo_spent u)) :: u64) = length (undo_spent u)"
    "unat (of_nat (length (undo_created u)) :: u64) = length (undo_created u)"
    using assms by (auto simp: block_undo_ok_def intro!: unat_of_nat_less)
  show ?thesis
    using assms sc_created.slice_loop_enc [of "undo_created u" r]
    by (simp add: block_undo_bytes block_undo_decode_def block_undo_ok_def sc_varint.dec_enc n
        sc_spent.slice_loop_enc)
qed

section \<open>Properties\<close>

text \<open>The undo log is lossless: decoding an encoded undo record gives back the record, for
  every record of 36-byte keys and 32-byte address hashes, whatever follows it in the buffer.\<close>

theorem block_undo_roundtrip:
  assumes "block_undo_ok u"
  shows "block_undo_decode (block_undo_encode u @ r) = Some u"
  using assms by (rule undo_decode_encode)

theorem block_undo_roundtrip_witness:
  "let v = \<lparr>u_value_sat = 5000000000, u_script_type = 2, u_height = 170, u_address_hash = zeros 32\<rparr>;
       u = \<lparr>undo_spent = [(zeros 36, v)], undo_created = [replicate 36 7, replicate 36 9]\<rparr>
   in block_undo_ok u \<and> block_undo_decode (block_undo_encode u @ []) = Some u"
proof -
  let ?v = "\<lparr>u_value_sat = 5000000000, u_script_type = 2, u_height = 170,
    u_address_hash = zeros 32\<rparr>"
  let ?u = "\<lparr>undo_spent = [(zeros 36, ?v)], undo_created = [replicate 36 7, replicate 36 9]\<rparr>"
  have "block_undo_ok ?u"
    by (simp add: block_undo_ok_def spent_entry_ok_def utxo_value_ok_def)
  with block_undo_roundtrip [of ?u "[]"] show ?thesis by (simp add: Let_def)
qed

text \<open>A stored UTXO value decodes exactly when it has 45 bytes, and then encoding it again
  gives the stored bytes: no two byte strings of the database denote the same value.\<close>

theorem utxo_value_bijection:
  "(utxo_value_decode b = None \<longleftrightarrow> length b \<noteq> 45)
 \<and> (utxo_value_decode b = Some v \<longleftrightarrow> utxo_value_ok v \<and> utxo_value_encode v = b)"
proof
  show "utxo_value_decode b = None \<longleftrightarrow> length b \<noteq> 45"
    by (simp add: utxo_value_decode_def ENCODED_LEN_def)
  show "utxo_value_decode b = Some v \<longleftrightarrow> utxo_value_ok v \<and> utxo_value_encode v = b"
    using utxo_decode_encode utxo_decode_ok utxo_encode_decode by blast
qed

text \<open>The two compact-size readers of the program, the store's slice reader and the parser's
  cursor, agree on every input: same value and same position on success, failure on the same
  inputs.\<close>

theorem varint_readers_agree:
  "case read_varint (cursor_new b) of
     Inl _ \<Rightarrow> slice_read_varint b = None
   | Inr (v, c) \<Rightarrow> slice_read_varint b = Some (v, drop (c_pos c) b)"
proof (cases b)
  case Nil
  then show ?thesis by (simp add: read_varint_def reader_defs cursor_new_def)
next
  case (Cons first r)
  then show ?thesis
    by (simp add: read_varint_def reader_defs cursor_new_def subslice_def del: add_2_eq_Suc')
qed

end
