(* ===== verification/Store_Cache.thy ===== *)
theory Store_Cache
  imports Store_Codec
begin

text \<open>
  \<open>RecentUtxoCache\<close> of \<open>bidx-store/src/utxo.rs\<close>: the bounded in-memory cache of recently
  created outputs. The \<open>FxHashMap\<close> is an association list used only through insertion,
  removal, lookup and size; the \<open>VecDeque\<close> of creation order is a list with its front first.
  The hit and miss counters are 64-bit.

  \<open>cache_ok\<close> is the invariant: distinct resident keys, each queued for eviction, and at most
  the budget's worth of entries.
\<close>

definition CACHE_ENTRY_COST :: nat where
  "CACHE_ENTRY_COST = 112"

record recent_cache =
  rc_map :: "(bytes \<times> utxo_value) list"
  rc_order :: "bytes list"
  rc_budget :: nat
  rc_hits :: u64
  rc_misses :: u64

definition cache_new :: "nat \<Rightarrow> recent_cache" where
  "cache_new budget = \<lparr>rc_map = [], rc_order = [], rc_budget = budget, rc_hits = 0, rc_misses = 0\<rparr>"

text \<open>The eviction loop, by recursion on the creation queue it pops.\<close>

fun evict_loop :: "nat \<Rightarrow> bytes list \<Rightarrow> (bytes \<times> utxo_value) list
    \<Rightarrow> (bytes \<times> utxo_value) list \<times> bytes list" where
  "evict_loop budget [] m = (m, [])"
| "evict_loop budget (k # ks) m =
    (if budget < length m * CACHE_ENTRY_COST then evict_loop budget ks (AList.delete k m)
     else (m, k # ks))"

definition evict_to_budget :: "recent_cache \<Rightarrow> recent_cache" where
  "evict_to_budget c =
    (let (m, q) = evict_loop (rc_budget c) (rc_order c) (rc_map c)
     in c\<lparr>rc_map := m, rc_order := q\<rparr>)"

definition cache_insert :: "bytes \<Rightarrow> utxo_value \<Rightarrow> recent_cache \<Rightarrow> recent_cache" where
  "cache_insert key val c =
    (let old = map_of (rc_map c) key;
         c = c\<lparr>rc_map := AList.update key val (rc_map c)\<rparr>
     in if old = None then evict_to_budget (c\<lparr>rc_order := rc_order c @ [key]\<rparr>) else c)"

definition cache_remove :: "bytes \<Rightarrow> recent_cache \<Rightarrow> utxo_value option \<times> recent_cache" where
  "cache_remove key c =
    (case map_of (rc_map c) key of
       Some v \<Rightarrow> (Some v, c\<lparr>rc_map := AList.delete key (rc_map c), rc_hits := rc_hits c + 1\<rparr>)
     | None \<Rightarrow> (None, c\<lparr>rc_misses := rc_misses c + 1\<rparr>))"

definition cache_len :: "recent_cache \<Rightarrow> nat" where
  "cache_len c = length (rc_map c)"

definition cache_bytes :: "recent_cache \<Rightarrow> nat" where
  "cache_bytes c = length (rc_map c) * CACHE_ENTRY_COST"

definition cache_view :: "recent_cache \<Rightarrow> bytes \<rightharpoonup> utxo_value" where
  "cache_view c = map_of (rc_map c)"

definition cache_ok :: "recent_cache \<Rightarrow> bool" where
  "cache_ok c \<longleftrightarrow> distinct (map fst (rc_map c)) \<and> set (map fst (rc_map c)) \<subseteq> set (rc_order c)
     \<and> length (rc_map c) * CACHE_ENTRY_COST \<le> rc_budget c"

section \<open>Eviction\<close>

lemma delete_keys: "map fst (AList.delete k m) = removeAll k (map fst m)"
  by (induction m) (auto simp: AList.delete_eq)

lemma delete_distinct: "distinct (map fst m) \<Longrightarrow> distinct (map fst (AList.delete k m))"
  by (simp add: delete_keys distinct_removeAll)

lemma evict_loop_view:
  "evict_loop b q m = (m', q') \<Longrightarrow> map_of m' \<subseteq>\<^sub>m map_of m"
proof (induction b q m rule: evict_loop.induct)
  case (1 b m)
  then show ?case by simp
next
  case (2 b k ks m)
  have "map_of (AList.delete k m) \<subseteq>\<^sub>m map_of m"
    by (auto simp: map_le_def AList.delete_conv' split: if_splits)
  with 2 show ?case by (auto split: if_splits dest: map_le_trans)
qed

lemma evict_loop_ok:
  assumes "evict_loop b q m = (m', q')"
    and "distinct (map fst m)" and "set (map fst m) \<subseteq> set q"
  shows "distinct (map fst m') \<and> set (map fst m') \<subseteq> set q' \<and> length m' * CACHE_ENTRY_COST \<le> b"
  using assms
proof (induction b q m rule: evict_loop.induct)
  case (1 b m)
  then show ?case by simp
next
  case (2 b k ks m)
  have "set (map fst (AList.delete k m)) \<subseteq> set ks"
    using 2(4) by (auto simp: delete_keys)
  with 2 show ?case by (auto simp: delete_distinct split: if_splits)
qed

lemma evict_loop_keeps:
  "\<not> b < length m * CACHE_ENTRY_COST \<Longrightarrow> evict_loop b q m = (m, q)"
  by (cases q) simp_all

section \<open>The interface of a bounded cache\<close>

text \<open>
  What a client of the cache may rely on: a removal returns the cached value and forgets it, an
  insertion may evict but never invents a binding, and both keep the invariant. A cache that
  agrees with a backing map keeps agreeing when both are updated.
\<close>

locale bounded_cache =
  fixes ins :: "'k \<Rightarrow> 'v \<Rightarrow> 'c \<Rightarrow> 'c" and rem :: "'k \<Rightarrow> 'c \<Rightarrow> 'v option \<times> 'c"
    and view :: "'c \<Rightarrow> 'k \<rightharpoonup> 'v" and ok :: "'c \<Rightarrow> bool"
  assumes ins_ok: "ok c \<Longrightarrow> ok (ins k v c)"
    and rem_ok: "ok c \<Longrightarrow> ok (snd (rem k c))"
    and ins_view: "view (ins k v c) \<subseteq>\<^sub>m (view c)(k \<mapsto> v)"
    and rem_result: "fst (rem k c) = view c k"
    and rem_view: "view (snd (rem k c)) = (view c)(k := None)"
begin

lemma fold_ins_ok: "ok c \<Longrightarrow> ok (fold (\<lambda>(k, v). ins k v) kvs c)"
  by (induction kvs arbitrary: c) (auto simp: ins_ok)

lemma fold_ins_coherent:
  "view c \<subseteq>\<^sub>m D \<Longrightarrow> view (fold (\<lambda>(k, v). ins k v) kvs c) \<subseteq>\<^sub>m D ++ map_of (rev kvs)"
proof (induction kvs arbitrary: c D)
  case Nil
  then show ?case by simp
next
  case (Cons kv kvs)
  obtain k v where kv: "kv = (k, v)" by fastforce
  have a: "view (ins k v c) \<subseteq>\<^sub>m D(k \<mapsto> v)"
    using ins_view [of k v c] Cons.prems by (meson map_le_trans map_le_upd)
  moreover have "D ++ map_of (rev (kv # kvs)) = D(k \<mapsto> v) ++ map_of (rev kvs)"
    by (simp add: kv)
  moreover have "fold (\<lambda>(k, v). ins k v) (kv # kvs) c = fold (\<lambda>(k, v). ins k v) kvs (ins k v c)"
    by (simp add: kv)
  ultimately show ?case using Cons.IH [OF a] by (simp only:)
qed

lemma rem_coherent: "view c \<subseteq>\<^sub>m D \<Longrightarrow> view (snd (rem k c)) \<subseteq>\<^sub>m D(k := None)"
  by (simp add: rem_view map_le_def)

end

lemma evict_ok:
  assumes "distinct (map fst (rc_map c))" and "set (map fst (rc_map c)) \<subseteq> set (rc_order c)"
  shows "cache_ok (evict_to_budget c)"
proof -
  obtain m q where e: "evict_loop (rc_budget c) (rc_order c) (rc_map c) = (m, q)" by fastforce
  from evict_loop_ok [OF e assms] show ?thesis
    by (simp add: evict_to_budget_def e cache_ok_def)
qed

lemma evict_view: "cache_view (evict_to_budget c) \<subseteq>\<^sub>m cache_view c"
proof -
  obtain m q where e: "evict_loop (rc_budget c) (rc_order c) (rc_map c) = (m, q)" by fastforce
  from evict_loop_view [OF e] show ?thesis
    by (simp add: evict_to_budget_def e cache_view_def)
qed

lemma length_update_old: "map_of m k \<noteq> None \<Longrightarrow> length (AList.update k v m) = length m"
  by (induction m) auto

lemma cache_insert_ok:
  assumes "cache_ok c"
  shows "cache_ok (cache_insert k v c)"
proof (cases "map_of (rc_map c) k = None")
  case True
  have "set (map fst (AList.update k v (rc_map c))) \<subseteq> set (rc_order c @ [k])"
    using assms by (auto simp: cache_ok_def AList.dom_update image_iff dest: subsetD)
  moreover have "distinct (map fst (AList.update k v (rc_map c)))"
    using assms by (simp add: cache_ok_def AList.distinct_update)
  ultimately have "cache_ok (evict_to_budget
      (c\<lparr>rc_map := AList.update k v (rc_map c), rc_order := rc_order c @ [k]\<rparr>))"
    by (intro evict_ok) simp_all
  with True show ?thesis by (simp add: cache_insert_def)
next
  case False
  have "set (map fst (AList.update k v (rc_map c))) = set (map fst (rc_map c))"
    using False by (auto simp: AList.dom_update map_of_eq_None_iff)
  with False assms show ?thesis
    by (simp add: cache_insert_def cache_ok_def AList.distinct_update length_update_old del: not_None_eq)
qed

lemma cache_insert_view: "cache_view (cache_insert k v c) \<subseteq>\<^sub>m (cache_view c)(k \<mapsto> v)"
proof (cases "map_of (rc_map c) k = None")
  case True
  have "cache_view (evict_to_budget (c\<lparr>rc_map := AList.update k v (rc_map c), rc_order := q\<rparr>))
      \<subseteq>\<^sub>m (cache_view c)(k \<mapsto> v)" for q
    using evict_view [of "c\<lparr>rc_map := AList.update k v (rc_map c), rc_order := q\<rparr>"]
    by (simp add: cache_view_def AList.update_conv')
  with True show ?thesis by (simp add: cache_insert_def Let_def)
next
  case False
  then show ?thesis by (auto simp: cache_insert_def cache_view_def AList.update_conv')
qed

lemma cache_remove_fst: "fst (cache_remove k c) = cache_view c k"
  by (simp add: cache_remove_def cache_view_def split: option.splits)

lemma cache_remove_view: "cache_view (snd (cache_remove k c)) = (cache_view c)(k := None)"
  by (auto simp: cache_remove_def cache_view_def AList.delete_conv' fun_eq_iff split: option.splits)

lemma cache_remove_ok:
  assumes "cache_ok c"
  shows "cache_ok (snd (cache_remove k c))"
proof -
  have "length (AList.delete k (rc_map c)) \<le> length (rc_map c)"
    by (simp add: AList.delete_eq)
  then have "length (AList.delete k (rc_map c)) * CACHE_ENTRY_COST \<le> rc_budget c"
    using assms by (metis cache_ok_def le_trans mult_le_mono1)
  moreover have "set (map fst (AList.delete k (rc_map c))) \<subseteq> set (rc_order c)"
    using assms by (auto simp only: delete_keys cache_ok_def set_removeAll)
  ultimately show ?thesis
    using assms
    by (auto simp: cache_remove_def cache_ok_def delete_distinct split: option.splits)
qed

interpretation rc: bounded_cache cache_insert cache_remove cache_view cache_ok
  by unfold_locales
    (simp_all add: cache_insert_ok cache_remove_ok cache_insert_view cache_remove_fst
      cache_remove_view)

lemma cache_new_ok: "cache_ok (cache_new b)"
  by (simp add: cache_new_def cache_ok_def)

section \<open>Properties\<close>

text \<open>
  The cache as the store uses it: any sequence of insertions and removals from an empty cache.
\<close>

datatype cache_op = CInsert bytes utxo_value | CRemove bytes

fun cache_run :: "cache_op list \<Rightarrow> recent_cache \<Rightarrow> recent_cache" where
  "cache_run [] c = c"
| "cache_run (CInsert k v # ops) c = cache_run ops (cache_insert k v c)"
| "cache_run (CRemove k # ops) c = cache_run ops (snd (cache_remove k c))"

text \<open>The last value inserted for a key and not removed since.\<close>

fun latest :: "cache_op list \<Rightarrow> (bytes \<rightharpoonup> utxo_value) \<Rightarrow> bytes \<rightharpoonup> utxo_value" where
  "latest [] m = m"
| "latest (CInsert k v # ops) m = latest ops (m(k \<mapsto> v))"
| "latest (CRemove k # ops) m = latest ops (m(k := None))"

lemma cache_run_ok: "cache_ok c \<Longrightarrow> cache_ok (cache_run ops c)"
  by (induction ops c rule: cache_run.induct) (simp_all add: rc.ins_ok rc.rem_ok)

lemma cache_run_budget: "rc_budget (cache_run ops c) = rc_budget c"
  by (induction ops c rule: cache_run.induct)
    (auto simp: cache_insert_def cache_remove_def evict_to_budget_def Let_def
      split: option.splits prod.splits)

lemma cache_run_latest:
  "cache_view c \<subseteq>\<^sub>m m \<Longrightarrow> cache_view (cache_run ops c) \<subseteq>\<^sub>m latest ops m"
proof (induction ops c arbitrary: m rule: cache_run.induct)
  case (1 c)
  then show ?case by simp
next
  case (2 k v ops c)
  then show ?case using rc.ins_view [of k v c] by (auto dest: map_le_trans map_le_upd)
next
  case (3 k ops c)
  show ?case using 3(1) [OF rc.rem_coherent [OF 3(2)]] by (simp only: latest.simps cache_run.simps)
qed

text \<open>C30. Whatever sequence of insertions and removals the store performs, the cache's resident
  entries stay within the configured budget, its keys are distinct, and a cached value is the
  last one inserted for its key and not yet removed: the cache never serves a stale value.\<close>

theorem cache_bounded_and_fresh:
  "cache_bytes (cache_run ops (cache_new budget)) \<le> budget
 \<and> distinct (map fst (rc_map (cache_run ops (cache_new budget))))
 \<and> cache_view (cache_run ops (cache_new budget)) \<subseteq>\<^sub>m latest ops Map.empty"
proof -
  have "cache_ok (cache_run ops (cache_new budget))"
    by (intro cache_run_ok cache_new_ok)
  moreover have "rc_budget (cache_run ops (cache_new budget)) = budget"
    by (simp add: cache_run_budget) (simp add: cache_new_def)
  moreover have "cache_view (cache_run ops (cache_new budget)) \<subseteq>\<^sub>m latest ops Map.empty"
    by (rule cache_run_latest) (simp add: cache_new_def cache_view_def)
  ultimately show ?thesis by (simp add: cache_ok_def cache_bytes_def)
qed

text \<open>Each output is created and then spent while resident.\<close>

definition churn :: "utxo_value \<Rightarrow> bytes list \<Rightarrow> cache_op list" where
  "churn v ks = concat (map (\<lambda>k. [CInsert k v, CRemove k]) ks)"

lemma cache_churn:
  assumes "CACHE_ENTRY_COST \<le> rc_budget c" and "rc_map c = []"
  shows "rc_map (cache_run (churn v ks) c) = []
     \<and> rc_order (cache_run (churn v ks) c) = rc_order c @ ks"
  using assms
proof (induction ks arbitrary: c)
  case Nil
  then show ?case by (simp add: churn_def)
next
  case (Cons k ks)
  let ?c1 = "c\<lparr>rc_map := [(k, v)], rc_order := rc_order c @ [k]\<rparr>"
  have "evict_to_budget ?c1 = ?c1"
    using Cons.prems by (simp add: evict_to_budget_def evict_loop_keeps)
  then have step: "cache_insert k v c = ?c1" using Cons.prems by (simp add: cache_insert_def)
  have "snd (cache_remove k ?c1) = ?c1\<lparr>rc_map := [], rc_hits := rc_hits c + 1\<rparr>"
    by (simp add: cache_remove_def)
  with Cons.IH [of "?c1\<lparr>rc_map := [], rc_hits := rc_hits c + 1\<rparr>"] Cons.prems show ?case
    by (simp add: churn_def step)
qed

text \<open>C31. The budget does not bound the creation queue: a removal leaves its key in \<open>order\<close>,
  and eviction only pops while the resident entries exceed the budget, so a workload in which
  every output is spent while still cached leaves an empty map and one queued key per output
  ever created.\<close>

theorem cache_order_unbounded:
  assumes "CACHE_ENTRY_COST \<le> budget"
  shows "cache_bytes (cache_run (churn v ks) (cache_new budget)) = 0
     \<and> length (rc_order (cache_run (churn v ks) (cache_new budget))) = length ks"
  using cache_churn [of "cache_new budget" v ks] assms
  by (simp add: cache_bytes_def) (simp add: cache_new_def)

theorem cache_order_unbounded_witness:
  "CACHE_ENTRY_COST \<le> (224 :: nat)
   \<and> length (rc_order (cache_run (churn \<lparr>u_value_sat = 1, u_script_type = 0, u_height = 0,
       u_address_hash = zeros 32\<rparr> (replicate 1000 [])) (cache_new 224))) = 1000"
proof -
  have b: "CACHE_ENTRY_COST \<le> (224 :: nat)" by (simp add: CACHE_ENTRY_COST_def)
  from cache_order_unbounded [OF b, of "\<lparr>u_value_sat = 1, u_script_type = 0, u_height = 0,
       u_address_hash = zeros 32\<rparr>" "replicate 1000 []"] b
  show ?thesis by simp
qed

end
