(* ===== verification/Store_Rocks.thy ===== *)
theory Store_Rocks
  imports Prelude
begin

text \<open>
  RocksDB as the store uses it. The database is a third-party library: its handle type \<open>'db\<close>
  and its operations are a parameter, the record \<open>rocks\<close>. What the store relies on is the
  interface \<open>rocks_sound\<close>: a read that succeeds returns the stored bytes, a write that succeeds
  applies its whole batch in order. Either may fail with an error and then, for a write, nothing
  has been applied. \<open>rocks_total\<close> adds that nothing fails. The interface is interpreted on an
  in-memory database.
\<close>

datatype cf = CF_DEFAULT | CF_UNDO | CF_META

datatype batch_op = BPut cf bytes bytes | BDelete cf bytes

record write_options =
  wo_sync :: bool
  wo_disable_wal :: bool

definition write_options_default :: write_options where
  "write_options_default = \<lparr>wo_sync = False, wo_disable_wal = False\<rparr>"

type_synonym rocks_error = string

record 'db rocks =
  r_get :: "'db \<Rightarrow> cf \<Rightarrow> bytes \<Rightarrow> rocks_error + bytes option"
  r_write :: "'db \<Rightarrow> batch_op list \<Rightarrow> write_options \<Rightarrow> rocks_error + 'db"

type_synonym db_view = "cf \<Rightarrow> bytes \<rightharpoonup> bytes"

fun apply_op :: "batch_op \<Rightarrow> db_view \<Rightarrow> db_view" where
  "apply_op (BPut c k v) m = m(c := (m c)(k \<mapsto> v))"
| "apply_op (BDelete c k) m = m(c := (m c)(k := None))"

definition apply_ops :: "batch_op list \<Rightarrow> db_view \<Rightarrow> db_view" where
  "apply_ops ops m = fold apply_op ops m"

locale rocks_sound =
  fixes R :: "'db rocks" and view :: "'db \<Rightarrow> db_view"
  assumes get_sound: "r_get R db c k = Inr v \<Longrightarrow> v = view db c k"
    and write_sound: "r_write R db ops wo = Inr db' \<Longrightarrow> view db' = apply_ops ops (view db)"

locale rocks_total = rocks_sound +
  assumes get_total: "\<exists>v. r_get R db c k = Inr v"
    and write_total: "\<exists>db'. r_write R db ops wo = Inr db'"
begin

lemma get_view: "r_get R db c k = Inr (view db c k)"
  using get_total [of db c k] get_sound by metis

end

section \<open>Batches\<close>

lemma apply_ops_Nil [simp]: "apply_ops [] m = m"
  by (simp add: apply_ops_def)

lemma apply_ops_Cons [simp]: "apply_ops (x # ops) m = apply_ops ops (apply_op x m)"
  by (simp add: apply_ops_def)

lemma apply_ops_append [simp]: "apply_ops (xs @ ys) m = apply_ops ys (apply_ops xs m)"
  by (simp add: apply_ops_def)

lemma apply_deletes_at:
  "apply_ops (map (BDelete c) ks) m d k = (if d = c \<and> k \<in> set ks then None else m d k)"
  by (induction ks arbitrary: m) auto

lemma apply_puts_at:
  "apply_ops (map (\<lambda>(k, v). BPut c k v) kvs) m d =
     (if d = c then m c ++ map_of (rev kvs) else m d)"
proof (induction kvs arbitrary: m)
  case Nil
  then show ?case by simp
next
  case (Cons kv kvs)
  obtain k v where kv: "kv = (k, v)" by fastforce
  show ?case
    using Cons [of "m(c := (m c)(k \<mapsto> v))"] by (simp add: kv del: fun_upd_apply) simp
qed

section \<open>An in-memory database\<close>

definition map_rocks :: "db_view rocks" where
  "map_rocks = \<lparr>r_get = (\<lambda>db c k. Inr (db c k)), r_write = (\<lambda>db ops wo. Inr (apply_ops ops db))\<rparr>"

interpretation mr: rocks_total map_rocks "\<lambda>db. db"
  by unfold_locales (simp_all add: map_rocks_def)

end
