(* ===== verification/Store_Utxo.thy ===== *)
theory Store_Utxo
  imports Store_Cache Store_Rocks Core_Types Core_Text "HOL-Library.Multiset"
begin

text \<open>
  \<open>UtxoStore\<close> of \<open>bidx-store/src/utxo.rs\<close>: applying a block to the UTXO set, the undo
  record, disconnecting a block, and the persisted tip.

  \<open>pending\<close> is an association list; the order in which \<open>pending.iter()\<close> and
  \<open>pending.drain()\<close> visit a hash map is the parameter \<open>it\<close>, a permutation of the entries. Indexing
  \<open>fees\<close> out of range panics in the source; here it is the error \<open>IndexPanic\<close>. An operation
  that returns an error leaves the database as it was: its only write is its last step. The
  wall-clock field \<open>db_nanos\<close> is left out.
\<close>

datatype utxo_error =
    Rocks rocks_error
  | NoUndo u32
  | CorruptUndo u32
  | NoTip
  | IndexPanic nat

definition META_TIP_KEY :: bytes where
  "META_TIP_KEY = [0x74, 0x69, 0x70]"

record 'db utxo_store =
  st_db :: 'db
  st_path :: path
  st_pending :: "(bytes \<times> utxo_value) list"
  st_recent :: "recent_cache option"
  st_undo_enabled :: bool
  st_statistics :: bool

record spend_result =
  sr_spends :: "spend_row list"
  sr_fees :: "u64 list"
  sr_missing :: u64
  sr_db_lookups :: u64
  sr_pending_hits :: u64
  sr_cache_hits :: u64

record tip_state =
  tip_st_height :: u32
  tip_st_hash :: hash32

record cache_stats_row =
  cs_entries :: nat
  cs_bytes :: nat
  cs_budget_bytes :: nat
  cs_hits :: u64
  cs_misses :: u64

type_synonym hm_iter = "(bytes \<times> utxo_value) list \<Rightarrow> (bytes \<times> utxo_value) list"

text \<open>The local variables of \<open>apply_block\<close>.\<close>

record apply_locals =
  a_pending :: "(bytes \<times> utxo_value) list"
  a_recent :: "recent_cache option"
  a_batch :: "batch_op list"
  a_spends :: "spend_row list"
  a_fees :: "u64 list"
  a_missing :: u64
  a_undo :: block_undo
  a_same_block :: "bytes set"
  a_db_lookups :: u64
  a_pending_hits :: u64
  a_cache_hits :: u64

definition out_value :: "u32 \<Rightarrow> output_row \<Rightarrow> utxo_value" where
  "out_value height out = \<lparr>u_value_sat = o_value_sat out, u_script_type = o_script_type out,
     u_height = height, u_address_hash = o_address_hash out\<rparr>"

definition out_key :: "output_row \<Rightarrow> bytes" where
  "out_key out = make_key (o_txid out) (o_output_index out)"

definition in_key :: "input_row \<Rightarrow> bytes" where
  "in_key inp = make_key (i_prev_txid inp) (i_prev_vout inp)"

definition record_spend :: "u32 \<Rightarrow> input_row \<Rightarrow> utxo_value \<Rightarrow> apply_locals
    \<Rightarrow> utxo_error + apply_locals" where
  "record_spend height inp v s =
    (let row = \<lparr>s_height = height, s_spending_tx_index = i_tx_index inp,
           s_spending_input_index = i_input_index inp, s_spending_txid = i_txid inp,
           s_spent_txid = i_prev_txid inp, s_spent_vout = i_prev_vout inp,
           s_spent_value_sat = u_value_sat v, s_spent_script_type = u_script_type v,
           s_spent_address_hash = u_address_hash v, s_spent_height = u_height v\<rparr>;
         s = s\<lparr>a_spends := a_spends s @ [row]\<rparr>;
         i = unat (i_tx_index inp)
     in if i < length (a_fees s)
        then Inr (s\<lparr>a_fees := (a_fees s)[i := saturating_add (a_fees s ! i) (u_value_sat v)]\<rparr>)
        else Inl (IndexPanic i))"

definition seed_output :: "bool \<Rightarrow> u32 \<Rightarrow> output_row \<Rightarrow> apply_locals \<Rightarrow> apply_locals" where
  "seed_output undo_enabled height out s =
    (let key = out_key out;
         s = s\<lparr>a_pending := AList.update key (out_value height out) (a_pending s)\<rparr>
     in if undo_enabled
        then s\<lparr>a_undo := (a_undo s)\<lparr>undo_created := undo_created (a_undo s) @ [key]\<rparr>\<rparr>
        else s)"

definition spend_from_db :: "'db rocks \<Rightarrow> 'db \<Rightarrow> bool \<Rightarrow> u32 \<Rightarrow> input_row \<Rightarrow> apply_locals
    \<Rightarrow> utxo_error + apply_locals" where
  "spend_from_db R db undo_enabled height inp s =
    (let key = in_key inp; s = s\<lparr>a_db_lookups := a_db_lookups s + 1\<rparr> in
     res_bind (map_err Rocks (r_get R db CF_DEFAULT key)) (\<lambda>got.
     case got of
       Some b \<Rightarrow>
         (case utxo_value_decode b of
            Some v \<Rightarrow>
              let s = s\<lparr>a_batch := a_batch s @ [BDelete CF_DEFAULT key]\<rparr>;
                  s = (if undo_enabled
                       then s\<lparr>a_undo := (a_undo s)\<lparr>undo_spent := undo_spent (a_undo s) @ [(key, v)]\<rparr>\<rparr>
                       else s)
              in record_spend height inp v s
          | None \<Rightarrow> Inr (s\<lparr>a_missing := a_missing s + 1\<rparr>))
     | None \<Rightarrow> Inr (s\<lparr>a_missing := a_missing s + 1\<rparr>)))"

definition apply_input :: "'db rocks \<Rightarrow> 'db \<Rightarrow> bool \<Rightarrow> u32 \<Rightarrow> input_row \<Rightarrow> apply_locals
    \<Rightarrow> utxo_error + apply_locals" where
  "apply_input R db undo_enabled height inp s =
    (if i_is_coinbase inp then Inr s
     else let key = in_key inp in
     case map_of (a_pending s) key of
       Some v \<Rightarrow>
         let s = s\<lparr>a_pending := AList.delete key (a_pending s)\<rparr>;
             s = (if undo_enabled then s\<lparr>a_same_block := insert key (a_same_block s)\<rparr> else s);
             s = s\<lparr>a_pending_hits := a_pending_hits s + 1\<rparr>
         in record_spend height inp v s
     | None \<Rightarrow>
         (case a_recent s of
            Some cache \<Rightarrow>
              (case cache_remove key cache of
                 (Some v, cache') \<Rightarrow>
                   record_spend height inp v
                     (s\<lparr>a_recent := Some cache', a_cache_hits := a_cache_hits s + 1,
                        a_batch := a_batch s @ [BDelete CF_DEFAULT key]\<rparr>)
               | (None, cache') \<Rightarrow>
                   spend_from_db R db undo_enabled height inp (s\<lparr>a_recent := Some cache'\<rparr>))
          | None \<Rightarrow> spend_from_db R db undo_enabled height inp s))"

definition charge_output :: "output_row \<Rightarrow> u64 list \<Rightarrow> utxo_error + u64 list" where
  "charge_output out fees =
    (let i = unat (o_tx_index out) in
     if i < length fees then Inr (fees[i := saturating_sub (fees ! i) (o_value_sat out)])
     else Inl (IndexPanic i))"

definition block_write_options :: "bool \<Rightarrow> write_options" where
  "block_write_options undo_enabled =
    (if undo_enabled then write_options_default\<lparr>wo_sync := True\<rparr>
     else write_options_default\<lparr>wo_disable_wal := True\<rparr>)"

definition apply_locals_init :: "recent_cache option \<Rightarrow> nat \<Rightarrow> apply_locals" where
  "apply_locals_init recent n =
     \<lparr>a_pending = [], a_recent = recent, a_batch = [], a_spends = [], a_fees = replicate n 0,
      a_missing = 0, a_undo = \<lparr>undo_spent = [], undo_created = []\<rparr>, a_same_block = {},
      a_db_lookups = 0, a_pending_hits = 0, a_cache_hits = 0\<rparr>"

definition apply_block :: "'db rocks \<Rightarrow> hm_iter \<Rightarrow> u32 \<Rightarrow> tx_row list \<Rightarrow> input_row list
    \<Rightarrow> output_row list \<Rightarrow> 'db utxo_store \<Rightarrow> utxo_error + (spend_result \<times> 'db utxo_store)" where
  "apply_block R it height txs inputs outputs st =
    (let undo_on = st_undo_enabled st;
         s = apply_locals_init (st_recent st) (length txs);
         s = fold (seed_output undo_on height) outputs s
     in res_bind (res_fold (apply_input R (st_db st) undo_on height) inputs s) (\<lambda>s.
     let recent = map_option (\<lambda>c. fold (\<lambda>(k, v). cache_insert k v) (it (a_pending s)) c) (a_recent s);
         undo = (if undo_on \<and> a_same_block s \<noteq> {}
                 then (a_undo s)\<lparr>undo_created :=
                        filter (\<lambda>k. k \<notin> a_same_block s) (undo_created (a_undo s))\<rparr>
                 else a_undo s)
     in res_bind (res_fold charge_output outputs (a_fees s)) (\<lambda>fees.
     let batch = a_batch s
           @ map (\<lambda>(key, val). BPut CF_DEFAULT key (utxo_value_encode val)) (it (a_pending s))
           @ (if undo_on then [BPut CF_UNDO (undo_key height) (block_undo_encode undo)] else [])
     in res_bind (map_err Rocks (r_write R (st_db st) batch (block_write_options undo_on))) (\<lambda>db'.
     Inr (\<lparr>sr_spends = a_spends s, sr_fees = fees, sr_missing = a_missing s,
           sr_db_lookups = a_db_lookups s, sr_pending_hits = a_pending_hits s,
           sr_cache_hits = a_cache_hits s\<rparr>,
          st\<lparr>st_db := db', st_pending := [], st_recent := recent\<rparr>)))))"

definition disconnect_block :: "'db rocks \<Rightarrow> u32 \<Rightarrow> 'db utxo_store \<Rightarrow> utxo_error + 'db utxo_store" where
  "disconnect_block R height st =
    res_bind (map_err Rocks (r_get R (st_db st) CF_UNDO (undo_key height))) (\<lambda>got.
    res_bind (ok_or got (NoUndo height)) (\<lambda>raw.
    res_bind (ok_or (block_undo_decode raw) (CorruptUndo height)) (\<lambda>undo.
    let batch = map (\<lambda>(key, val). BPut CF_DEFAULT key (utxo_value_encode val)) (undo_spent undo)
          @ map (BDelete CF_DEFAULT) (undo_created undo)
          @ [BDelete CF_UNDO (undo_key height)];
        wo = write_options_default\<lparr>wo_sync := True\<rparr>
    in res_bind (map_err Rocks (r_write R (st_db st) batch wo)) (\<lambda>db'.
    Inr (st\<lparr>st_db := db'\<rparr>)))))"

definition set_tip :: "'db rocks \<Rightarrow> tip_state \<Rightarrow> 'db utxo_store \<Rightarrow> utxo_error + 'db utxo_store" where
  "set_tip R tip st =
    (let b = to_le (tip_st_height tip) @ as_bytes (tip_st_hash tip);
         wo = write_options_default\<lparr>wo_sync := True\<rparr>
     in res_bind (map_err Rocks (r_write R (st_db st) [BPut CF_META META_TIP_KEY b] wo)) (\<lambda>db'.
     Inr (st\<lparr>st_db := db'\<rparr>)))"

definition store_tip :: "'db rocks \<Rightarrow> 'db utxo_store \<Rightarrow> utxo_error + tip_state option" where
  "store_tip R st =
    res_bind (map_err Rocks (r_get R (st_db st) CF_META META_TIP_KEY)) (\<lambda>got.
    case got of
      Some b \<Rightarrow>
        if length b = 36
        then Inr (Some \<lparr>tip_st_height = from_le (take 4 b), tip_st_hash = Hash32_from_bytes (drop 4 b)\<rparr>)
        else Inr None
    | None \<Rightarrow> Inr None)"

definition cache_stats :: "'db utxo_store \<Rightarrow> cache_stats_row option" where
  "cache_stats st =
    map_option (\<lambda>c. \<lparr>cs_entries = cache_len c, cs_bytes = cache_bytes c, cs_budget_bytes = rc_budget c,
      cs_hits = rc_hits c, cs_misses = rc_misses c\<rparr>) (st_recent st)"

section \<open>The reference: resolving a block's inputs\<close>

text \<open>
  An input is resolved against the outputs of its own block not yet spent (\<open>P\<close>), then against
  the UTXO set before the block (\<open>D\<close>).
\<close>

datatype resolution = InBlock utxo_value | InStore utxo_value | NotFound

definition resolve1 :: "(bytes \<rightharpoonup> utxo_value) \<Rightarrow> (bytes \<rightharpoonup> utxo_value) \<Rightarrow> bytes \<Rightarrow> resolution" where
  "resolve1 P D k =
    (case P k of Some v \<Rightarrow> InBlock v
     | None \<Rightarrow> (case D k of Some v \<Rightarrow> InStore v | None \<Rightarrow> NotFound))"

fun resolve :: "(bytes \<rightharpoonup> utxo_value) \<Rightarrow> (bytes \<rightharpoonup> utxo_value) \<Rightarrow> input_row list
    \<Rightarrow> (input_row \<times> resolution) list" where
  "resolve P D [] = []"
| "resolve P D (i # is) =
    (if i_is_coinbase i then resolve P D is
     else (i, resolve1 P D (in_key i)) # resolve (P(in_key i := None)) D is)"

fun spent_value :: "resolution \<Rightarrow> utxo_value option" where
  "spent_value (InBlock v) = Some v"
| "spent_value (InStore v) = Some v"
| "spent_value NotFound = None"

definition spend_row_of :: "u32 \<Rightarrow> input_row \<Rightarrow> utxo_value \<Rightarrow> spend_row" where
  "spend_row_of height inp v = \<lparr>s_height = height, s_spending_tx_index = i_tx_index inp,
     s_spending_input_index = i_input_index inp, s_spending_txid = i_txid inp,
     s_spent_txid = i_prev_txid inp, s_spent_vout = i_prev_vout inp,
     s_spent_value_sat = u_value_sat v, s_spent_script_type = u_script_type v,
     s_spent_address_hash = u_address_hash v, s_spent_height = u_height v\<rparr>"

fun spend_rows :: "u32 \<Rightarrow> (input_row \<times> resolution) list \<Rightarrow> spend_row list" where
  "spend_rows h [] = []"
| "spend_rows h ((i, r) # rs) =
    (case spent_value r of None \<Rightarrow> spend_rows h rs | Some v \<Rightarrow> spend_row_of h i v # spend_rows h rs)"

fun credit :: "(input_row \<times> resolution) list \<Rightarrow> u64 list \<Rightarrow> u64 list" where
  "credit [] fees = fees"
| "credit ((i, r) # rs) fees =
    (case spent_value r of None \<Rightarrow> credit rs fees
     | Some v \<Rightarrow> credit rs (fees[unat (i_tx_index i) :=
         saturating_add (fees ! unat (i_tx_index i)) (u_value_sat v)]))"

fun store_entries :: "(input_row \<times> resolution) list \<Rightarrow> (bytes \<times> utxo_value) list" where
  "store_entries [] = []"
| "store_entries ((i, InStore v) # rs) = (in_key i, v) # store_entries rs"
| "store_entries ((i, _) # rs) = store_entries rs"

fun block_keys :: "(input_row \<times> resolution) list \<Rightarrow> bytes list" where
  "block_keys [] = []"
| "block_keys ((i, InBlock v) # rs) = in_key i # block_keys rs"
| "block_keys ((i, _) # rs) = block_keys rs"

definition not_found :: "(input_row \<times> resolution) list \<Rightarrow> nat" where
  "not_found rs = length (filter (\<lambda>(i, r). r = NotFound) rs)"

definition lookups :: "apply_locals \<Rightarrow> u64" where
  "lookups s = a_pending_hits s + a_db_lookups s + a_cache_hits s"

text \<open>What resolving the inputs \<open>rs\<close> does to the local variables.\<close>

definition input_effect :: "bool \<Rightarrow> u32 \<Rightarrow> (input_row \<times> resolution) list \<Rightarrow> apply_locals
    \<Rightarrow> apply_locals \<Rightarrow> bool" where
  "input_effect undo_on h rs s s' \<longleftrightarrow>
     a_spends s' = a_spends s @ spend_rows h rs
   \<and> a_fees s' = credit rs (a_fees s)
   \<and> a_missing s' = a_missing s + of_nat (not_found rs)
   \<and> a_batch s' = a_batch s @ map (BDelete CF_DEFAULT) (map fst (store_entries rs))
   \<and> a_pending_hits s' = a_pending_hits s + of_nat (length (block_keys rs))
   \<and> lookups s' = lookups s + of_nat (length rs)
   \<and> undo_created (a_undo s') = undo_created (a_undo s)
   \<and> a_same_block s' = a_same_block s \<union> (if undo_on then set (block_keys rs) else {})
   \<and> (a_recent s = None \<longrightarrow> a_recent s' = None \<and> a_cache_hits s' = a_cache_hits s
        \<and> undo_spent (a_undo s') = undo_spent (a_undo s) @ (if undo_on then store_entries rs else []))"

lemma spend_rows_append: "spend_rows h (rs @ rs') = spend_rows h rs @ spend_rows h rs'"
  by (induction rs) (auto split: option.splits)

lemma input_effect_Nil [simp]: "input_effect u h [] s s"
  by (simp add: input_effect_def not_found_def)

lemma input_effect_Cons:
  assumes "input_effect u h [(i, r)] s t" and "input_effect u h rs t s'"
  shows "input_effect u h ((i, r) # rs) s s'"
  using assms unfolding input_effect_def
  by (cases r) (auto simp: not_found_def)

section \<open>One input\<close>

definition utxos :: "db_view \<Rightarrow> bytes \<rightharpoonup> utxo_value" where
  "utxos m k = Option.bind (m CF_DEFAULT k) utxo_value_decode"

definition coherent :: "(bytes \<rightharpoonup> utxo_value) \<Rightarrow> recent_cache option \<Rightarrow> bool" where
  "coherent D rc \<longleftrightarrow> (case rc of None \<Rightarrow> True | Some c \<Rightarrow> cache_ok c \<and> cache_view c \<subseteq>\<^sub>m D)"

definition forgets :: "bytes \<Rightarrow> recent_cache option \<Rightarrow> bool" where
  "forgets k rc \<longleftrightarrow> (case rc of None \<Rightarrow> True | Some c \<Rightarrow> cache_view c k = None)"

definition spent_keys :: "input_row list \<Rightarrow> bytes set" where
  "spent_keys inputs = in_key ` {i \<in> set inputs. \<not> i_is_coinbase i}"

lemma spent_keys_simps [simp]:
  "spent_keys [] = {}"
  "spent_keys (i # is) = (if i_is_coinbase i then spent_keys is else insert (in_key i) (spent_keys is))"
  by (auto simp: spent_keys_def)

lemma record_spend_Inr:
  "record_spend h inp v s = Inr s' \<longleftrightarrow>
     unat (i_tx_index inp) < length (a_fees s)
   \<and> s' = s\<lparr>a_spends := a_spends s @ [spend_row_of h inp v],
            a_fees := (a_fees s)[unat (i_tx_index inp) :=
              saturating_add (a_fees s ! unat (i_tx_index inp)) (u_value_sat v)]\<rparr>"
  by (auto simp: record_spend_def spend_row_of_def Let_def)

lemmas effect_defs = input_effect_def not_found_def lookups_def resolve1_def

lemma spend_from_db_effect:
  assumes "rocks_sound R view" and "spend_from_db R db u h inp s = Inr s'"
    and "map_of (a_pending s) (in_key inp) = None"
  shows "input_effect u h [(inp, resolve1 (map_of (a_pending s)) (utxos (view db)) (in_key inp))] s s'
     \<and> a_pending s' = a_pending s \<and> a_recent s' = a_recent s"
proof -
  obtain got where "r_get R db CF_DEFAULT (in_key inp) = Inr got"
    using assms(2) by (auto simp: spend_from_db_def Let_def res_simps)
  moreover from this have "got = view db CF_DEFAULT (in_key inp)"
    by (rule rocks_sound.get_sound [OF assms(1)])
  ultimately have g: "r_get R db CF_DEFAULT (in_key inp) = Inr (view db CF_DEFAULT (in_key inp))"
    by simp
  show ?thesis
  proof (cases "utxos (view db) (in_key inp)")
    case None
    then have "s' = s\<lparr>a_db_lookups := a_db_lookups s + 1, a_missing := a_missing s + 1\<rparr>"
      using assms(2) g
      by (auto simp: spend_from_db_def utxos_def Let_def split: option.splits bind_splits)
    with None assms(3) show ?thesis by (simp add: effect_defs)
  next
    case (Some v)
    then obtain b where "view db CF_DEFAULT (in_key inp) = Some b" "utxo_value_decode b = Some v"
      by (auto simp: utxos_def bind_eq_Some_conv)
    then show ?thesis
      using assms(2,3) g Some
      by (auto simp: spend_from_db_def Let_def record_spend_Inr effect_defs)
  qed
qed

lemma apply_input_effect:
  assumes "rocks_sound R view" and "apply_input R db u h inp s = Inr s'"
    and "\<not> i_is_coinbase inp" and "coherent (utxos (view db)) (a_recent s)"
  defines "r \<equiv> resolve1 (map_of (a_pending s)) (utxos (view db)) (in_key inp)"
  shows "input_effect u h [(inp, r)] s s'
     \<and> map_of (a_pending s') = (map_of (a_pending s))(in_key inp := None)
     \<and> coherent (utxos (view db)) (a_recent s')
     \<and> (\<forall>k. forgets k (a_recent s) \<longrightarrow> forgets k (a_recent s'))
     \<and> ((\<exists>v. r = InStore v) \<longrightarrow> forgets (in_key inp) (a_recent s'))"
proof (cases "map_of (a_pending s) (in_key inp)")
  case (Some v)
  then have "record_spend h inp v
      (let s = s\<lparr>a_pending := AList.delete (in_key inp) (a_pending s)\<rparr>;
           s = (if u then s\<lparr>a_same_block := insert (in_key inp) (a_same_block s)\<rparr> else s)
       in s\<lparr>a_pending_hits := a_pending_hits s + 1\<rparr>) = Inr s'"
    using assms(2,3) by (simp add: apply_input_def Let_def)
  with Some assms(4) show ?thesis
    by (auto simp: record_spend_Inr r_def effect_defs Let_def AList.delete_conv')
next
  case None
  have P: "(map_of (a_pending s))(in_key inp := None) = map_of (a_pending s)"
    using None by (simp add: fun_upd_idem)
  show ?thesis
  proof (cases "a_recent s")
    case nc: None
    then have "spend_from_db R db u h inp s = Inr s'"
      using assms(2,3) None by (simp add: apply_input_def)
    from spend_from_db_effect [OF assms(1) this None] show ?thesis
      using P nc by (simp add: r_def coherent_def forgets_def)
  next
    case (Some c)
    have c: "cache_ok c" "cache_view c \<subseteq>\<^sub>m utxos (view db)"
      using assms(4) Some by (simp_all add: coherent_def)
    obtain hit c' where rem: "cache_remove (in_key inp) c = (hit, c')" by fastforce
    have hit: "hit = cache_view c (in_key inp)"
      using cache_remove_fst [of "in_key inp" c] rem by simp
    have c': "cache_ok c'" "cache_view c' = (cache_view c)(in_key inp := None)"
      using rc.rem_ok [OF c(1), of "in_key inp"] rc.rem_view [of "in_key inp" c] rem by simp_all
    then have coh: "coherent (utxos (view db)) (Some c')" "forgets (in_key inp) (Some c')"
      "\<forall>k. forgets k (a_recent s) \<longrightarrow> forgets k (Some c')"
      using c Some by (auto simp: coherent_def forgets_def map_le_def)
    show ?thesis
    proof (cases hit)
      case nh: None
      then have "spend_from_db R db u h inp (s\<lparr>a_recent := Some c'\<rparr>) = Inr s'"
        using assms(2,3) None Some rem by (simp add: apply_input_def)
      from spend_from_db_effect [OF assms(1) this] None show ?thesis
        using P coh Some by (auto simp: r_def input_effect_def lookups_def)
    next
      case (Some v)
      then have "utxos (view db) (in_key inp) = Some v"
        using c(2) hit by (metis domI map_le_def)
      then have r: "r = InStore v" using None by (simp add: r_def resolve1_def)
      have "record_spend h inp v
          (s\<lparr>a_recent := Some c', a_cache_hits := a_cache_hits s + 1,
             a_batch := a_batch s @ [BDelete CF_DEFAULT (in_key inp)]\<rparr>) = Inr s'"
        using assms(2,3) None \<open>a_recent s = Some c\<close> Some rem by (simp add: apply_input_def)
      then show ?thesis
        using P coh r \<open>a_recent s = Some c\<close>
        by (auto simp: record_spend_Inr input_effect_def not_found_def lookups_def)
    qed
  qed
qed

lemma apply_inputs_effect:
  assumes "rocks_sound R view" and "res_fold (apply_input R db u h) inputs s = Inr s'"
    and "coherent (utxos (view db)) (a_recent s)"
  defines "rs \<equiv> resolve (map_of (a_pending s)) (utxos (view db)) inputs"
  shows "input_effect u h rs s s'
     \<and> map_of (a_pending s') = (map_of (a_pending s)) |` (- spent_keys inputs)
     \<and> coherent (utxos (view db)) (a_recent s')
     \<and> (\<forall>k. forgets k (a_recent s) \<longrightarrow> forgets k (a_recent s'))
     \<and> (\<forall>k \<in> set (map fst (store_entries rs)). forgets k (a_recent s'))"
  using assms(2,3) unfolding rs_def
proof (induction inputs arbitrary: s)
  case Nil
  then show ?case by (simp add: restrict_map_def)
next
  case (Cons i inputs)
  show ?case
  proof (cases "i_is_coinbase i")
    case True
    then have "apply_input R db u h i s = Inr s" by (simp add: apply_input_def)
    moreover have "spent_keys (i # inputs) = spent_keys inputs" using True by simp
    ultimately show ?thesis using Cons True by simp
  next
    case False
    obtain t where t: "apply_input R db u h i s = Inr t"
      and r: "res_fold (apply_input R db u h) inputs t = Inr s'"
      using Cons.prems(1) by (auto simp: res_simps)
    note step = apply_input_effect [OF assms(1) t False Cons.prems(2)]
    let ?k = "in_key i" and ?D = "utxos (view db)" and ?P = "map_of (a_pending s)"
    define P1 where "P1 = ?P(?k := None)"
    have res: "resolve ?P ?D (i # inputs) = (i, resolve1 ?P ?D ?k) # resolve P1 ?D inputs"
      using False by (simp add: P1_def)
    have keys: "spent_keys (i # inputs) = insert ?k (spent_keys inputs)" using False by simp
    have restr: "P1 |` (- A) = ?P |` (- insert ?k A)" for A
      by (auto simp: P1_def restrict_map_def fun_eq_iff)
    show ?thesis
      unfolding res keys restr [symmetric]
      using step [folded P1_def] Cons.IH [OF r]
      by (cases "resolve1 ?P ?D ?k") (auto intro: input_effect_Cons)
  qed
qed

section \<open>The whole block\<close>

definition created :: "u32 \<Rightarrow> output_row list \<Rightarrow> bytes \<rightharpoonup> utxo_value" where
  "created h outs = map_of (rev (map (\<lambda>out. (out_key out, out_value h out)) outs))"

definition iterates :: "hm_iter \<Rightarrow> bool" where
  "iterates it \<longleftrightarrow> (\<forall>xs. mset (it xs) = mset xs)"

lemma seed_outputs:
  "fold (seed_output u h) outs s =
     s\<lparr>a_pending := fold (\<lambda>out. AList.update (out_key out) (out_value h out)) outs (a_pending s),
       a_undo := (a_undo s)\<lparr>undo_created :=
         undo_created (a_undo s) @ (if u then map out_key outs else [])\<rparr>\<rparr>"
  by (induction outs arbitrary: s) (simp_all add: seed_output_def Let_def)

lemma seed_pending_view:
  "map_of (fold (\<lambda>out. AList.update (out_key out) (out_value h out)) outs p) = map_of p ++ created h outs"
proof (induction outs arbitrary: p)
  case Nil
  then show ?case by (simp add: created_def)
next
  case (Cons out outs)
  have "map_of p ++ created h (out # outs)
      = (map_of p)(out_key out \<mapsto> out_value h out) ++ created h outs"
    by (simp add: created_def)
  moreover have "map_of (AList.update (out_key out) (out_value h out) p)
      = (map_of p)(out_key out \<mapsto> out_value h out)"
    by (rule AList.update_conv')
  ultimately show ?case
    using Cons [of "AList.update (out_key out) (out_value h out) p"]
    by (simp only: fold_simps)
qed

lemma seed_pending_distinct:
  "distinct (map fst p) \<Longrightarrow>
     distinct (map fst (fold (\<lambda>out. AList.update (out_key out) (out_value h out)) outs p))"
  by (induction outs arbitrary: p) (simp_all add: AList.distinct_update)

lemma iterates_view:
  assumes "iterates it" and "distinct (map fst p)"
  shows "map_of (rev (it p)) = map_of p"
proof -
  have m: "mset (it p) = mset p" using assms(1) by (simp add: iterates_def)
  then have "set (it p) = set p" by (metis set_mset_mset)
  moreover have "distinct (map fst (it p))"
    using assms(2) m by (metis mset_map mset_eq_imp_distinct_iff)
  ultimately show ?thesis
    using assms(2) by (subst map_of_inject_set) (simp_all add: rev_map [symmetric])
qed

lemma record_spend_pending: "record_spend h inp v s = Inr s' \<Longrightarrow> a_pending s' = a_pending s"
  by (simp add: record_spend_Inr)

lemma spend_from_db_pending: "spend_from_db R db u h inp s = Inr s' \<Longrightarrow> a_pending s' = a_pending s"
  by (cases "r_get R db CF_DEFAULT (in_key inp)")
    (auto simp: spend_from_db_def Let_def dest!: record_spend_pending split: option.splits)

lemma apply_input_distinct:
  "apply_input R db u h inp s = Inr s' \<Longrightarrow> distinct (map fst (a_pending s)) \<Longrightarrow>
     distinct (map fst (a_pending s'))"
  by (cases "map_of (a_pending s) (in_key inp)"; cases "a_recent s")
    (auto simp: apply_input_def Let_def delete_distinct split: if_splits option.splits prod.splits
      dest!: record_spend_pending spend_from_db_pending)

lemma puts_view:
  assumes "iterates it" and "distinct (map fst p)"
  shows "apply_ops (map (\<lambda>(k, v). BPut CF_DEFAULT k (utxo_value_encode v)) (it p)) m d =
    (if d = CF_DEFAULT then m d ++ (map_option utxo_value_encode \<circ> map_of p) else m d)"
proof -
  have "map (\<lambda>(k, v). BPut CF_DEFAULT k (utxo_value_encode v)) (it p)
      = map (\<lambda>(k, b). BPut CF_DEFAULT k b) (map (\<lambda>(k, v). (k, utxo_value_encode v)) (it p))"
    by (simp add: case_prod_unfold)
  moreover have "map_of (rev (map (\<lambda>(k, v). (k, utxo_value_encode v)) (it p)))
      = map_option utxo_value_encode \<circ> map_of p"
    using iterates_view [OF assms] by (simp add: rev_map map_of_map)
  ultimately show ?thesis by (simp only: apply_puts_at) simp
qed

text \<open>The final local variables, their relation to the reference, and the write.\<close>

lemma apply_block_runs:
  assumes "rocks_sound R view" and "iterates it"
    and "coherent (utxos (view (st_db st))) (st_recent st)"
    and "apply_block R it h txs inputs outputs st = Inr (res, st')"
  defines "D \<equiv> utxos (view (st_db st))"
  defines "rs \<equiv> resolve (created h outputs) D inputs"
  obtains s fees undo where
    "input_effect (st_undo_enabled st) h rs
       (apply_locals_init (st_recent st) (length txs)
          \<lparr>a_pending := fold (\<lambda>out. AList.update (out_key out) (out_value h out)) outputs [],
           a_undo := \<lparr>undo_spent = [],
             undo_created = (if st_undo_enabled st then map out_key outputs else [])\<rparr>\<rparr>) s"
    "map_of (a_pending s) = created h outputs |` (- spent_keys inputs)"
    "distinct (map fst (a_pending s))"
    "coherent D (a_recent s)" "\<forall>k \<in> set (map fst (store_entries rs)). forgets k (a_recent s)"
    "res_fold charge_output outputs (a_fees s) = Inr fees"
    "undo = (if st_undo_enabled st \<and> a_same_block s \<noteq> {}
       then (a_undo s)\<lparr>undo_created :=
              filter (\<lambda>k. k \<notin> a_same_block s) (undo_created (a_undo s))\<rparr>
       else a_undo s)"
    "view (st_db st') = apply_ops (a_batch s
        @ map (\<lambda>(key, val). BPut CF_DEFAULT key (utxo_value_encode val)) (it (a_pending s))
        @ (if st_undo_enabled st then [BPut CF_UNDO (undo_key h) (block_undo_encode undo)] else []))
        (view (st_db st))"
    "res = \<lparr>sr_spends = a_spends s, sr_fees = fees, sr_missing = a_missing s,
       sr_db_lookups = a_db_lookups s, sr_pending_hits = a_pending_hits s,
       sr_cache_hits = a_cache_hits s\<rparr>"
    "st_recent st' = map_option (\<lambda>c. fold (\<lambda>(k, v). cache_insert k v) (it (a_pending s)) c) (a_recent s)"
    "st_undo_enabled st' = st_undo_enabled st"
proof -
  let ?u = "st_undo_enabled st"
  let ?s0 = "apply_locals_init (st_recent st) (length txs)
      \<lparr>a_pending := fold (\<lambda>out. AList.update (out_key out) (out_value h out)) outputs [],
       a_undo := \<lparr>undo_spent = [], undo_created = (if ?u then map out_key outputs else [])\<rparr>\<rparr>"
  have seed: "fold (seed_output ?u h) outputs (apply_locals_init (st_recent st) (length txs)) = ?s0"
    unfolding seed_outputs by (simp add: apply_locals_init_def)
  obtain s where run: "res_fold (apply_input R (st_db st) ?u h) inputs ?s0 = Inr s"
    using assms(4) unfolding apply_block_def Let_def seed by (auto simp: res_simps)
  define undo where "undo = (if ?u \<and> a_same_block s \<noteq> {}
       then (a_undo s)\<lparr>undo_created :=
              filter (\<lambda>k. k \<notin> a_same_block s) (undo_created (a_undo s))\<rparr>
       else a_undo s)"
  let ?batch = "a_batch s
        @ map (\<lambda>(key, val). BPut CF_DEFAULT key (utxo_value_encode val)) (it (a_pending s))
        @ (if ?u then [BPut CF_UNDO (undo_key h) (block_undo_encode undo)] else [])"
  obtain fees where fees: "res_fold charge_output outputs (a_fees s) = Inr fees"
    using assms(4) unfolding apply_block_def Let_def seed by (auto simp: res_simps run)
  obtain db' where db': "r_write R (st_db st) ?batch (block_write_options ?u) = Inr db'"
    using assms(4) unfolding apply_block_def Let_def seed run res_bind.simps undo_def [symmetric] fees
    by (auto simp: res_simps)
  have out: "res = \<lparr>sr_spends = a_spends s, sr_fees = fees, sr_missing = a_missing s,
       sr_db_lookups = a_db_lookups s, sr_pending_hits = a_pending_hits s,
       sr_cache_hits = a_cache_hits s\<rparr>"
    "st' = st\<lparr>st_db := db', st_pending := [],
       st_recent := map_option (\<lambda>c. fold (\<lambda>(k, v). cache_insert k v) (it (a_pending s)) c) (a_recent s)\<rparr>"
    using assms(4) db'
    unfolding apply_block_def Let_def seed run res_bind.simps undo_def [symmetric] fees
    by simp_all
  have "view (st_db st') = apply_ops ?batch (view (st_db st))"
    using rocks_sound.write_sound [OF assms(1) db'] out by simp
  note final = fees undo_def this out(1)
  have P: "map_of (a_pending ?s0) = created h outputs"
    using seed_pending_view [of h outputs "[]"] by simp
  have "coherent (utxos (view (st_db st))) (a_recent ?s0)"
    using assms(3) by (simp add: apply_locals_init_def)
  note eff = apply_inputs_effect [OF assms(1) run this, unfolded P, folded D_def, folded rs_def]
  have dist: "distinct (map fst (a_pending s))"
    by (rule res_fold_invariant [OF run, where P = "\<lambda>s. distinct (map fst (a_pending s))"])
      (simp_all add: seed_pending_distinct apply_input_distinct)
  show thesis
    by (rule that [of s, OF _ _ dist _ _ final]) (use eff out in simp_all)
qed

section \<open>Resolved keys\<close>

lemma store_entries_sound:
  "(k, v) \<in> set (store_entries (resolve P D inputs)) \<Longrightarrow> k \<in> spent_keys inputs \<and> D k = Some v"
proof (induction inputs arbitrary: P)
  case Nil
  then show ?case by simp
next
  case (Cons i inputs)
  then show ?case
    by (cases "resolve1 P D (in_key i)")
      (auto simp: resolve1_def split: option.splits if_splits)
qed

lemma store_entries_complete:
  "k \<in> spent_keys inputs \<Longrightarrow> P k = None \<Longrightarrow> D k = Some v \<Longrightarrow>
     (k, v) \<in> set (store_entries (resolve P D inputs))"
proof (induction inputs arbitrary: P)
  case Nil
  then show ?case by simp
next
  case (Cons i inputs)
  show ?case
  proof (cases "i_is_coinbase i \<or> in_key i \<noteq> k")
    case True
    with Cons show ?thesis
      by (cases "resolve1 P D (in_key i)") (auto split: if_splits)
  next
    case False
    then have "resolve1 P D (in_key i) = InStore v" using Cons.prems by (simp add: resolve1_def)
    with False show ?thesis by simp
  qed
qed

lemma block_keys_iff:
  "k \<in> set (block_keys (resolve P D inputs)) \<longleftrightarrow> k \<in> spent_keys inputs \<and> P k \<noteq> None"
proof (induction inputs arbitrary: P)
  case Nil
  then show ?case by simp
next
  case (Cons i inputs)
  then show ?case
    by (cases "resolve1 P D (in_key i)")
      (auto simp: resolve1_def split: option.splits if_splits)
qed

lemma created_dom: "dom (created h outs) = out_key ` set outs"
  by (auto simp: created_def dom_map_of_conv_image_fst image_image)

lemma created_Some: "created h outs k = Some v \<Longrightarrow> \<exists>out \<in> set outs. k = out_key out \<and> v = out_value h out"
  by (auto simp: created_def dest!: map_of_SomeD)

section \<open>The database after a block\<close>

lemma apply_block_view:
  assumes "rocks_sound R view" and "iterates it"
    and "coherent (utxos (view (st_db st))) (st_recent st)"
    and "apply_block R it h txs inputs outputs st = Inr (res, st')"
  defines "D \<equiv> utxos (view (st_db st))"
  defines "rs \<equiv> resolve (created h outputs) D inputs"
  shows "view (st_db st') CF_DEFAULT k =
      (case (created h outputs |` (- spent_keys inputs)) k of
         Some v \<Rightarrow> Some (utxo_value_encode v)
       | None \<Rightarrow> if k \<in> fst ` set (store_entries rs) then None else view (st_db st) CF_DEFAULT k)"
    and "view (st_db st') CF_META = view (st_db st) CF_META"
    and "st_undo_enabled st \<Longrightarrow> st_recent st = None \<Longrightarrow>
      view (st_db st') CF_UNDO = (view (st_db st) CF_UNDO)(undo_key h \<mapsto> block_undo_encode
        \<lparr>undo_spent = store_entries rs,
         undo_created = filter (\<lambda>k. k \<notin> set (block_keys rs)) (map out_key outputs)\<rparr>)"
    and "\<not> st_undo_enabled st \<Longrightarrow> view (st_db st') CF_UNDO = view (st_db st) CF_UNDO"
proof -
  obtain s fees undo where
    eff: "input_effect (st_undo_enabled st) h rs
       (apply_locals_init (st_recent st) (length txs)
          \<lparr>a_pending := fold (\<lambda>out. AList.update (out_key out) (out_value h out)) outputs [],
           a_undo := \<lparr>undo_spent = [],
             undo_created = (if st_undo_enabled st then map out_key outputs else [])\<rparr>\<rparr>) s"
    and P: "map_of (a_pending s) = created h outputs |` (- spent_keys inputs)"
    and dist: "distinct (map fst (a_pending s))"
    and undo: "undo = (if st_undo_enabled st \<and> a_same_block s \<noteq> {}
       then (a_undo s)\<lparr>undo_created :=
              filter (\<lambda>k. k \<notin> a_same_block s) (undo_created (a_undo s))\<rparr>
       else a_undo s)"
    and view: "view (st_db st') = apply_ops (a_batch s
        @ map (\<lambda>(key, val). BPut CF_DEFAULT key (utxo_value_encode val)) (it (a_pending s))
        @ (if st_undo_enabled st then [BPut CF_UNDO (undo_key h) (block_undo_encode undo)] else []))
        (view (st_db st))"
    by (rule apply_block_runs [OF assms(1-4), folded D_def, folded rs_def]) (rule that, assumption+)
  have batch: "a_batch s = map (BDelete CF_DEFAULT) (map fst (store_entries rs))"
    using eff by (simp add: input_effect_def apply_locals_init_def)
  note pv = puts_view [OF assms(2) dist]
  show "view (st_db st') CF_DEFAULT k =
      (case (created h outputs |` (- spent_keys inputs)) k of
         Some v \<Rightarrow> Some (utxo_value_encode v)
       | None \<Rightarrow> if k \<in> fst ` set (store_entries rs) then None else view (st_db st) CF_DEFAULT k)"
    by (auto simp: view batch pv apply_deletes_at P map_add_def simp del: map_map
        split: option.splits)
  show "view (st_db st') CF_META = view (st_db st) CF_META"
    by (auto simp: view batch pv apply_deletes_at fun_eq_iff simp del: map_map)
  show "view (st_db st') CF_UNDO = view (st_db st) CF_UNDO" if "\<not> st_undo_enabled st"
    using that by (auto simp: view batch pv apply_deletes_at fun_eq_iff simp del: map_map)
  assume u: "st_undo_enabled st" and n: "st_recent st = None"
  have same: "a_same_block s = set (block_keys rs)"
    "undo_created (a_undo s) = map out_key outputs" "undo_spent (a_undo s) = store_entries rs"
    using eff u n by (simp_all add: input_effect_def apply_locals_init_def)
  then have "undo = \<lparr>undo_spent = store_entries rs,
      undo_created = filter (\<lambda>k. k \<notin> set (block_keys rs)) (map out_key outputs)\<rparr>"
    using u by (cases "a_undo s") (simp add: undo)
  then show "view (st_db st') CF_UNDO = (view (st_db st) CF_UNDO)(undo_key h \<mapsto> block_undo_encode
        \<lparr>undo_spent = store_entries rs,
         undo_created = filter (\<lambda>k. k \<notin> set (block_keys rs)) (map out_key outputs)\<rparr>)"
    using u by (auto simp: view batch pv apply_deletes_at fun_eq_iff simp del: map_map)
qed

section \<open>The operations succeed when the database does\<close>

lemma record_spend_total:
  "unat (i_tx_index inp) < length (a_fees s) \<Longrightarrow>
     \<exists>s'. record_spend h inp v s = Inr s' \<and> length (a_fees s') = length (a_fees s)"
  by (simp add: record_spend_def Let_def)

lemma spend_from_db_total:
  assumes "rocks_total R view" and "unat (i_tx_index inp) < length (a_fees s)"
  shows "\<exists>s'. spend_from_db R db u h inp s = Inr s' \<and> length (a_fees s') = length (a_fees s)"
proof -
  have rec: "\<exists>s'. record_spend h inp v t = Inr s' \<and> length (a_fees s') = length (a_fees s)"
    if "a_fees t = a_fees s" for v t
    using record_spend_total [of inp t h v] assms(2) that by simp
  show ?thesis
    by (simp add: spend_from_db_def rocks_total.get_view [OF assms(1)] rec Let_def split: option.splits)
qed

lemma apply_input_total:
  assumes "rocks_total R view" and "unat (i_tx_index inp) < length (a_fees s)"
  shows "\<exists>s'. apply_input R db u h inp s = Inr s' \<and> length (a_fees s') = length (a_fees s)"
proof -
  have rec: "\<exists>s'. record_spend h inp v t = Inr s' \<and> length (a_fees s') = length (a_fees s)"
    if "a_fees t = a_fees s" for v t
    using record_spend_total [of inp t h v] assms(2) that by simp
  have db: "\<exists>s'. spend_from_db R db u h inp t = Inr s' \<and> length (a_fees s') = length (a_fees s)"
    if "a_fees t = a_fees s" for t
    using spend_from_db_total [OF assms(1), of inp t db u h] assms(2) that by simp
  show ?thesis
    by (cases "map_of (a_pending s) (in_key inp)"; cases "a_recent s")
      (simp_all add: apply_input_def rec db Let_def split: option.splits prod.splits)
qed

lemma apply_inputs_total:
  assumes "rocks_total R view" and "\<forall>inp \<in> set inputs. unat (i_tx_index inp) < length (a_fees s)"
  shows "\<exists>s'. res_fold (apply_input R db u h) inputs s = Inr s' \<and> length (a_fees s') = length (a_fees s)"
  using assms(2)
proof (induction inputs arbitrary: s)
  case Nil
  then show ?case by simp
next
  case (Cons inp inputs)
  then obtain t where "apply_input R db u h inp s = Inr t" "length (a_fees t) = length (a_fees s)"
    using apply_input_total [OF assms(1), of inp s db u h] by auto
  with Cons.IH [of t] Cons.prems show ?case by simp
qed

lemma charge_outputs_total:
  "\<forall>out \<in> set outputs. unat (o_tx_index out) < length fees \<Longrightarrow>
     \<exists>fees'. res_fold charge_output outputs fees = Inr fees'"
  by (induction outputs arbitrary: fees) (auto simp: charge_output_def Let_def)

definition indices_ok :: "tx_row list \<Rightarrow> input_row list \<Rightarrow> output_row list \<Rightarrow> bool" where
  "indices_ok txs inputs outputs \<longleftrightarrow>
     (\<forall>inp \<in> set inputs. unat (i_tx_index inp) < length txs)
   \<and> (\<forall>out \<in> set outputs. unat (o_tx_index out) < length txs)"

lemma apply_block_total:
  assumes "rocks_total R view" and "indices_ok txs inputs outputs"
  shows "\<exists>res st'. apply_block R it h txs inputs outputs st = Inr (res, st')"
proof -
  let ?u = "st_undo_enabled st"
  let ?s0 = "fold (seed_output ?u h) outputs (apply_locals_init (st_recent st) (length txs))"
  have len: "length (a_fees ?s0) = length txs"
    by (simp add: seed_outputs apply_locals_init_def)
  obtain s where s: "res_fold (apply_input R (st_db st) ?u h) inputs ?s0 = Inr s"
    and "length (a_fees s) = length txs"
    using apply_inputs_total [OF assms(1), of inputs ?s0 "st_db st" ?u h] assms(2) len
    by (auto simp: indices_ok_def)
  then obtain fees where f: "res_fold charge_output outputs (a_fees s) = Inr fees"
    using charge_outputs_total [of outputs "a_fees s"] assms(2) by (auto simp: indices_ok_def)
  have w: "\<exists>db'. r_write R (st_db st) b wo = Inr db'" for b wo
    by (rule rocks_total.write_total [OF assms(1)])
  show ?thesis
    unfolding apply_block_def Let_def s res_bind.simps f using w by (metis map_err.simps(2) res_bind.simps(2))
qed

section \<open>Disconnecting a block\<close>

definition rows_ok :: "input_row list \<Rightarrow> output_row list \<Rightarrow> bool" where
  "rows_ok inputs outputs \<longleftrightarrow>
     (\<forall>out \<in> set outputs. length (o_txid out) = 32 \<and> length (o_address_hash out) = 32)
   \<and> (\<forall>inp \<in> set inputs. length (i_prev_txid inp) = 32)
   \<and> length inputs < 2 ^ 64 \<and> length outputs < 2 ^ 64"

definition fresh_outputs :: "db_view \<Rightarrow> output_row list \<Rightarrow> bool" where
  "fresh_outputs m outputs \<longleftrightarrow> (\<forall>out \<in> set outputs. m CF_DEFAULT (out_key out) = None)"

lemma length_resolve: "length (resolve P D inputs) \<le> length inputs"
  by (induction inputs arbitrary: P) (auto simp: le_SucI)

lemma length_store_entries: "length (store_entries rs) \<le> length rs"
  by (induction rs rule: store_entries.induct) auto

lemma utxos_ok: "utxos m k = Some v \<Longrightarrow> utxo_value_ok v \<and> m CF_DEFAULT k = Some (utxo_value_encode v)"
  by (auto simp: utxos_def bind_eq_Some_conv dest: utxo_decode_ok utxo_encode_decode)

lemma undo_record_ok:
  assumes "rows_ok inputs outputs"
  shows "block_undo_ok \<lparr>undo_spent = store_entries (resolve P (utxos m) inputs),
    undo_created = filter Q (map out_key outputs)\<rparr>"
proof -
  have "spent_entry_ok e" if "e \<in> set (store_entries (resolve P (utxos m) inputs))" for e
  proof -
    obtain k v where e: "e = (k, v)" by fastforce
    with that have "k \<in> spent_keys inputs" "utxos m k = Some v"
      using store_entries_sound by blast+
    then show ?thesis
      using assms utxos_ok [of m k v]
      by (auto simp: e spent_entry_ok_def spent_keys_def in_key_def rows_ok_def)
  qed
  moreover have "length (store_entries (resolve P (utxos m) inputs)) < 2 ^ 64"
    using length_store_entries [of "resolve P (utxos m) inputs"] length_resolve [of P "utxos m" inputs]
      assms unfolding rows_ok_def by linarith
  moreover have "length (filter Q (map out_key outputs)) < 2 ^ 64"
    using length_filter_le [of Q "map out_key outputs"] assms
    unfolding rows_ok_def length_map by linarith
  ultimately show ?thesis
    using assms by (auto simp: block_undo_ok_def list_all_iff rows_ok_def out_key_def)
qed

lemma disconnect_view:
  assumes "rocks_total R view" and "block_undo_ok undo"
    and "view (st_db st) CF_UNDO (undo_key h) = Some (block_undo_encode undo)"
  obtains st' where "disconnect_block R h st = Inr st'"
    "\<And>k. view (st_db st') CF_DEFAULT k =
       (if k \<in> set (undo_created undo) then None
        else case map_of (rev (undo_spent undo)) k of
          Some v \<Rightarrow> Some (utxo_value_encode v) | None \<Rightarrow> view (st_db st) CF_DEFAULT k)"
    "view (st_db st') CF_META = view (st_db st) CF_META"
    "view (st_db st') CF_UNDO = (view (st_db st) CF_UNDO)(undo_key h := None)"
    "st_recent st' = st_recent st"
proof -
  have snd: "rocks_sound R view" using assms(1) by (simp add: rocks_total_def)
  let ?puts = "map (\<lambda>(key, val). BPut CF_DEFAULT key (utxo_value_encode val)) (undo_spent undo)"
  let ?batch = "?puts @ map (BDelete CF_DEFAULT) (undo_created undo) @ [BDelete CF_UNDO (undo_key h)]"
  let ?wo = "write_options_default\<lparr>wo_sync := True\<rparr>"
  obtain db' where w: "r_write R (st_db st) ?batch ?wo = Inr db'"
    using rocks_total.write_total [OF assms(1)] by blast
  have v: "view db' = apply_ops ?batch (view (st_db st))"
    using rocks_sound.write_sound [OF snd w] .
  have puts: "?puts = map (\<lambda>(k, b). BPut CF_DEFAULT k b)
      (map (\<lambda>(k, v). (k, utxo_value_encode v)) (undo_spent undo))"
    by (simp add: case_prod_unfold)
  have pv: "apply_ops ?puts m d = (if d = CF_DEFAULT
      then m d ++ (map_option utxo_value_encode \<circ> map_of (rev (undo_spent undo))) else m d)" for m d
    unfolding puts apply_puts_at rev_map map_of_map by simp
  have "disconnect_block R h st = Inr (st\<lparr>st_db := db'\<rparr>)"
    using undo_decode_encode [OF assms(2), of "[]"] w assms(3)
    by (simp add: disconnect_block_def rocks_total.get_view [OF assms(1)])
  then show thesis
    by (rule that)
      (auto simp: v pv apply_deletes_at map_add_def fun_eq_iff split: option.splits)
qed

lemma disconnect_restores:
  assumes "rocks_total R view" and "iterates it"
    and "st_undo_enabled st" and "st_recent st = None"
    and "rows_ok inputs outputs" and "fresh_outputs (view (st_db st)) outputs"
    and "apply_block R it h txs inputs outputs st = Inr (res, st')"
  shows "\<exists>st''. disconnect_block R h st' = Inr st''
     \<and> view (st_db st'') = (view (st_db st))(CF_UNDO := (view (st_db st) CF_UNDO)(undo_key h := None))"
proof -
  have snd: "rocks_sound R view" using assms(1) by (simp add: rocks_total_def)
  let ?m = "view (st_db st)" and ?C = "created h outputs" and ?K = "spent_keys inputs"
  define rs where "rs = resolve ?C (utxos ?m) inputs"
  have coh: "coherent (utxos ?m) (st_recent st)" using assms(4) by (simp add: coherent_def)
  note view = apply_block_view [OF snd assms(2) coh assms(7), folded rs_def]
  define undo where "undo = \<lparr>undo_spent = store_entries rs,
         undo_created = filter (\<lambda>k. k \<notin> set (block_keys rs)) (map out_key outputs)\<rparr>"
  have uok: "block_undo_ok undo"
    using undo_record_ok [OF assms(5)] by (simp add: undo_def rs_def)
  have undo': "view (st_db st') CF_UNDO = (?m CF_UNDO)(undo_key h \<mapsto> block_undo_encode undo)"
    using view(3) assms(3,4) by (simp add: undo_def)
  obtain st'' where d: "disconnect_block R h st' = Inr st''"
    and def: "\<And>k. view (st_db st'') CF_DEFAULT k =
       (if k \<in> set (undo_created undo) then None
        else case map_of (rev (undo_spent undo)) k of
          Some v \<Rightarrow> Some (utxo_value_encode v) | None \<Rightarrow> view (st_db st') CF_DEFAULT k)"
    and rest: "view (st_db st'') CF_META = view (st_db st') CF_META"
      "view (st_db st'') CF_UNDO = (view (st_db st') CF_UNDO)(undo_key h := None)"
    using disconnect_view [OF assms(1) uok, of st' h] undo' by auto
  have "view (st_db st'') CF_DEFAULT k = ?m CF_DEFAULT k" for k
  proof (cases "k \<in> set (undo_created undo)")
    case True
    then have "?m CF_DEFAULT k = None"
      using assms(6) by (auto simp: undo_def fresh_outputs_def)
    with True def show ?thesis by simp
  next
    case nc: False
    show ?thesis
    proof (cases "map_of (rev (store_entries rs)) k")
      case (Some v)
      then have "(k, v) \<in> set (store_entries rs)" by (auto dest: map_of_SomeD)
      then have "utxos ?m k = Some v" unfolding rs_def by (auto dest: store_entries_sound)
      with Some nc def show ?thesis by (simp add: undo_def utxos_ok)
    next
      case None
      then have ns: "k \<notin> fst ` set (store_entries rs)"
        by (simp add: map_of_eq_None_iff)
      have "(?C |` (- ?K)) k = None"
      proof (cases "?C k")
        case (Some v)
        then have "k \<in> out_key ` set outputs" using created_dom [of h outputs] by blast
        with nc have "k \<in> set (block_keys rs)" by (auto simp: undo_def)
        then show ?thesis by (simp add: rs_def block_keys_iff)
      qed (simp add: restrict_map_def)
      then have "view (st_db st') CF_DEFAULT k = ?m CF_DEFAULT k"
        using view(1) [of k] ns by simp
      then show ?thesis using None nc def [of k] by (auto simp: undo_def)
    qed
  qed
  moreover have "view (st_db st'') CF_META = ?m CF_META" using rest view(2) by simp
  moreover have "view (st_db st'') CF_UNDO = (?m CF_UNDO)(undo_key h := None)"
    using rest undo' by simp
  ultimately have "view (st_db st'') c = (?m(CF_UNDO := (?m CF_UNDO)(undo_key h := None))) c" for c
    by (cases c) auto
  then show ?thesis using d by (intro exI [of _ st'']) auto
qed

text \<open>No outpoint that the block both creates and spends is in the set already.\<close>

definition no_respend :: "(bytes \<rightharpoonup> utxo_value) \<Rightarrow> input_row list \<Rightarrow> output_row list \<Rightarrow> bool" where
  "no_respend D inputs outputs \<longleftrightarrow> (\<forall>out \<in> set outputs. out_key out \<in> spent_keys inputs \<longrightarrow> D (out_key out) = None)"

lemma apply_refines:
  assumes "rocks_sound R view" and "iterates it"
    and "coherent (utxos (view (st_db st))) (st_recent st)"
    and "apply_block R it h txs inputs outputs st = Inr (res, st')"
    and "rows_ok inputs outputs" and "no_respend (utxos (view (st_db st))) inputs outputs"
  shows "utxos (view (st_db st')) = (utxos (view (st_db st)) ++ created h outputs) |` (- spent_keys inputs)"
proof
  fix k
  let ?D = "utxos (view (st_db st))" and ?C = "created h outputs" and ?K = "spent_keys inputs"
  note view = apply_block_view(1) [OF assms(1-4), of k]
  show "utxos (view (st_db st')) k = ((?D ++ ?C) |` (- ?K)) k"
  proof (cases "?C k")
    case (Some v)
    then obtain out where out: "out \<in> set outputs" "k = out_key out" "v = out_value h out"
      by (auto dest: created_Some)
    then have "utxo_value_ok v" and "k \<in> ?K \<Longrightarrow> ?D k = None"
      using assms(5,6) by (auto simp: rows_ok_def no_respend_def utxo_value_ok_def out_value_def)
    then show ?thesis
      using view Some by (auto simp: utxos_def restrict_map_def utxo_decode_encode)
  next
    case None
    then have r: "(?C |` (- ?K)) k = None" by (simp add: restrict_map_def)
    show ?thesis
    proof (cases "?D k")
      case D: None
      then show ?thesis using view r None
        by (auto simp: utxos_def restrict_map_def map_add_def)
    next
      case (Some v)
      have "k \<in> fst ` set (store_entries (resolve ?C ?D inputs)) \<longleftrightarrow> k \<in> ?K"
        using store_entries_complete [of k inputs ?C ?D v] None Some store_entries_sound [of k] by force
      then show ?thesis
        using view r None Some by (auto simp: utxos_def restrict_map_def map_add_def)
    qed
  qed
qed

end
