(* ===== verification/Store_Correct.thy ===== *)
theory Store_Correct
  imports Store_Utxo
begin

text \<open>
  What the UTXO store promises, proved over any database that meets the RocksDB interface:
  applying a block is the set update it stands for, disconnecting it restores the database, the
  in-memory cache changes no result, every input is accounted for, fees are inputs minus outputs,
  and the tip is read back as written.
\<close>

section \<open>Results of a block\<close>

lemma apply_block_result:
  assumes "rocks_sound R view" and "iterates it"
    and "coherent (utxos (view (st_db st))) (st_recent st)"
    and "apply_block R it h txs inputs outputs st = Inr (res, st')"
  defines "rs \<equiv> resolve (created h outputs) (utxos (view (st_db st))) inputs"
  shows "sr_spends res = spend_rows h rs"
    and "sr_missing res = of_nat (not_found rs)"
    and "sr_pending_hits res + sr_db_lookups res + sr_cache_hits res = of_nat (length rs)"
    and "res_fold charge_output outputs (credit rs (replicate (length txs) 0)) = Inr (sr_fees res)"
    and "st_undo_enabled st' = st_undo_enabled st"
    and "st_recent st = None \<Longrightarrow> st_recent st' = None"
    and "st_recent st = None \<Longrightarrow> sr_cache_hits res = 0"
proof -
  obtain s fees where
    eff: "input_effect (st_undo_enabled st) h rs
       (apply_locals_init (st_recent st) (length txs)
          \<lparr>a_pending := fold (\<lambda>out. AList.update (out_key out) (out_value h out)) outputs [],
           a_undo := \<lparr>undo_spent = [],
             undo_created = (if st_undo_enabled st then map out_key outputs else [])\<rparr>\<rparr>) s"
    and fees: "res_fold charge_output outputs (a_fees s) = Inr fees"
    and res: "res = \<lparr>sr_spends = a_spends s, sr_fees = fees, sr_missing = a_missing s,
       sr_db_lookups = a_db_lookups s, sr_pending_hits = a_pending_hits s,
       sr_cache_hits = a_cache_hits s\<rparr>"
    and st': "st_recent st' = map_option (\<lambda>c. fold (\<lambda>(k, v). cache_insert k v) (it (a_pending s)) c) (a_recent s)"
      "st_undo_enabled st' = st_undo_enabled st"
    by (rule apply_block_runs [OF assms(1-4), folded rs_def]) (rule that, assumption+)
  show "sr_spends res = spend_rows h rs"
    and "sr_missing res = of_nat (not_found rs)"
    and "sr_pending_hits res + sr_db_lookups res + sr_cache_hits res = of_nat (length rs)"
    and "res_fold charge_output outputs (credit rs (replicate (length txs) 0)) = Inr (sr_fees res)"
    and "st_undo_enabled st' = st_undo_enabled st"
    and "st_recent st = None \<Longrightarrow> st_recent st' = None"
    and "st_recent st = None \<Longrightarrow> sr_cache_hits res = 0"
    using eff fees st'
    by (auto simp: input_effect_def apply_locals_init_def res lookups_def)
qed

lemma apply_block_coherent:
  assumes "rocks_sound R view" and "iterates it"
    and "coherent (utxos (view (st_db st))) (st_recent st)"
    and "apply_block R it h txs inputs outputs st = Inr (res, st')"
    and "rows_ok inputs outputs"
  shows "coherent (utxos (view (st_db st'))) (st_recent st')"
proof -
  let ?D = "utxos (view (st_db st))" and ?C = "created h outputs" and ?K = "spent_keys inputs"
  define rs where "rs = resolve ?C ?D inputs"
  obtain s :: apply_locals where P: "map_of (a_pending s) = ?C |` (- ?K)"
    and dist: "distinct (map fst (a_pending s))"
    and coh: "coherent ?D (a_recent s)"
    and forg: "\<forall>k \<in> set (map fst (store_entries rs)). forgets k (a_recent s)"
    and st': "st_recent st' = map_option (\<lambda>c. fold (\<lambda>(k, v). cache_insert k v) (it (a_pending s)) c) (a_recent s)"
    by (rule apply_block_runs [OF assms(1-4), folded rs_def]) (rule that, assumption+)
  show ?thesis
  proof (cases "a_recent s")
    case None
    then show ?thesis using st' by (simp add: coherent_def)
  next
    case (Some c)
    let ?E = "?D |` (- fst ` set (store_entries rs))"
    have "cache_view c \<subseteq>\<^sub>m ?E"
      using coh forg Some by (auto simp: coherent_def forgets_def map_le_def restrict_map_def)
    then have "cache_view (fold (\<lambda>(k, v). cache_insert k v) (it (a_pending s)) c)
        \<subseteq>\<^sub>m ?E ++ map_of (rev (it (a_pending s)))"
      by (rule rc.fold_ins_coherent)
    also have "map_of (rev (it (a_pending s))) = ?C |` (- ?K)"
      using iterates_view [OF assms(2) dist] P by simp
    finally have le: "cache_view (fold (\<lambda>(k, v). cache_insert k v) (it (a_pending s)) c)
        \<subseteq>\<^sub>m ?E ++ ?C |` (- ?K)" .
    have "utxos (view (st_db st')) k = (?E ++ ?C |` (- ?K)) k" if "(?E ++ ?C |` (- ?K)) k \<noteq> None" for k
    proof (cases "(?C |` (- ?K)) k")
      case (Some v)
      then obtain out where "out \<in> set outputs" "v = out_value h out"
        by (metis created_Some restrict_map_def option.distinct(1))
      then have "utxo_value_ok v"
        using assms(5) by (auto simp: rows_ok_def utxo_value_ok_def out_value_def)
      with Some show ?thesis
        using apply_block_view(1) [OF assms(1-4), of k]
        by (simp add: utxos_def utxo_decode_encode map_add_def)
    next
      case None
      then show ?thesis
        using that apply_block_view(1) [OF assms(1-4), of k, folded rs_def]
        by (auto simp: utxos_def map_add_def restrict_map_def split: if_splits)
    qed
    with le have "cache_view (fold (\<lambda>(k, v). cache_insert k v) (it (a_pending s)) c)
        \<subseteq>\<^sub>m utxos (view (st_db st'))"
      unfolding map_le_def by (metis domIff)
    moreover have "cache_ok (fold (\<lambda>(k, v). cache_insert k v) (it (a_pending s)) c)"
      using coh Some rc.fold_ins_ok by (simp add: coherent_def)
    ultimately show ?thesis using st' Some by (simp add: coherent_def)
  qed
qed

section \<open>Fees\<close>

definition spent_sum :: "nat \<Rightarrow> (input_row \<times> resolution) list \<Rightarrow> nat" where
  "spent_sum i rs = sum_list (map (\<lambda>(inp, r). if unat (i_tx_index inp) = i
     then (case spent_value r of None \<Rightarrow> 0 | Some v \<Rightarrow> unat (u_value_sat v)) else 0) rs)"

definition output_sum :: "nat \<Rightarrow> output_row list \<Rightarrow> nat" where
  "output_sum i outs = sum_list (map (\<lambda>out. if unat (o_tx_index out) = i
     then unat (o_value_sat out) else 0) outs)"

lemma length_credit [simp]: "length (credit rs fees) = length fees"
  by (induction rs fees rule: credit.induct) (auto split: option.splits)

lemma unat_credit:
  "i < length fees \<Longrightarrow>
     unat (credit rs fees ! i) = min (unat (fees ! i) + spent_sum i rs) (2 ^ 64 - 1)"
proof (induction rs fees rule: credit.induct)
  case (1 fees)
  have "unat (fees ! i) < 2 ^ 64" using unsigned_less [of "fees ! i"] by simp
  then show ?case by (simp add: spent_sum_def)
next
  case (2 inp r rs fees)
  show ?case
  proof (cases "spent_value r")
    case None
    with 2 show ?thesis by (simp add: spent_sum_def)
  next
    case (Some v)
    let ?j = "unat (i_tx_index inp)"
    let ?f = "fees[?j := saturating_add (fees ! ?j) (u_value_sat v)]"
    have "unat (credit rs ?f ! i) = min (unat (?f ! i) + spent_sum i rs) (2 ^ 64 - 1)"
      using 2(2) Some 2(3) by simp
    moreover have "unat (?f ! i) = (if ?j = i then min (unat (fees ! i) + unat (u_value_sat v)) (2 ^ 64 - 1)
        else unat (fees ! i))"
      using 2(3) by (simp add: unat_saturating_add nth_list_update)
    ultimately show ?thesis
      using Some by (auto simp: spent_sum_def min_def)
  qed
qed

lemma charge_outputs_sum:
  "res_fold charge_output outs fees = Inr fees' \<Longrightarrow> i < length fees \<Longrightarrow>
     length fees' = length fees \<and> unat (fees' ! i) = unat (fees ! i) - output_sum i outs"
proof (induction outs arbitrary: fees)
  case Nil
  then show ?case by (simp add: output_sum_def)
next
  case (Cons out outs)
  let ?j = "unat (o_tx_index out)"
  let ?f = "fees[?j := saturating_sub (fees ! ?j) (o_value_sat out)]"
  have j: "?j < length fees" and r: "res_fold charge_output outs ?f = Inr fees'"
    using Cons.prems(1) by (auto simp: charge_output_def [of out] Let_def split: if_splits)
  have "unat (?f ! i) = unat (fees ! i) - (if ?j = i then unat (o_value_sat out) else 0)"
    using j by (auto simp: nth_list_update unat_saturating_sub)
  with Cons.IH [OF r] Cons.prems(2) show ?case by (auto simp: output_sum_def)
qed

section \<open>A concrete store\<close>

definition mem_store :: "bool \<Rightarrow> recent_cache option \<Rightarrow> db_view \<Rightarrow> db_view utxo_store" where
  "mem_store undo_on recent db = \<lparr>st_db = db, st_path = [''utxo''], st_pending = [], st_recent = recent,
     st_undo_enabled = undo_on, st_statistics = False\<rparr>"

text \<open>
  A block of two transactions for the witnesses: a coinbase paying 50 and a transaction spending
  output 0 of \<open>prev\<close> (held by the database, worth 30) into an output of 25.
\<close>

definition ex_prev :: bytes where "ex_prev = replicate 32 1"

definition ex_value :: utxo_value where
  "ex_value = \<lparr>u_value_sat = 30, u_script_type = 2, u_height = 1, u_address_hash = zeros 32\<rparr>"

definition ex_db :: db_view where
  "ex_db = (\<lambda>_. Map.empty)(CF_DEFAULT := [make_key ex_prev 0 \<mapsto> utxo_value_encode ex_value])"

definition ex_output :: "u32 \<Rightarrow> bytes \<Rightarrow> u64 \<Rightarrow> output_row" where
  "ex_output tx txid value = \<lparr>o_height = 7, o_tx_index = tx, o_output_index = 0, o_txid = txid,
     o_value_sat = value, o_script_pubkey_len = 25, o_script_type = 2, o_address_hash = zeros 32\<rparr>"

definition ex_input :: "u32 \<Rightarrow> bytes \<Rightarrow> bytes \<Rightarrow> u32 \<Rightarrow> bool \<Rightarrow> input_row" where
  "ex_input tx txid prev vout cb = \<lparr>i_height = 7, i_tx_index = tx, i_input_index = 0, i_txid = txid,
     i_prev_txid = prev, i_prev_vout = vout, i_script_sig_len = 0, i_sequence = 0,
     i_witness_items = 0, i_witness_bytes = 0, i_is_coinbase = cb\<rparr>"

definition ex_tx :: "u32 \<Rightarrow> bytes \<Rightarrow> tx_row" where
  "ex_tx i txid = \<lparr>t_height = 7, t_tx_index = i, t_txid = txid, t_version = 1, t_locktime = 0,
     t_size = 100, t_weight = 400, t_fee = 0, t_input_count = 1, t_output_count = 1,
     t_has_witness = False\<rparr>"

definition ex_txs :: "tx_row list" where
  "ex_txs = [ex_tx 0 (replicate 32 2), ex_tx 1 (replicate 32 3)]"

definition ex_inputs :: "input_row list" where
  "ex_inputs = [ex_input 0 (replicate 32 2) (zeros 32) 0xffffffff True,
                ex_input 1 (replicate 32 3) ex_prev 0 False]"

definition ex_outputs :: "output_row list" where
  "ex_outputs = [ex_output 0 (replicate 32 2) 50, ex_output 1 (replicate 32 3) 25]"

lemmas ex_defs = ex_prev_def ex_value_def ex_db_def ex_output_def ex_input_def ex_tx_def ex_txs_def
  ex_inputs_def ex_outputs_def

lemma ex_rows: "rows_ok ex_inputs ex_outputs" "indices_ok ex_txs ex_inputs ex_outputs"
  by (simp_all add: rows_ok_def indices_ok_def ex_defs)

lemma ex_fresh: "fresh_outputs ex_db ex_outputs"
  by (simp add: fresh_outputs_def ex_defs out_key_def make_key_inject)

lemma iterates_id: "iterates (\<lambda>xs. xs)"
  by (simp add: iterates_def)

section \<open>Reversible stores\<close>

text \<open>
  The interface a reorganisation relies on: applying a block that fits the current state succeeds
  and disconnecting at its height restores what is observable of the state; a disconnect only
  depends on the observable state. Then any run of blocks is undone by disconnecting their heights
  in reverse order.
\<close>

fun opt_run :: "('x \<Rightarrow> 's \<Rightarrow> 's option) \<Rightarrow> 'x list \<Rightarrow> 's \<Rightarrow> 's option" where
  "opt_run f [] s = Some s"
| "opt_run f (x # xs) s = Option.bind (f x s) (opt_run f xs)"

text \<open>Every block of the run fits the state it is applied to.\<close>

fun fits_run :: "('b \<Rightarrow> 's \<Rightarrow> 's option) \<Rightarrow> ('b \<Rightarrow> 's \<Rightarrow> bool) \<Rightarrow> 'b list \<Rightarrow> 's \<Rightarrow> bool" where
  "fits_run f fit [] s = True"
| "fits_run f fit (b # bs) s =
    (fit b s \<and> (case f b s of None \<Rightarrow> True | Some s' \<Rightarrow> fits_run f fit bs s'))"

lemma opt_run_append: "opt_run f (xs @ ys) s = Option.bind (opt_run f xs s) (opt_run f ys)"
proof (induction xs arbitrary: s)
  case (Cons x xs)
  then show ?case by (cases "f x s") simp_all
qed simp

locale reversible =
  fixes fwd :: "'b \<Rightarrow> 's \<Rightarrow> 's option" and bwd :: "u32 \<Rightarrow> 's \<Rightarrow> 's option"
    and height :: "'b \<Rightarrow> u32" and obs :: "'s \<Rightarrow> 'o" and fits :: "'b \<Rightarrow> 'o \<Rightarrow> bool"
    and good :: "'s \<Rightarrow> bool"
  assumes inverse: "good s \<Longrightarrow> fits b (obs s) \<Longrightarrow>
      \<exists>s' s''. fwd b s = Some s' \<and> good s' \<and> bwd (height b) s' = Some s'' \<and> good s'' \<and> obs s'' = obs s"
    and bwd_obs: "good s \<Longrightarrow> good t \<Longrightarrow> obs s = obs t \<Longrightarrow> bwd n s = Some s' \<Longrightarrow>
      \<exists>t'. bwd n t = Some t' \<and> good t' \<and> obs t' = obs s'"
begin

lemma reorg_restores:
  "good s \<Longrightarrow> fits_run fwd (\<lambda>b s. fits b (obs s)) bs s \<Longrightarrow>
     \<exists>s' s''. opt_run fwd bs s = Some s' \<and> good s' \<and> opt_run bwd (rev (map height bs)) s' = Some s''
       \<and> good s'' \<and> obs s'' = obs s"
proof (induction bs arbitrary: s)
  case Nil
  then show ?case by simp
next
  case (Cons b bs)
  then obtain s1 s2 where f: "fwd b s = Some s1" "good s1" and b: "bwd (height b) s1 = Some s2"
    "good s2" "obs s2 = obs s"
    using inverse [of s b] by auto
  then obtain s' t where r: "opt_run fwd bs s1 = Some s'" "good s'"
    "opt_run bwd (rev (map height bs)) s' = Some t" "good t" "obs t = obs s1"
    using Cons.IH [of s1] Cons.prems by auto
  then obtain t' where "bwd (height b) t = Some t'" "good t'" "obs t' = obs s2"
    using bwd_obs [OF f(2) r(4) _ b(1)] by metis
  with f b r show ?case by (simp add: opt_run_append)
qed

end

record store_block =
  sb_height :: u32
  sb_txs :: "tx_row list"
  sb_inputs :: "input_row list"
  sb_outputs :: "output_row list"

definition store_fwd :: "'db rocks \<Rightarrow> hm_iter \<Rightarrow> store_block \<Rightarrow> 'db utxo_store \<Rightarrow> 'db utxo_store option" where
  "store_fwd R it b st = (case apply_block R it (sb_height b) (sb_txs b) (sb_inputs b) (sb_outputs b) st of
     Inl _ \<Rightarrow> None | Inr (_, st') \<Rightarrow> Some st')"

definition store_bwd :: "'db rocks \<Rightarrow> u32 \<Rightarrow> 'db utxo_store \<Rightarrow> 'db utxo_store option" where
  "store_bwd R n st = (case disconnect_block R n st of Inl _ \<Rightarrow> None | Inr st' \<Rightarrow> Some st')"

definition live_store :: "'db utxo_store \<Rightarrow> bool" where
  "live_store st \<longleftrightarrow> st_undo_enabled st \<and> st_recent st = None"

text \<open>A well-formed block, new outpoints, and no undo record yet at its height.\<close>

definition block_fits :: "store_block \<Rightarrow> db_view \<Rightarrow> bool" where
  "block_fits b m \<longleftrightarrow> rows_ok (sb_inputs b) (sb_outputs b)
     \<and> indices_ok (sb_txs b) (sb_inputs b) (sb_outputs b)
     \<and> fresh_outputs m (sb_outputs b) \<and> m CF_UNDO (undo_key (sb_height b)) = None"

lemma disconnect_keeps_mode:
  "disconnect_block R h st = Inr st' \<Longrightarrow> st_undo_enabled st' = st_undo_enabled st \<and> st_recent st' = st_recent st"
  by (auto simp: disconnect_block_def res_simps Let_def)

lemma disconnect_by_view:
  assumes "rocks_total R view" and "disconnect_block R n s = Inr s'" and "view (st_db s) = view (st_db t)"
  shows "\<exists>t'. disconnect_block R n t = Inr t' \<and> view (st_db t') = view (st_db s')"
proof -
  have snd: "rocks_sound R view" using assms(1) by (simp add: rocks_total_def)
  have w: "\<exists>db'. r_write R db ops wo = Inr db'" for db ops wo
    by (rule rocks_total.write_total [OF assms(1)])
  from assms(2) obtain raw undo db' where
    "view (st_db s) CF_UNDO (undo_key n) = Some raw" "block_undo_decode raw = Some undo"
    and s': "r_write R (st_db s) (map (\<lambda>(key, val). BPut CF_DEFAULT key (utxo_value_encode val)) (undo_spent undo)
          @ map (BDelete CF_DEFAULT) (undo_created undo) @ [BDelete CF_UNDO (undo_key n)])
        (write_options_default\<lparr>wo_sync := True\<rparr>) = Inr db'" "s' = s\<lparr>st_db := db'\<rparr>"
    by (auto simp: disconnect_block_def rocks_total.get_view [OF assms(1)] res_simps Let_def)
  moreover obtain db'' where t': "r_write R (st_db t) (map (\<lambda>(key, val). BPut CF_DEFAULT key (utxo_value_encode val)) (undo_spent undo)
          @ map (BDelete CF_DEFAULT) (undo_created undo) @ [BDelete CF_UNDO (undo_key n)])
        (write_options_default\<lparr>wo_sync := True\<rparr>) = Inr db''" using w by blast
  ultimately have "disconnect_block R n t = Inr (t\<lparr>st_db := db''\<rparr>)"
    using assms(3) by (simp add: disconnect_block_def rocks_total.get_view [OF assms(1)])
  moreover have "view db'' = view db'"
    using rocks_sound.write_sound [OF snd s'(1)] rocks_sound.write_sound [OF snd t'] assms(3) by simp
  ultimately show ?thesis using s'(2) by simp
qed

lemma store_reversible:
  assumes "rocks_total R view" and "iterates it"
  shows "reversible (store_fwd R it) (store_bwd R) sb_height (\<lambda>st. view (st_db st)) block_fits live_store"
proof
  fix s b
  assume g: "live_store s" and f: "block_fits b (view (st_db s))"
  have snd: "rocks_sound R view" using assms(1) by (simp add: rocks_total_def)
  obtain res s' where a: "apply_block R it (sb_height b) (sb_txs b) (sb_inputs b) (sb_outputs b) s = Inr (res, s')"
    using apply_block_total [OF assms(1)] f by (metis block_fits_def)
  have coh: "coherent (utxos (view (st_db s))) (st_recent s)"
    using g by (simp add: live_store_def coherent_def)
  have g': "live_store s'"
    using apply_block_result(5,6) [OF snd assms(2) coh a] g by (simp add: live_store_def)
  obtain s'' where d: "disconnect_block R (sb_height b) s' = Inr s''"
    and v: "view (st_db s'') = (view (st_db s))(CF_UNDO := (view (st_db s) CF_UNDO)(undo_key (sb_height b) := None))"
    using disconnect_restores [OF assms _ _ _ _ a] g f by (auto simp: live_store_def block_fits_def)
  have "(view (st_db s) CF_UNDO)(undo_key (sb_height b) := None) = view (st_db s) CF_UNDO"
    using f by (simp add: block_fits_def fun_upd_idem)
  then have "view (st_db s'') = view (st_db s)" using v by (simp add: fun_upd_idem)
  moreover have "live_store s''"
    using g' disconnect_keeps_mode [OF d] by (simp add: live_store_def)
  ultimately show "\<exists>s' s''. store_fwd R it b s = Some s' \<and> live_store s'
      \<and> store_bwd R (sb_height b) s' = Some s'' \<and> live_store s'' \<and> view (st_db s'') = view (st_db s)"
    using a d g' by (auto simp: store_fwd_def store_bwd_def)
next
  fix s t n s'
  assume "live_store s" "live_store t" "view (st_db s) = view (st_db t)" "store_bwd R n s = Some s'"
  then show "\<exists>t'. store_bwd R n t = Some t' \<and> live_store t' \<and> view (st_db t') = view (st_db s')"
    using disconnect_by_view [OF assms(1), of n s s' t] disconnect_keeps_mode [of R n t]
    by (auto simp: store_bwd_def live_store_def split: sum.splits)
qed

interpretation rev_store: reversible "store_fwd map_rocks (\<lambda>xs. xs)" "store_bwd map_rocks" sb_height
    st_db block_fits live_store
  using store_reversible [OF mr.rocks_total_axioms iterates_id] by simp

section \<open>Properties\<close>

text \<open>C3. Disconnecting a block undoes applying it. On a live store (undo log on, no cache), over a
  database that does not fail, applying any block whose outpoints are new succeeds, disconnecting
  it at the same height succeeds, and the database is back to what it was before the block, byte
  for byte in every column family, with the undo record consumed.\<close>

theorem disconnect_inverts_apply:
  assumes "rocks_total R view" and "iterates it"
    and "st_undo_enabled st" and "st_recent st = None"
    and "rows_ok inputs outputs" and "indices_ok txs inputs outputs"
    and "fresh_outputs (view (st_db st)) outputs"
  shows "\<exists>res st' st''. apply_block R it h txs inputs outputs st = Inr (res, st')
     \<and> disconnect_block R h st' = Inr st''
     \<and> view (st_db st'') = (view (st_db st))(CF_UNDO := (view (st_db st) CF_UNDO)(undo_key h := None))"
  using apply_block_total [OF assms(1,6)] disconnect_restores [OF assms(1-5,7)] by metis

theorem disconnect_inverts_apply_witness:
  "\<exists>res st' st''. apply_block map_rocks (\<lambda>xs. xs) 7 ex_txs ex_inputs ex_outputs (mem_store True None ex_db)
       = Inr (res, st')
     \<and> disconnect_block map_rocks 7 st' = Inr st''
     \<and> st_db st'' = ex_db(CF_UNDO := (ex_db CF_UNDO)(undo_key 7 := None))"
  using disconnect_inverts_apply [OF mr.rocks_total_axioms iterates_id, of "mem_store True None ex_db"
      ex_inputs ex_outputs ex_txs 7]
  by (simp add: mem_store_def ex_rows ex_fresh)

text \<open>C4. Applying a block is the set-theoretic UTXO update it stands for: the set after the block is
  the set before it, extended with every output the block creates, minus every outpoint its
  non-coinbase inputs name. This holds with or without the cache and the undo log, and also when the
  block recreates an outpoint of the set, unless it spends that outpoint as well.\<close>

theorem apply_block_refines:
  assumes "rocks_sound R view" and "iterates it"
    and "coherent (utxos (view (st_db st))) (st_recent st)"
    and "apply_block R it h txs inputs outputs st = Inr (res, st')"
    and "rows_ok inputs outputs" and "no_respend (utxos (view (st_db st))) inputs outputs"
  shows "utxos (view (st_db st')) = (utxos (view (st_db st)) ++ created h outputs) |` (- spent_keys inputs)"
  using assms by (rule apply_refines)

lemma ex_apply:
  obtains res st' where
    "apply_block map_rocks (\<lambda>xs. xs) 7 ex_txs ex_inputs ex_outputs (mem_store u rc ex_db) = Inr (res, st')"
  using apply_block_total [OF mr.rocks_total_axioms ex_rows(2)] by blast

theorem apply_block_refines_witness:
  "\<exists>res st'. apply_block map_rocks (\<lambda>xs. xs) 7 ex_txs ex_inputs ex_outputs (mem_store False None ex_db)
       = Inr (res, st')
     \<and> utxos (st_db st') = (utxos ex_db ++ created 7 ex_outputs) |` (- spent_keys ex_inputs)"
proof -
  obtain res st' where a: "apply_block map_rocks (\<lambda>xs. xs) 7 ex_txs ex_inputs ex_outputs
      (mem_store False None ex_db) = Inr (res, st')" by (rule ex_apply)
  have "utxos (st_db st') = (utxos ex_db ++ created 7 ex_outputs) |` (- spent_keys ex_inputs)"
    using apply_block_refines [OF mr.rocks_sound_axioms iterates_id _ a ex_rows(1)] ex_fresh
    by (simp add: mem_store_def coherent_def no_respend_def fresh_outputs_def utxos_def)
  with a show ?thesis by blast
qed

text \<open>C5. The recent-UTXO cache is transparent. Take a bulk-mode store with any coherent cache and
  the same store without one: both apply the block, with the same spend rows, fees and missing
  count, and leave the same database; and the cache is coherent again afterwards.\<close>

theorem cache_transparent:
  assumes "rocks_total R view" and "iterates it"
    and "coherent (utxos (view (st_db st))) (st_recent st)" and "\<not> st_undo_enabled st"
    and "rows_ok inputs outputs" and "indices_ok txs inputs outputs"
  shows "\<exists>res st' res0 st0.
       apply_block R it h txs inputs outputs st = Inr (res, st')
     \<and> apply_block R it h txs inputs outputs (st\<lparr>st_recent := None\<rparr>) = Inr (res0, st0)
     \<and> sr_spends res = sr_spends res0 \<and> sr_fees res = sr_fees res0 \<and> sr_missing res = sr_missing res0
     \<and> view (st_db st') = view (st_db st0)
     \<and> coherent (utxos (view (st_db st'))) (st_recent st')"
proof -
  have snd: "rocks_sound R view" using assms(1) by (simp add: rocks_total_def)
  let ?st0 = "st\<lparr>st_recent := None\<rparr>"
  obtain res st' res0 st0 where a: "apply_block R it h txs inputs outputs st = Inr (res, st')"
    and b: "apply_block R it h txs inputs outputs ?st0 = Inr (res0, st0)"
    using apply_block_total [OF assms(1,6)] by metis
  have coh0: "coherent (utxos (view (st_db ?st0))) (st_recent ?st0)" by (simp add: coherent_def)
  note ra = apply_block_result [OF snd assms(2,3) a] and rb = apply_block_result [OF snd assms(2) coh0 b]
  note va = apply_block_view [OF snd assms(2,3) a] and vb = apply_block_view [OF snd assms(2) coh0 b]
  have e: "st_db ?st0 = st_db st" "st_undo_enabled ?st0 = st_undo_enabled st" by simp_all
  have "view (st_db st') c k = view (st_db st0) c k" for c k
    using va vb(2,4) vb(1) [unfolded e] assms(4) by (cases c) simp_all
  then have "view (st_db st') = view (st_db st0)" by blast
  moreover have "sr_spends res = sr_spends res0" "sr_fees res = sr_fees res0"
    "sr_missing res = sr_missing res0"
    using ra rb by simp_all
  ultimately show ?thesis
    using a b apply_block_coherent [OF snd assms(2,3) a assms(5)] by blast
qed

theorem cache_transparent_witness:
  "let cache = cache_insert (make_key ex_prev 0) ex_value (cache_new 1120);
       st = mem_store False (Some cache) ex_db
   in \<exists>res st' res0 st0.
        apply_block map_rocks (\<lambda>xs. xs) 7 ex_txs ex_inputs ex_outputs st = Inr (res, st')
      \<and> apply_block map_rocks (\<lambda>xs. xs) 7 ex_txs ex_inputs ex_outputs (st\<lparr>st_recent := None\<rparr>) = Inr (res0, st0)
      \<and> sr_spends res = sr_spends res0 \<and> sr_fees res = sr_fees res0 \<and> sr_missing res = sr_missing res0
      \<and> st_db st' = st_db st0 \<and> coherent (utxos (st_db st')) (st_recent st')"
proof -
  let ?cache = "cache_insert (make_key ex_prev 0) ex_value (cache_new 1120)"
  have "utxos ex_db (make_key ex_prev 0) = Some ex_value"
    by (simp add: utxos_def ex_db_def utxo_decode_encode utxo_value_ok_def ex_value_def)
  then have "cache_view ?cache \<subseteq>\<^sub>m utxos ex_db"
    using cache_insert_view [of "make_key ex_prev 0" ex_value "cache_new 1120"]
    by (auto simp: map_le_def cache_view_def cache_new_def split: if_splits)
  then have "coherent (utxos ex_db) (Some ?cache)"
    by (simp add: coherent_def cache_insert_ok cache_new_ok)
  with cache_transparent [OF mr.rocks_total_axioms iterates_id, of "mem_store False (Some ?cache) ex_db"
      ex_inputs ex_outputs ex_txs 7]
  show ?thesis by (simp add: mem_store_def ex_rows Let_def)
qed

definition noncoinbase :: "input_row list \<Rightarrow> input_row list" where
  "noncoinbase = filter (\<lambda>i. \<not> i_is_coinbase i)"

lemma resolve_inputs: "map fst (resolve P D inputs) = noncoinbase inputs"
  by (induction inputs arbitrary: P) (simp_all add: noncoinbase_def)

lemma spend_rows_count: "length (spend_rows h rs) + not_found rs = length rs"
proof (induction h rs rule: spend_rows.induct)
  case (2 h i r rs)
  then show ?case by (cases r) (auto simp: not_found_def)
qed (simp add: not_found_def)

text \<open>C8. Every non-coinbase input is looked up exactly once, in the block, in the cache or in the
  database, and yields either a spend row or a missing input: the three lookup counters add up to
  the number of non-coinbase inputs, and so do spend rows and \<open>missing\<close> (64-bit counters).\<close>

theorem lookup_accounting:
  assumes "rocks_sound R view" and "iterates it"
    and "coherent (utxos (view (st_db st))) (st_recent st)"
    and "apply_block R it h txs inputs outputs st = Inr (res, st')"
  shows "sr_pending_hits res + sr_db_lookups res + sr_cache_hits res
       = of_nat (length (noncoinbase inputs))
     \<and> of_nat (length (sr_spends res)) + sr_missing res = of_nat (length (noncoinbase inputs))
     \<and> (st_recent st = None \<longrightarrow> sr_cache_hits res = 0)"
proof -
  let ?rs = "resolve (created h outputs) (utxos (view (st_db st))) inputs"
  have "length ?rs = length (noncoinbase inputs)"
    using resolve_inputs [of _ _ inputs] by (metis length_map)
  moreover have "(of_nat (length (spend_rows h ?rs)) + of_nat (not_found ?rs) :: u64) = of_nat (length ?rs)"
    by (metis spend_rows_count of_nat_add)
  ultimately show ?thesis
    using apply_block_result [OF assms(1-4)] by simp
qed

theorem lookup_accounting_witness:
  "\<exists>res st'. apply_block map_rocks (\<lambda>xs. xs) 7 ex_txs ex_inputs ex_outputs (mem_store False None ex_db)
       = Inr (res, st')
     \<and> sr_pending_hits res + sr_db_lookups res + sr_cache_hits res = 1"
proof -
  obtain res st' where a: "apply_block map_rocks (\<lambda>xs. xs) 7 ex_txs ex_inputs ex_outputs
      (mem_store False None ex_db) = Inr (res, st')" by (rule ex_apply)
  have "length (noncoinbase ex_inputs) = 1" by (simp add: noncoinbase_def ex_defs)
  with lookup_accounting [OF mr.rocks_sound_axioms iterates_id _ a]
  have "sr_pending_hits res + sr_db_lookups res + sr_cache_hits res = 1"
    by (auto simp: mem_store_def coherent_def)
  with a show ?thesis by blast
qed

text \<open>C7. The fee of transaction \<open>i\<close> is the value of the outputs its inputs spend (saturated at
  64 bits) minus the value of its outputs, and 0 when the outputs exceed the inputs; there is one
  fee per transaction.\<close>

theorem fee_is_inputs_minus_outputs:
  assumes "rocks_sound R view" and "iterates it"
    and "coherent (utxos (view (st_db st))) (st_recent st)"
    and "apply_block R it h txs inputs outputs st = Inr (res, st')"
    and "i < length txs"
  shows "length (sr_fees res) = length txs
     \<and> unat (sr_fees res ! i) =
       min (spent_sum i (resolve (created h outputs) (utxos (view (st_db st))) inputs)) (2 ^ 64 - 1)
       - output_sum i outputs"
  using charge_outputs_sum [OF apply_block_result(4) [OF assms(1-4)], of i] assms(5)
  by (simp add: unat_credit)

theorem fee_is_inputs_minus_outputs_witness:
  "\<exists>res st'. apply_block map_rocks (\<lambda>xs. xs) 7 ex_txs ex_inputs ex_outputs (mem_store False None ex_db)
       = Inr (res, st')
     \<and> unat (sr_fees res ! 1) = min (spent_sum 1 (resolve (created 7 ex_outputs) (utxos ex_db) ex_inputs))
         (2 ^ 64 - 1) - output_sum 1 ex_outputs"
proof -
  obtain res st' where a: "apply_block map_rocks (\<lambda>xs. xs) 7 ex_txs ex_inputs ex_outputs
      (mem_store False None ex_db) = Inr (res, st')" by (rule ex_apply)
  have "1 < length ex_txs" by (simp add: ex_defs)
  with fee_is_inputs_minus_outputs [OF mr.rocks_sound_axioms iterates_id _ a, of 1] a
  show ?thesis by (simp add: mem_store_def coherent_def)
qed

lemma set_tip_total:
  assumes "rocks_total R view" and "length (tip_st_hash t) = 32"
  shows "\<exists>st'. set_tip R t st = Inr st' \<and> store_tip R st' = Inr (Some t)
     \<and> view (st_db st') CF_DEFAULT = view (st_db st) CF_DEFAULT
     \<and> view (st_db st') CF_UNDO = view (st_db st) CF_UNDO
     \<and> st_recent st' = st_recent st \<and> st_undo_enabled st' = st_undo_enabled st"
proof -
  let ?b = "to_le (tip_st_height t) @ tip_st_hash t"
  obtain db' where w: "r_write R (st_db st) [BPut CF_META META_TIP_KEY ?b]
      (write_options_default\<lparr>wo_sync := True\<rparr>) = Inr db'"
    using rocks_total.write_total [OF assms(1)] by blast
  have "view db' = apply_ops [BPut CF_META META_TIP_KEY ?b] (view (st_db st))"
    using assms(1) by (intro rocks_sound.write_sound [OF _ w]) (simp add: rocks_total_def)
  with w assms(2) show ?thesis
    by (simp add: set_tip_def store_tip_def as_bytes_def Hash32_from_bytes_def
        rocks_total.get_view [OF assms(1)])
qed

text \<open>The tip is durable: what \<open>set_tip\<close> stores, \<open>tip\<close> reads back, and nothing else of the
  database changes.\<close>

theorem tip_roundtrip:
  assumes "rocks_total R view" and "length (tip_st_hash t) = 32"
  shows "\<exists>st'. set_tip R t st = Inr st' \<and> store_tip R st' = Inr (Some t)
     \<and> view (st_db st') CF_DEFAULT = view (st_db st) CF_DEFAULT
     \<and> view (st_db st') CF_UNDO = view (st_db st) CF_UNDO"
  using set_tip_total [OF assms, of st] by blast

theorem tip_roundtrip_witness:
  "let t = \<lparr>tip_st_height = 840000, tip_st_hash = replicate 32 9\<rparr> in
   \<exists>st'. set_tip map_rocks t (mem_store True None ex_db) = Inr st' \<and> store_tip map_rocks st' = Inr (Some t)"
  using tip_roundtrip [OF mr.rocks_total_axioms, of "\<lparr>tip_st_height = 840000, tip_st_hash = replicate 32 9\<rparr>"
      "mem_store True None ex_db"]
  by (auto simp: Let_def)

text \<open>C6. A reorganisation of any depth is reversible: apply a run of blocks on a live store, each
  fitting the state it meets (well-formed rows, new outpoints, a height without undo record),
  then disconnect their heights from last to first. Every step succeeds and the database ends
  exactly as it began.\<close>

theorem reorg_any_depth_restores:
  assumes "rocks_total R view" and "iterates it" and "live_store st"
    and "fits_run (store_fwd R it) (\<lambda>b s. block_fits b (view (st_db s))) bs st"
  shows "\<exists>st' st''. opt_run (store_fwd R it) bs st = Some st'
     \<and> opt_run (store_bwd R) (rev (map sb_height bs)) st' = Some st''
     \<and> view (st_db st'') = view (st_db st)"
  using reversible.reorg_restores [OF store_reversible [OF assms(1,2)] assms(3), of bs] assms(4) by auto

definition ex_block :: store_block where
  "ex_block = \<lparr>sb_height = 7, sb_txs = ex_txs, sb_inputs = ex_inputs, sb_outputs = ex_outputs\<rparr>"

theorem reorg_any_depth_restores_witness:
  "\<exists>st' st''. opt_run (store_fwd map_rocks (\<lambda>xs. xs)) [ex_block] (mem_store True None ex_db) = Some st'
     \<and> opt_run (store_bwd map_rocks) [7] st' = Some st'' \<and> st_db st'' = ex_db"
proof -
  have "block_fits ex_block ex_db"
    by (simp add: block_fits_def ex_block_def ex_rows ex_fresh) (simp add: ex_db_def)
  then have "fits_run (store_fwd map_rocks (\<lambda>xs. xs)) (\<lambda>b s. block_fits b (st_db s)) [ex_block]
      (mem_store True None ex_db)"
    by (simp add: mem_store_def split: option.splits)
  with reorg_any_depth_restores [OF mr.rocks_total_axioms iterates_id, of "mem_store True None ex_db" "[ex_block]"]
  have "\<exists>st' st''. opt_run (store_fwd map_rocks (\<lambda>xs. xs)) [ex_block] (mem_store True None ex_db) = Some st'
     \<and> opt_run (store_bwd map_rocks) (rev (map sb_height [ex_block])) st' = Some st''
     \<and> st_db st'' = st_db (mem_store True None ex_db)"
    by (simp add: live_store_def) (simp add: mem_store_def)
  then show ?thesis by (simp add: ex_block_def mem_store_def)
qed




end
