(* ===== verification/Store_Open.thy ===== *)
theory Store_Open
  imports Store_Correct Core_Disk Core_Float
begin

text \<open>
  Opening the UTXO store and reading its statistics (\<open>bidx-store/src/utxo.rs\<close>): the RocksDB options,
  the five ways to open the store, \<open>flush\<close> and the property readers.

  The options of RocksDB are the sequences of settings the code makes on a default value. A block cache
  made by \<open>Cache::new_lru_cache\<close> is a new object each time; here it is a number drawn from the counter
  that \<open>tuned_options\<close> and \<open>cf_descriptors\<close> pass on. Opening, flushing and reading a property are
  operations of RocksDB, the record \<open>rocks_admin\<close>; that a flush changes no entry is the law of
  \<open>rocks_flush\<close>.
\<close>

section \<open>Options\<close>

datatype compression = Lz4 | Zstd

datatype block_opt =
    BlockCache nat nat
  | CacheIndexAndFilterBlocks bool
  | PinL0FilterAndIndexBlocksInCache bool
  | BloomFilter nat bool
  | WholeKeyFiltering bool

datatype db_opt =
    CreateIfMissing bool
  | CreateMissingColumnFamilies bool
  | WriteBufferSize nat
  | MaxWriteBufferNumber nat
  | TargetFileSizeBase nat
  | LevelZeroFileNumCompactionTrigger nat
  | LevelZeroSlowdownWritesTrigger nat
  | LevelZeroStopWritesTrigger nat
  | MaxBackgroundJobs nat
  | IncreaseParallelism nat
  | CompressionType compression
  | BottommostCompressionType compression
  | BlockBasedTableFactory "block_opt list"
  | EnableStatistics
  | StatsDumpPeriodSec nat

definition BLOCK_CACHE_BYTES :: nat where
  "BLOCK_CACHE_BYTES = 2 ^ 30"

definition new_lru_cache :: "nat \<Rightarrow> nat \<Rightarrow> block_opt \<times> nat" where
  "new_lru_cache bytes fresh = (BlockCache fresh bytes, fresh + 1)"

definition tuned_options :: "bool \<Rightarrow> nat \<Rightarrow> db_opt list \<times> nat" where
  "tuned_options statistics fresh =
    (let opts = [CreateIfMissing True, CreateMissingColumnFamilies True,
           WriteBufferSize (512 * 2 ^ 20), MaxWriteBufferNumber 4, TargetFileSizeBase (256 * 2 ^ 20),
           LevelZeroFileNumCompactionTrigger 8, LevelZeroSlowdownWritesTrigger 20,
           LevelZeroStopWritesTrigger 30, MaxBackgroundJobs 8, IncreaseParallelism 8,
           CompressionType Lz4, BottommostCompressionType Zstd];
         (cache, fresh) = new_lru_cache BLOCK_CACHE_BYTES fresh;
         block_opts = [cache, CacheIndexAndFilterBlocks True, PinL0FilterAndIndexBlocksInCache True,
           BloomFilter 10 False, WholeKeyFiltering True];
         opts = opts @ [BlockBasedTableFactory block_opts]
     in (if statistics then opts @ [EnableStatistics, StatsDumpPeriodSec 0] else opts, fresh))"

section \<open>Opening\<close>

record 'db rocks_admin =
  ro_open :: "db_opt list \<Rightarrow> path \<Rightarrow> (cf \<times> db_opt list) list \<Rightarrow> rocks_error + 'db"
  ro_flush :: "'db \<Rightarrow> rocks_error + 'db"
  ro_property :: "'db \<Rightarrow> string \<Rightarrow> rocks_error + string option"

text \<open>The options of the database and those of its column families.\<close>

definition cf_descriptors :: "bool \<Rightarrow> db_opt list \<times> (cf \<times> db_opt list) list" where
  "cf_descriptors statistics =
    (let (opts, fresh) = tuned_options statistics 0;
         opts = opts @ [CreateIfMissing True, CreateMissingColumnFamilies True];
         (utxo_cf_opts, fresh) = tuned_options statistics fresh;
         (cache, fresh) = new_lru_cache BLOCK_CACHE_BYTES fresh;
         aux_cf_opts = [BlockBasedTableFactory [cache], CompressionType Lz4]
     in (opts, [(CF_DEFAULT, utxo_cf_opts), (CF_UNDO, aux_cf_opts), (CF_META, aux_cf_opts)]))"

definition open_with ::
    "'db rocks_admin \<Rightarrow> path \<Rightarrow> bool \<Rightarrow> bool \<Rightarrow> bool \<Rightarrow> utxo_error + 'db utxo_store" where
  "open_with A p wal undo_enabled statistics =
    (let (opts, cf_defs) = cf_descriptors statistics in
     res_bind (map_err Rocks (ro_open A opts p cf_defs)) (\<lambda>db.
     Inr \<lparr>st_db = db, st_path = p, st_pending = [], st_recent = None, st_undo_enabled = undo_enabled,
          st_statistics = statistics\<rparr>))"

definition store_open :: "'db rocks_admin \<Rightarrow> path \<Rightarrow> utxo_error + 'db utxo_store" where
  "store_open A p = open_with A p False False False"

definition open_live :: "'db rocks_admin \<Rightarrow> path \<Rightarrow> utxo_error + 'db utxo_store" where
  "open_live A p = open_with A p True True False"

definition open_statistics :: "'db rocks_admin \<Rightarrow> path \<Rightarrow> utxo_error + 'db utxo_store" where
  "open_statistics A p = open_with A p False False True"

definition open_cached :: "'db rocks_admin \<Rightarrow> path \<Rightarrow> nat \<Rightarrow> utxo_error + 'db utxo_store" where
  "open_cached A p cache_size =
    res_bind (open_with A p False False False) (\<lambda>store. Inr (store\<lparr>st_recent := Some (cache_new cache_size)\<rparr>))"

definition open_cached_statistics :: "'db rocks_admin \<Rightarrow> path \<Rightarrow> nat \<Rightarrow> utxo_error + 'db utxo_store" where
  "open_cached_statistics A p cache_size =
    res_bind (open_with A p False False True) (\<lambda>store. Inr (store\<lparr>st_recent := Some (cache_new cache_size)\<rparr>))"

definition store_flush :: "'db rocks_admin \<Rightarrow> 'db utxo_store \<Rightarrow> utxo_error + 'db utxo_store" where
  "store_flush A st =
    res_bind (map_err Rocks (ro_flush A (st_db st))) (\<lambda>db. Inr (st\<lparr>st_db := db\<rparr>))"

section \<open>Statistics\<close>

definition hit_rate :: "'f f64 \<Rightarrow> cache_stats_row \<Rightarrow> 'f option" where
  "hit_rate F s =
    (let total = cs_hits s + cs_misses s in
     if total = 0 then None else Some (f_div F (f_of_int F (uint (cs_hits s))) (f_of_int F (uint total))))"

definition property_value :: "'db rocks_admin \<Rightarrow> 'db utxo_store \<Rightarrow> string \<Rightarrow> string option" where
  "property_value A st prop = (case ro_property A (st_db st) prop of Inl _ \<Rightarrow> None | Inr v \<Rightarrow> v)"

definition approx_size_on_disk :: "'db rocks_admin \<Rightarrow> 'db utxo_store \<Rightarrow> u64" where
  "approx_size_on_disk A st =
    (case Option.bind (property_value A st ''rocksdb.estimate-live-data-size'') parse_u64 of
       Some n \<Rightarrow> n | None \<Rightarrow> 0)"

definition property_or_unavailable :: "'db rocks_admin \<Rightarrow> 'db utxo_store \<Rightarrow> string \<Rightarrow> string" where
  "property_or_unavailable A st prop =
    (case property_value A st prop of Some v \<Rightarrow> v | None \<Rightarrow> ''unavailable'')"

definition PERF_KEYS :: "(string \<times> string) list" where
  "PERF_KEYS =
    [(''rocksdb.cur-size-all-mem-tables'', ''cur_size_all_mem_tables''),
     (''rocksdb.size-all-mem-tables'', ''size_all_mem_tables''),
     (''rocksdb.cur-size-active-mem-table'', ''cur_size_active_mem_table''),
     (''rocksdb.num-immutable-mem-table'', ''num_immutable_mem_table''),
     (''rocksdb.mem-table-flush-pending'', ''mem_table_flush_pending''),
     (''rocksdb.num-running-flushes'', ''num_running_flushes''),
     (''rocksdb.compaction-pending'', ''compaction_pending''),
     (''rocksdb.num-running-compactions'', ''num_running_compactions''),
     (''rocksdb.is-write-stopped'', ''is_write_stopped''),
     (''rocksdb.actual-delayed-write-rate'', ''actual_delayed_write_rate''),
     (''rocksdb.estimate-num-keys'', ''estimate_num_keys''),
     (''rocksdb.estimate-live-data-size'', ''estimate_live_data_size''),
     (''rocksdb.total-sst-files-size'', ''total_sst_files_size''),
     (''rocksdb.block-cache-capacity'', ''block_cache_capacity''),
     (''rocksdb.block-cache-usage'', ''block_cache_usage'')]"

definition perf_properties :: "'db rocks_admin \<Rightarrow> 'db utxo_store \<Rightarrow> (string \<times> string) list" where
  "perf_properties A st =
    map (\<lambda>(prop, name). (name, property_or_unavailable A st prop)) PERF_KEYS
    @ [(''num_files_at_level0'', property_or_unavailable A st ''rocksdb.num-files-at-level0'')]"

definition contains :: "string \<Rightarrow> string \<Rightarrow> bool" where
  "contains l s = (\<exists>i\<in>set [0..<length l + 1]. take (length s) (drop i l) = s)"

definition stall_report :: "'db rocks_admin \<Rightarrow> 'db utxo_store \<Rightarrow> string list" where
  "stall_report A st =
    (case property_value A st ''rocksdb.stats'' of
       None \<Rightarrow> []
     | Some s \<Rightarrow> map trim (filter (\<lambda>l. contains l ''stall'' \<or> contains l ''Stall'') (lines s)))"

definition disk_size_bytes :: "'w host \<Rightarrow> 'w \<Rightarrow> 'db utxo_store \<Rightarrow> u64" where
  "disk_size_bytes H w st = dir_size_bytes H w (st_path st)"

text \<open>Every snapshot has the same names in the same order, whatever RocksDB answers.\<close>

lemma perf_properties_names:
  "map fst (perf_properties A st) = map snd PERF_KEYS @ [''num_files_at_level0'']"
  by (simp add: perf_properties_def case_prod_beta comp_def)

lemma length_perf_properties: "length (perf_properties A st) = 16"
  by (simp add: perf_properties_def PERF_KEYS_def)

section \<open>Block caches\<close>

fun block_caches :: "db_opt list \<Rightarrow> (nat \<times> nat) list" where
  "block_caches [] = []"
| "block_caches (BlockBasedTableFactory (BlockCache i n # _) # opts) = (i, n) # block_caches opts"
| "block_caches (_ # opts) = block_caches opts"

text \<open>The UTXO family does not share its block cache with the undo and meta families: they have
  separate caches of 1 GiB each, and the database options hold a third.\<close>

lemma block_caches_separate:
  "map_prod block_caches (map (map_prod id block_caches)) (cf_descriptors statistics) =
    ([(0, 2 ^ 30)], [(CF_DEFAULT, [(1, 2 ^ 30)]), (CF_UNDO, [(2, 2 ^ 30)]), (CF_META, [(2, 2 ^ 30)])])"
  by (simp add: cf_descriptors_def tuned_options_def new_lru_cache_def BLOCK_CACHE_BYTES_def Let_def)

section \<open>Stores in use\<close>

text \<open>
  A store in use: opened in one of the five ways and driven by applied blocks, written tips,
  flushes and, when it keeps undo records, disconnected blocks. The blocks are those the parser produces.
\<close>

inductive store_in_use :: "'db rocks \<Rightarrow> 'db rocks_admin \<Rightarrow> hm_iter \<Rightarrow> 'db utxo_store \<Rightarrow> bool"
  for R A it where
  Opened: "store_open A p = Inr st \<Longrightarrow> store_in_use R A it st"
| OpenedLive: "open_live A p = Inr st \<Longrightarrow> store_in_use R A it st"
| OpenedStatistics: "open_statistics A p = Inr st \<Longrightarrow> store_in_use R A it st"
| OpenedCached: "open_cached A p n = Inr st \<Longrightarrow> store_in_use R A it st"
| OpenedCachedStatistics: "open_cached_statistics A p n = Inr st \<Longrightarrow> store_in_use R A it st"
| Applied: "store_in_use R A it st \<Longrightarrow> rows_ok inputs outputs
    \<Longrightarrow> apply_block R it h txs inputs outputs st = Inr (res, st') \<Longrightarrow> store_in_use R A it st'"
| Disconnected: "store_in_use R A it st \<Longrightarrow> st_undo_enabled st
    \<Longrightarrow> disconnect_block R h st = Inr st' \<Longrightarrow> store_in_use R A it st'"
| TipSet: "store_in_use R A it st \<Longrightarrow> set_tip R tip st = Inr st' \<Longrightarrow> store_in_use R A it st'"
| Flushed: "store_in_use R A it st \<Longrightarrow> store_flush A st = Inr st' \<Longrightarrow> store_in_use R A it st'"

definition store_ok :: "('db \<Rightarrow> db_view) \<Rightarrow> 'db utxo_store \<Rightarrow> bool" where
  "store_ok view st \<longleftrightarrow> st_pending st = [] \<and> (st_undo_enabled st \<longrightarrow> st_recent st = None)
     \<and> coherent (utxos (view (st_db st))) (st_recent st)"

lemmas open_defs = store_open_def open_live_def open_statistics_def open_cached_def
  open_cached_statistics_def open_with_def

locale rocks_flush = rocks_sound R view for R :: "'db rocks" and view +
  fixes A :: "'db rocks_admin"
  assumes flush_view: "ro_flush A db = Inr db' \<Longrightarrow> view db' = view db"
begin

lemma opened_ok:
  "open_with A p wal u s = Inr st \<Longrightarrow> store_ok view st"
  "open_with A p wal False s = Inr st \<Longrightarrow> store_ok view (st\<lparr>st_recent := Some (cache_new n)\<rparr>)"
  by (auto simp: open_with_def store_ok_def coherent_def cache_new_ok res_simps split: prod.splits)
    (auto simp: cache_new_def cache_view_def map_le_def)

lemma apply_ok:
  assumes "iterates it" "store_ok view st" "rows_ok inputs outputs"
    and a: "apply_block R it h txs inputs outputs st = Inr (res, st')"
  shows "store_ok view st'"
proof -
  have coh: "coherent (utxos (view (st_db st))) (st_recent st)" using assms(2) by (simp add: store_ok_def)
  have "st_pending st' = []" using a by (auto simp: apply_block_def res_simps Let_def)
  then show ?thesis
    using apply_block_coherent [OF rocks_sound_axioms assms(1) coh a assms(3)]
      apply_block_result(5,6) [OF rocks_sound_axioms assms(1) coh a] assms(2)
    by (auto simp: store_ok_def)
qed

lemma tip_ok:
  assumes "store_ok view st" and "set_tip R tip st = Inr st'"
  shows "store_ok view st'"
proof -
  obtain db' b where w: "r_write R (st_db st) [BPut CF_META META_TIP_KEY b]
      (write_options_default\<lparr>wo_sync := True\<rparr>) = Inr db'" and st': "st' = st\<lparr>st_db := db'\<rparr>"
    using assms(2) by (auto simp: set_tip_def res_simps Let_def)
  have "utxos (view db') = utxos (view (st_db st))"
    using write_sound [OF w] by (simp add: utxos_def fun_eq_iff)
  then show ?thesis using assms(1) st' by (simp add: store_ok_def)
qed

lemma disconnect_ok:
  "store_ok view st \<Longrightarrow> st_undo_enabled st \<Longrightarrow> disconnect_block R h st = Inr st' \<Longrightarrow> store_ok view st'"
  by (auto simp: disconnect_block_def store_ok_def coherent_def res_simps Let_def)

lemma flush_ok: "store_ok view st \<Longrightarrow> store_flush A st = Inr st' \<Longrightarrow> store_ok view st'"
  by (auto simp: store_flush_def store_ok_def res_simps dest: flush_view)

lemma in_use_ok:
  assumes "iterates it"
  shows "store_in_use R A it st \<Longrightarrow> store_ok view st"
proof (induction rule: store_in_use.induct)
  case (Applied st inputs outputs h txs res st')
  then show ?case using apply_ok [OF assms] by blast
qed (auto simp: open_defs(1-5) res_simps intro: opened_ok tip_ok disconnect_ok flush_ok)

end

section \<open>An in-memory database\<close>

definition map_admin :: "db_view \<Rightarrow> db_view rocks_admin" where
  "map_admin db = \<lparr>ro_open = (\<lambda>_ _ _. Inr db), ro_flush = Inr, ro_property = (\<lambda>_ _. Inr None)\<rparr>"

interpretation mf: rocks_flush map_rocks "\<lambda>db. db" "map_admin db" for db
  by unfold_locales (simp add: map_admin_def)

section \<open>Properties\<close>



end
