(* ===== verification/Store_Ingest.thy ===== *)
theory Store_Ingest
  imports Parser_Tx Store_Correct
begin

text \<open>
  The interface between the parser and the store: whatever bytes \<open>parse_block_full\<close> accepts, the
  rows it returns are the ones \<open>apply_block\<close> and the undo log are written for. Hashes have 32
  bytes, every input and output row points at a transaction row of the same block, and the row
  counts stay below the 64-bit range, so no array index of the store is out of range.
\<close>

section \<open>Rows of one transaction\<close>

definition input_typed :: "u32 \<Rightarrow> u32 \<Rightarrow> input_row \<Rightarrow> bool" where
  "input_typed height i inp \<longleftrightarrow> i_height inp = height \<and> i_tx_index inp = i \<and> length (i_prev_txid inp) = 32"

definition output_typed :: "u32 \<Rightarrow> u32 \<Rightarrow> output_row \<Rightarrow> bool" where
  "output_typed height i out \<longleftrightarrow> o_height out = height \<and> o_tx_index out = i \<and> length (o_address_hash out) = 32
     \<and> o_value_sat out \<le> MAX_MONEY"

lemma read_loop_all:
  assumes "\<And>k c x c'. f k c = Inr (x, c') \<Longrightarrow> P x"
  shows "read_loop f k n c = Inr (xs, c') \<Longrightarrow> list_all P xs"
proof (induction n arbitrary: k c xs)
  case (Suc n)
  obtain x c1 ys where "f k c = Inr (x, c1)" "read_loop f (Suc k) n c1 = Inr (ys, c')" "xs = x # ys"
    using Suc.prems by (auto simp: res_simps)
  then show ?case using assms Suc.IH by auto
qed simp

lemma read_input_typed: "read_input h i single k c = Inr (inp, c') \<Longrightarrow> input_typed h i inp"
  by (auto simp: read_input_def input_typed_def res_simps Let_def read_array_def need_Inr remaining_def length_subslice)

lemma length_pad_slice: "length (pad_slice b) = 32"
  by (simp add: pad_slice_def Let_def)

lemma segwit_hash_length: "classify_segwit spk = Some r \<Longrightarrow> length (snd r) = 32"
  by (auto simp: classify_segwit_def Let_def length_pad_slice split: if_splits)

context digest_widths
begin

lemma pad20_length: "length d = 20 \<Longrightarrow> length (pad20 d) = 32"
  by (simp add: pad20_def)

lemma p2pk_hash_length: "classify_p2pk H spk = Some r \<Longrightarrow> length (snd r) = 32"
  by (auto simp: classify_p2pk_def Let_def pad20_length split: if_splits)

lemma address_hash_length: "length (snd (classify_script H spk)) = 32"
  unfolding classify_script_def Let_def
  by (cases "classify_segwit spk"; cases "classify_p2pk H spk")
    (simp_all add: segwit_hash_length p2pk_hash_length pad20_length length_subslice)

lemma read_output_typed:
  assumes "read_output H h i k c = Inr (out, c')"
  shows "output_typed h i out"
proof -
  have "length (snd (classify_script H spk)) = 32" for spk by (rule address_hash_length)
  then show ?thesis
    using assms by (auto simp: read_output_def output_typed_def res_simps case_prod_beta not_less split: if_splits)
qed

lemma txid_length: "length (compute_txid H w blk a b e) = 32"
  by (simp add: compute_txid_def Let_def Hash32_from_bytes_def)

end

lemma read_witnesses_typed:
  "read_witnesses inps c = Inr (inps', c') \<Longrightarrow> list_all (input_typed h i) inps
    \<Longrightarrow> list_all (input_typed h i) inps' \<and> length inps' = length inps"
proof (induction inps arbitrary: c inps')
  case (Cons inp inps)
  obtain n wb c2 rest where "read_witnesses inps c2 = Inr (rest, c')"
    "inps' = inp\<lparr>i_witness_items := n, i_witness_bytes := wb\<rparr> # rest"
    using Cons.prems(1) by (auto simp: res_simps)
  then show ?case using Cons by (auto simp: input_typed_def)
qed simp

context digest_widths
begin

lemma parse_tx_typed:
  assumes "parse_tx H blk h i c = Inr ((tx, ins, outs), c')"
  shows "t_height tx = h \<and> t_tx_index tx = i \<and> length (t_txid tx) = 32"
    and "list_all (\<lambda>inp. input_typed h i inp \<and> i_txid inp = t_txid tx) ins"
    and "list_all (\<lambda>out. output_typed h i out \<and> o_txid out = t_txid tx) outs"
    and "length ins < 2 ^ 32" and "length outs < 2 ^ 32"
proof -
  obtain n c1 ins0 c2 m outs0 c3 w ins1 c4 c5 version lock e where
    ins0: "read_loop (read_input h i (n = 1)) 0 (unat (ucast n :: u32)) c1 = Inr (ins0, c2)"
    and outs0: "read_loop (read_output H h i) 0 (unat (ucast m :: u32)) c3 = Inr (outs0, c4)"
    and ins1: "(if w then read_witnesses ins0 c4 else Inr (ins0, c4)) = Inr (ins1, c5)"
    and fin: "finish_tx H blk h i (c_pos c) (c_pos c4) e version lock w n m ins1 outs0 = (tx, ins, outs)"
    using assms by (auto simp: parse_tx_def Let_def res_simps)
  have "list_all (input_typed h i) ins0" by (rule read_loop_all [OF read_input_typed ins0])
  then have i1: "list_all (input_typed h i) ins1" "length ins1 = length ins0"
    using ins1 read_witnesses_typed by (auto split: if_splits)
  have o0: "list_all (output_typed h i) outs0" by (rule read_loop_all [OF read_output_typed outs0])
  have "length ins0 = unat (ucast n :: u32)" "length outs0 = unat (ucast m :: u32)"
    using read_loop_length ins0 outs0 by blast+
  moreover have "unat (x :: u32) < 2 ^ 32" for x using unsigned_less [of x] by simp
  ultimately have len: "length ins1 < 2 ^ 32" "length outs0 < 2 ^ 32" using i1(2) by metis+
  show "t_height tx = h \<and> t_tx_index tx = i \<and> length (t_txid tx) = 32"
    using fin txid_length by (auto simp: finish_tx_def Let_def as_bytes_def)
  show "list_all (\<lambda>inp. input_typed h i inp \<and> i_txid inp = t_txid tx) ins"
    using fin i1(1) by (auto simp: finish_tx_def Let_def list_all_iff input_typed_def)
  show "list_all (\<lambda>out. output_typed h i out \<and> o_txid out = t_txid tx) outs"
    using fin o0 by (auto simp: finish_tx_def Let_def list_all_iff output_typed_def)
  show "length ins < 2 ^ 32" and "length outs < 2 ^ 32"
    using fin len by (auto simp: finish_tx_def Let_def)
qed

text \<open>The rows collected after \<open>i\<close> transactions.\<close>

definition typed_after :: "u32 \<Rightarrow> nat \<Rightarrow> block_locals \<Rightarrow> bool" where
  "typed_after h i s \<longleftrightarrow> map t_tx_index (bl_txs s) = map of_nat [0..<i]
     \<and> (\<forall>tx \<in> set (bl_txs s). t_height tx = h \<and> length (t_txid tx) = 32)
     \<and> (\<forall>inp \<in> set (bl_inputs s). \<exists>k<i. input_typed h (of_nat k) inp \<and> i_txid inp = t_txid (bl_txs s ! k))
     \<and> (\<forall>out \<in> set (bl_outputs s). \<exists>k<i. output_typed h (of_nat k) out \<and> o_txid out = t_txid (bl_txs s ! k))
     \<and> length (bl_inputs s) \<le> i * (2 ^ 32 - 1) \<and> length (bl_outputs s) \<le> i * (2 ^ 32 - 1)"

lemma typed_after_length: "typed_after h i s \<Longrightarrow> length (bl_txs s) = i"
  unfolding typed_after_def by (metis length_map length_upt minus_nat.diff_0)

lemma typed_after_step:
  assumes "typed_after h i s" and "parse_tx H blk h (of_nat i) c = Inr ((tx, ins, outs), c')"
  shows "typed_after h (Suc i) \<lparr>bl_txs = bl_txs s @ [tx], bl_inputs = bl_inputs s @ ins,
     bl_outputs = bl_outputs s @ outs, bl_coinbase_value = v, bl_weight_sum = w\<rparr>"
proof -
  note tx = parse_tx_typed [OF assms(2)]
  have n: "length (bl_txs s) = i" by (rule typed_after_length [OF assms(1)])
  have old: "(bl_txs s @ [tx]) ! k = bl_txs s ! k" if "k < i" for k using that n by (simp add: nth_append)
  have new: "(bl_txs s @ [tx]) ! i = tx" using n by (simp add: nth_append)
  have "\<exists>k<Suc i. input_typed h (of_nat k) inp \<and> i_txid inp = t_txid ((bl_txs s @ [tx]) ! k)"
    if "inp \<in> set (bl_inputs s @ ins)" for inp
    using that assms(1) tx(2) old new unfolding typed_after_def list_all_iff
    by (metis (no_types, lifting) Un_iff less_Suc_eq set_append)
  moreover have "\<exists>k<Suc i. output_typed h (of_nat k) out \<and> o_txid out = t_txid ((bl_txs s @ [tx]) ! k)"
    if "out \<in> set (bl_outputs s @ outs)" for out
    using that assms(1) tx(3) old new unfolding typed_after_def list_all_iff
    by (metis (no_types, lifting) Un_iff less_Suc_eq set_append)
  ultimately show ?thesis
    using assms(1) tx(1,4,5) unfolding typed_after_def by auto
qed

lemma parse_txs_typed:
  "parse_txs H blk h i n s c = Inr (s', c') \<Longrightarrow> typed_after h i s \<Longrightarrow> typed_after h (i + n) s'"
proof (induction n arbitrary: i s c)
  case (Suc n)
  then obtain tx ins outs c1 where tx: "parse_tx H blk h (of_nat i) c = Inr ((tx, ins, outs), c1)"
    by (auto simp: res_simps)
  show ?case
    using Suc.prems(1) Suc.IH [OF _ typed_after_step [OF Suc.prems(2) tx]] by (simp add: tx)
qed simp

lemma parsed_typed:
  assumes "parse_block_full H payload h bh hdr = Inr b"
  obtains n :: u32 and s where "typed_after h (unat n) s" and "fb_txs b = bl_txs s"
    and "fb_inputs b = bl_inputs s" and "fb_outputs b = bl_outputs s"
proof -
  let ?s0 = "\<lparr>bl_txs = [], bl_inputs = [], bl_outputs = [], bl_coinbase_value = 0, bl_weight_sum = 0\<rparr>"
  obtain n :: u32 and c s c' where ps: "parse_txs H payload h 0 (unat n) ?s0 c = Inr (s, c')"
    and b: "fb_txs b = bl_txs s" "fb_inputs b = bl_inputs s" "fb_outputs b = bl_outputs s"
    using assms by (auto simp: parse_block_full_def res_simps Let_def split: if_splits)
  have "typed_after h 0 ?s0" by (simp add: typed_after_def)
  from parse_txs_typed [OF ps this] have "typed_after h (unat n) s" by simp
  then show thesis using that b by blast
qed

lemma parsed_txids:
  assumes "parse_block_full H payload h bh hdr = Inr b"
  shows "\<forall>tx\<in>set (fb_txs b). length (t_txid tx) = 32" and "\<forall>inp\<in>set (fb_inputs b). length (i_txid inp) = 32"
proof -
  obtain n :: u32 and s where t: "typed_after h (unat n) s" and b: "fb_txs b = bl_txs s" "fb_inputs b = bl_inputs s"
    by (rule parsed_typed [OF assms])
  have n: "length (bl_txs s) = unat n" by (rule typed_after_length [OF t])
  show tx: "\<forall>tx\<in>set (fb_txs b). length (t_txid tx) = 32" using t unfolding b typed_after_def by blast
  show "\<forall>inp\<in>set (fb_inputs b). length (i_txid inp) = 32"
    using t tx n unfolding b typed_after_def by (metis nth_mem)
qed

lemma parsed_rows:
  assumes "parse_block_full H payload h bh hdr = Inr b"
  shows "rows_ok (fb_inputs b) (fb_outputs b)" and "indices_ok (fb_txs b) (fb_inputs b) (fb_outputs b)"
    and "map t_tx_index (fb_txs b) = map of_nat [0..<length (fb_txs b)]"
    and "length (fb_txs b) < 2 ^ 32"
proof -
  obtain n :: u32 and s where t: "typed_after h (unat n) s"
    and b: "fb_txs b = bl_txs s" "fb_inputs b = bl_inputs s" "fb_outputs b = bl_outputs s"
    by (rule parsed_typed [OF assms])
  have n: "length (bl_txs s) = unat n" by (rule typed_after_length [OF t])
  have lt: "unat n < 2 ^ 32" using unsigned_less [of n] by simp
  then have idx: "unat (of_nat k :: u32) = k" if "k < unat n" for k using that by (simp add: unat_of_nat_less)
  have "unat n * (2 ^ 32 - 1) \<le> 2 ^ 32 * (2 ^ 32 - 1)" using lt by (intro mult_right_mono) simp_all
  then have small: "unat n * (2 ^ 32 - 1) < 2 ^ 64" by simp
  have txid: "length (t_txid (bl_txs s ! k)) = 32" if "k < unat n" for k
    using t n that by (simp add: typed_after_def)
  have outs: "length (o_txid out) = 32 \<and> length (o_address_hash out) = 32" if o: "out \<in> set (bl_outputs s)" for out
  proof -
    obtain k where "k < unat n" "output_typed h (of_nat k) out" "o_txid out = t_txid (bl_txs s ! k)"
      using t o unfolding typed_after_def by blast
    then show ?thesis using txid by (simp add: output_typed_def)
  qed
  have ins: "length (i_prev_txid inp) = 32" if "inp \<in> set (bl_inputs s)" for inp
    using t that unfolding typed_after_def input_typed_def by blast
  have "length (bl_inputs s) \<le> unat n * (2 ^ 32 - 1)" "length (bl_outputs s) \<le> unat n * (2 ^ 32 - 1)"
    using t unfolding typed_after_def by blast+
  then have "length (bl_inputs s) < 2 ^ 64" "length (bl_outputs s) < 2 ^ 64" using small by linarith+
  then show "rows_ok (fb_inputs b) (fb_outputs b)"
    unfolding b rows_ok_def using outs ins by blast
  show "indices_ok (fb_txs b) (fb_inputs b) (fb_outputs b)"
    using t idx unfolding b indices_ok_def n typed_after_def input_typed_def output_typed_def by metis
  show "map t_tx_index (fb_txs b) = map of_nat [0..<length (fb_txs b)]"
    using t unfolding b n typed_after_def by simp
  show "length (fb_txs b) < 2 ^ 32" using lt by (simp add: b n)
qed

end

section \<open>One fee per transaction row\<close>

lemma charge_outputs_length:
  "res_fold charge_output outs fees = Inr fees' \<Longrightarrow> length fees' = length fees"
  by (induction outs arbitrary: fees) (auto simp: charge_output_def Let_def res_simps split: if_splits)

lemma record_spend_fees: "record_spend h inp v s = Inr s' \<Longrightarrow> length (a_fees s') = length (a_fees s)"
  by (auto simp: record_spend_Inr)

lemma spend_from_db_fees:
  assumes "spend_from_db R db u h inp s = Inr s'"
  shows "length (a_fees s') = length (a_fees s)"
proof -
  obtain got where got: "r_get R db CF_DEFAULT (in_key inp) = Inr got"
    using assms by (auto simp: spend_from_db_def Let_def res_simps)
  show ?thesis
  proof (cases "Option.bind got utxo_value_decode")
    case None
    with assms got show ?thesis
      by (cases got) (auto simp: spend_from_db_def Let_def)
  next
    case (Some v)
    with assms got show ?thesis
      by (cases got) (auto simp: spend_from_db_def Let_def dest!: record_spend_fees split: if_splits)
  qed
qed

lemma apply_input_fees: "apply_input R db u h inp s = Inr s' \<Longrightarrow> length (a_fees s') = length (a_fees s)"
  unfolding apply_input_def Let_def
  by (cases "map_of (a_pending s) (in_key inp)"; cases "a_recent s"; cases "cache_remove (in_key inp) (the (a_recent s))";
      cases "fst (cache_remove (in_key inp) (the (a_recent s)))")
    (auto dest!: record_spend_fees spend_from_db_fees split: if_splits)

lemma apply_inputs_fees:
  "res_fold (apply_input R db u h) inps s = Inr s' \<Longrightarrow> length (a_fees s') = length (a_fees s)"
  by (induction inps arbitrary: s) (auto simp: res_simps dest!: apply_input_fees)

lemma seed_outputs_fees: "a_fees (fold (seed_output u h) outs s) = a_fees s"
  by (induction outs arbitrary: s) (simp_all add: seed_output_def Let_def)

lemma fees_per_tx:
  "apply_block R it h txs inputs outputs st = Inr (res, st') \<Longrightarrow> length (sr_fees res) = length txs"
  by (auto simp: apply_block_def Let_def res_simps seed_outputs_fees apply_locals_init_def
      dest!: charge_outputs_length apply_inputs_fees)

section \<open>Properties\<close>

text \<open>C12. Whatever payload the parser accepts, the store accepts: the transaction rows are numbered
  by their position, every input and output row refers to one of them, hashes have 32 bytes, and
  over a database that does not fail \<open>apply_block\<close> succeeds on the parsed rows (no index is out of
  range) with exactly one fee per transaction row.\<close>
theorem parsed_block_fits_store:
  assumes "digest_widths H" and "parse_block_full H payload h bh hdr = Inr b" and "rocks_total R view"
  shows "map t_tx_index (fb_txs b) = map of_nat [0..<length (fb_txs b)]
    \<and> rows_ok (fb_inputs b) (fb_outputs b) \<and> indices_ok (fb_txs b) (fb_inputs b) (fb_outputs b)
    \<and> (\<exists>res st'. apply_block R it h (fb_txs b) (fb_inputs b) (fb_outputs b) st = Inr (res, st')
         \<and> length (sr_fees res) = length (fb_txs b))"
proof -
  note rows = digest_widths.parsed_rows [OF assms(1,2)]
  obtain res st' where "apply_block R it h (fb_txs b) (fb_inputs b) (fb_outputs b) st = Inr (res, st')"
    using apply_block_total [OF assms(3) rows(2)] by blast
  with rows fees_per_tx show ?thesis by blast
qed

definition ex_header :: block_header where
  "ex_header = \<lparr>h_version = 1, h_prev_hash = zeros 32, h_merkle_root = zeros 32, h_time = 1, h_bits = 2, h_nonce = 3\<rparr>"

lemma ex_parsed_block:
  "\<exists>b. parse_block_full pad_digests (ser_block ex_header [ex_wire_tx]) 5 (zeros 32) ex_header = Inr b
    \<and> length (fb_txs b) = 1"
proof -
  have "header_ok ex_header" by (simp add: header_ok_def ex_header_def)
  from parse_block_ser [OF this, of "[ex_wire_tx]" pad_digests "[]" 5 "zeros 32"] ex_wire_tx_ok
  show ?thesis by (simp add: block_rows_def)
qed

theorem parsed_block_fits_store_witness:
  "\<exists>b res st'. parse_block_full pad_digests (ser_block ex_header [ex_wire_tx]) 5 (zeros 32) ex_header = Inr b
    \<and> rows_ok (fb_inputs b) (fb_outputs b)
    \<and> apply_block map_rocks (\<lambda>xs. xs) 5 (fb_txs b) (fb_inputs b) (fb_outputs b) (mem_store True None ex_db) = Inr (res, st')
    \<and> length (sr_fees res) = 1"
proof -
  obtain b where b: "parse_block_full pad_digests (ser_block ex_header [ex_wire_tx]) 5 (zeros 32) ex_header = Inr b"
    and one: "length (fb_txs b) = 1"
    using ex_parsed_block by blast
  show ?thesis
    using parsed_block_fits_store [OF dg_pad.digest_widths_axioms b mr.rocks_total_axioms] b one by metis
qed

end
