(* ===== verification/Store_Sink.thy ===== *)
theory Store_Sink
  imports Core_Types Core_Text
begin

text \<open>
  \<open>bidx-store/src/parquet_writers.rs\<close>: the buffered Parquet writers of the five entity tables.
  A column builder is a list of values of its type and a table keeps one builder per field of its
  schema with the number of buffered rows. The Arrow and Parquet crates are the parameter
  \<open>arrow\<close>: building a record batch, opening a writer on a file, writing a batch, closing. The
  interface \<open>arrow_sound\<close> says that a closed file holds the rows of the batches written to it,
  in order; \<open>arrow_total\<close> adds that conforming batches are accepted and no operation fails.

  The panics of the column macros (index out of range, wrong variant) are the error value
  \<open>SinkPanic\<close>; a lemma shows that no push reaches it.
\<close>

section \<open>Columns and schemas\<close>

datatype data_type = UInt32 | UInt64 | Int32 | UInt8 | Boolean | FixedSizeBinary nat

type_synonym field = "string \<times> data_type"
type_synonym schema = "field list"

datatype cell =
    CU32 u32 | CU64 u64 | CI32 i32 | CU8 u8 | CBool bool | CBin bytes

datatype col =
    ColU32 "u32 list"
  | ColU64 "u64 list"
  | ColI32 "i32 list"
  | ColU8 "u8 list"
  | ColBool "bool list"
  | ColBin32 nat "bytes list"

datatype sink_error = SinkArrow string | SinkParquet string | SinkIo io_error | SinkPanic

record sink_config =
  batch_size :: nat

definition sink_config_default :: sink_config where
  "sink_config_default = \<lparr>batch_size = 250000\<rparr>"

record writer_properties =
  wp_compression :: string
  wp_max_row_group_size :: nat
  wp_write_batch_size :: nat

definition writer_props :: writer_properties where
  "writer_props = \<lparr>wp_compression = ''ZSTD'', wp_max_row_group_size = 1000000,
     wp_write_batch_size = 8192\<rparr>"

definition fbin32 :: "string \<Rightarrow> field" where
  "fbin32 name = (name, FixedSizeBinary 32)"

text \<open>\<open>finish\<close> returns the array built so far and leaves an empty builder.\<close>

fun col_finish :: "col \<Rightarrow> col \<times> col" where
  "col_finish (ColU32 b) = (ColU32 b, ColU32 [])"
| "col_finish (ColU64 b) = (ColU64 b, ColU64 [])"
| "col_finish (ColI32 b) = (ColI32 b, ColI32 [])"
| "col_finish (ColU8 b) = (ColU8 b, ColU8 [])"
| "col_finish (ColBool b) = (ColBool b, ColBool [])"
| "col_finish (ColBin32 w b) = (ColBin32 w b, ColBin32 w [])"

fun col_append :: "col \<Rightarrow> cell \<Rightarrow> sink_error + col" where
  "col_append (ColU32 b) (CU32 v) = Inr (ColU32 (b @ [v]))"
| "col_append (ColU64 b) (CU64 v) = Inr (ColU64 (b @ [v]))"
| "col_append (ColI32 b) (CI32 v) = Inr (ColI32 (b @ [v]))"
| "col_append (ColU8 b) (CU8 v) = Inr (ColU8 (b @ [v]))"
| "col_append (ColBool b) (CBool v) = Inr (ColBool (b @ [v]))"
| "col_append (ColBin32 w b) (CBin v) =
    (if length v = w then Inr (ColBin32 w (b @ [v]))
     else Inl (SinkArrow ''Byte slice does not have the same length as FixedSizeBinaryBuilder value lengths''))"
| "col_append _ _ = Inl SinkPanic"

definition push_cell :: "nat \<times> cell \<Rightarrow> col list \<Rightarrow> sink_error + col list" where
  "push_cell ic cols =
    (if fst ic < length cols
     then res_bind (col_append (cols ! fst ic) (snd ic)) (\<lambda>c. Inr (cols[fst ic := c]))
     else Inl SinkPanic)"

definition blocks_schema :: schema where
  "blocks_schema =
    [(''height'', UInt32), fbin32 ''hash'', fbin32 ''prev_hash'', fbin32 ''merkle_root'',
     (''time'', UInt32), (''bits'', UInt32), (''nonce'', UInt32), (''version'', Int32),
     (''tx_count'', UInt32), (''size'', UInt32), (''weight'', UInt32), (''total_fee'', UInt64),
     (''coinbase_value'', UInt64)]"

definition transactions_schema :: schema where
  "transactions_schema =
    [(''height'', UInt32), (''tx_index'', UInt32), fbin32 ''txid'', (''version'', Int32),
     (''locktime'', UInt32), (''size'', UInt32), (''weight'', UInt32), (''fee'', UInt64),
     (''input_count'', UInt32), (''output_count'', UInt32), (''has_witness'', Boolean)]"

definition inputs_schema :: schema where
  "inputs_schema =
    [(''height'', UInt32), (''tx_index'', UInt32), (''input_index'', UInt32), fbin32 ''txid'',
     fbin32 ''prev_txid'', (''prev_vout'', UInt32), (''script_sig_len'', UInt32),
     (''sequence'', UInt32), (''witness_items'', UInt32), (''witness_bytes'', UInt32),
     (''is_coinbase'', Boolean)]"

definition outputs_schema :: schema where
  "outputs_schema =
    [(''height'', UInt32), (''tx_index'', UInt32), (''output_index'', UInt32), fbin32 ''txid'',
     (''value_sat'', UInt64), (''script_pubkey_len'', UInt32), (''script_type'', UInt8),
     fbin32 ''address_hash'']"

definition spends_schema :: schema where
  "spends_schema =
    [(''height'', UInt32), (''spending_tx_index'', UInt32), (''spending_input_index'', UInt32),
     fbin32 ''spending_txid'', fbin32 ''spent_txid'', (''spent_vout'', UInt32),
     (''spent_value_sat'', UInt64), (''spent_script_type'', UInt8), fbin32 ''spent_address_hash'',
     (''spent_height'', UInt32)]"

section \<open>Tables\<close>

record entity_table =
  et_schema :: schema
  et_cols :: "col list"
  et_buffered :: nat

fun new_col :: "data_type \<Rightarrow> col" where
  "new_col UInt32 = ColU32 []"
| "new_col UInt64 = ColU64 []"
| "new_col Int32 = ColI32 []"
| "new_col UInt8 = ColU8 []"
| "new_col Boolean = ColBool []"
| "new_col (FixedSizeBinary w) = ColBin32 w []"

definition entity_table_new :: "schema \<Rightarrow> entity_table" where
  "entity_table_new sch =
    \<lparr>et_schema = sch, et_cols = map (\<lambda>f. new_col (snd f)) sch, et_buffered = 0\<rparr>"

record record_batch =
  rb_schema :: schema
  rb_columns :: "col list"

record ('w, 'fl) arrow =
  a_create_dir_all :: "path \<Rightarrow> io_error + unit"
  a_file_create :: "path \<Rightarrow> io_error + unit"
  a_writer_new :: "path \<Rightarrow> schema \<Rightarrow> writer_properties \<Rightarrow> string + 'w"
  a_batch :: "schema \<Rightarrow> col list \<Rightarrow> string + record_batch"
  a_write :: "'w \<Rightarrow> record_batch \<Rightarrow> string + 'w"
  a_close :: "'w \<Rightarrow> string + 'fl"

definition take_batch ::
    "('w, 'fl) arrow \<Rightarrow> entity_table \<Rightarrow> sink_error + record_batch \<times> entity_table" where
  "take_batch A t =
    (let arrays = map (\<lambda>c. fst (col_finish c)) (et_cols t);
         t' = t\<lparr>et_cols := map (\<lambda>c. snd (col_finish c)) (et_cols t), et_buffered := 0\<rparr>
     in res_bind (map_err SinkArrow (a_batch A (et_schema t) arrays)) (\<lambda>b. Inr (b, t')))"

section \<open>The sink\<close>

record 'w parquet_sink =
  sk_cfg :: sink_config
  sk_part :: u32
  blocks_w :: 'w
  txs_w :: 'w
  inputs_w :: 'w
  outputs_w :: 'w
  spends_w :: 'w
  sk_blocks :: entity_table
  sk_txs :: entity_table
  sk_inputs :: entity_table
  sk_outputs :: entity_table
  sk_spends :: entity_table

definition part_file :: "u32 \<Rightarrow> string" where
  "part_file part = ''part-'' @ show_padded 5 (unat part) @ ''.parquet''"

definition create_writer ::
    "('w, 'fl) arrow \<Rightarrow> path \<Rightarrow> string \<Rightarrow> u32 \<Rightarrow> schema \<Rightarrow> sink_error + 'w" where
  "create_writer A dir entity part sch =
    (let pdir = dir @ [entity]; file = pdir @ [part_file part] in
     res_bind (map_err SinkIo (a_create_dir_all A pdir)) (\<lambda>_.
     res_bind (map_err SinkIo (a_file_create A file)) (\<lambda>_.
       map_err SinkParquet (a_writer_new A file sch writer_props))))"

definition sink_create ::
    "('w, 'fl) arrow \<Rightarrow> path \<Rightarrow> u32 \<Rightarrow> sink_config \<Rightarrow> sink_error + 'w parquet_sink" where
  "sink_create A dir part cfg =
    res_bind (create_writer A dir ''blocks'' part blocks_schema) (\<lambda>bw.
    res_bind (create_writer A dir ''transactions'' part transactions_schema) (\<lambda>tw.
    res_bind (create_writer A dir ''inputs'' part inputs_schema) (\<lambda>iw.
    res_bind (create_writer A dir ''outputs'' part outputs_schema) (\<lambda>ow.
    res_bind (create_writer A dir ''spends'' part spends_schema) (\<lambda>sw.
      Inr \<lparr>sk_cfg = cfg, sk_part = part, blocks_w = bw, txs_w = tw, inputs_w = iw,
           outputs_w = ow, spends_w = sw,
           sk_blocks = entity_table_new blocks_schema, sk_txs = entity_table_new transactions_schema,
           sk_inputs = entity_table_new inputs_schema, sk_outputs = entity_table_new outputs_schema,
           sk_spends = entity_table_new spends_schema\<rparr>)))))"

text \<open>The common tail of the five push operations: append the cells, count the row, and write a
  batch when \<open>batch_size\<close> rows are buffered.\<close>

definition write_table ::
    "('w, 'fl) arrow \<Rightarrow> 'w \<Rightarrow> entity_table \<Rightarrow> sink_error + 'w \<times> entity_table" where
  "write_table A w t =
    res_bind (take_batch A t) (\<lambda>(b, t').
    res_bind (map_err SinkParquet (a_write A w b)) (\<lambda>w'. Inr (w', t')))"

definition push_row ::
    "('w, 'fl) arrow \<Rightarrow> nat \<Rightarrow> (nat \<times> cell) list \<Rightarrow> 'w \<Rightarrow> entity_table \<Rightarrow>
      sink_error + 'w \<times> entity_table" where
  "push_row A bs cells w t =
    res_bind (res_fold push_cell cells (et_cols t)) (\<lambda>cols.
      let t' = t\<lparr>et_cols := cols, et_buffered := et_buffered t + 1\<rparr> in
      if bs \<le> et_buffered t' then write_table A w t' else Inr (w, t'))"

definition push_block ::
    "('w, 'fl) arrow \<Rightarrow> block_row \<Rightarrow> 'w parquet_sink \<Rightarrow> sink_error + 'w parquet_sink" where
  "push_block A r s =
    res_bind (push_row A (batch_size (sk_cfg s))
      [(0, CU32 (b_height r)), (1, CBin (b_hash r)), (2, CBin (b_prev_hash r)),
       (3, CBin (b_merkle_root r)), (4, CU32 (b_time r)), (5, CU32 (b_bits r)),
       (6, CU32 (b_nonce r)), (7, CI32 (b_version r)), (8, CU32 (b_tx_count r)),
       (9, CU32 (b_size r)), (10, CU32 (b_weight r)), (11, CU64 (b_total_fee r)),
       (12, CU64 (b_coinbase_value r))] (blocks_w s) (sk_blocks s))
      (\<lambda>(w, t). Inr (s\<lparr>blocks_w := w, sk_blocks := t\<rparr>))"

definition push_tx ::
    "('w, 'fl) arrow \<Rightarrow> tx_row \<Rightarrow> 'w parquet_sink \<Rightarrow> sink_error + 'w parquet_sink" where
  "push_tx A r s =
    res_bind (push_row A (batch_size (sk_cfg s))
      [(0, CU32 (t_height r)), (1, CU32 (t_tx_index r)), (2, CBin (t_txid r)),
       (3, CI32 (t_version r)), (4, CU32 (t_locktime r)), (5, CU32 (t_size r)),
       (6, CU32 (t_weight r)), (7, CU64 (t_fee r)), (8, CU32 (t_input_count r)),
       (9, CU32 (t_output_count r)), (10, CBool (t_has_witness r))] (txs_w s) (sk_txs s))
      (\<lambda>(w, t). Inr (s\<lparr>txs_w := w, sk_txs := t\<rparr>))"

definition push_input ::
    "('w, 'fl) arrow \<Rightarrow> input_row \<Rightarrow> 'w parquet_sink \<Rightarrow> sink_error + 'w parquet_sink" where
  "push_input A r s =
    res_bind (push_row A (batch_size (sk_cfg s))
      [(0, CU32 (i_height r)), (1, CU32 (i_tx_index r)), (2, CU32 (i_input_index r)),
       (3, CBin (i_txid r)), (4, CBin (i_prev_txid r)), (5, CU32 (i_prev_vout r)),
       (6, CU32 (i_script_sig_len r)), (7, CU32 (i_sequence r)), (8, CU32 (i_witness_items r)),
       (9, CU32 (i_witness_bytes r)), (10, CBool (i_is_coinbase r))] (inputs_w s) (sk_inputs s))
      (\<lambda>(w, t). Inr (s\<lparr>inputs_w := w, sk_inputs := t\<rparr>))"

definition push_output ::
    "('w, 'fl) arrow \<Rightarrow> output_row \<Rightarrow> 'w parquet_sink \<Rightarrow> sink_error + 'w parquet_sink" where
  "push_output A r s =
    res_bind (push_row A (batch_size (sk_cfg s))
      [(0, CU32 (o_height r)), (1, CU32 (o_tx_index r)), (2, CU32 (o_output_index r)),
       (3, CBin (o_txid r)), (4, CU64 (o_value_sat r)), (5, CU32 (o_script_pubkey_len r)),
       (6, CU8 (o_script_type r)), (7, CBin (o_address_hash r))] (outputs_w s) (sk_outputs s))
      (\<lambda>(w, t). Inr (s\<lparr>outputs_w := w, sk_outputs := t\<rparr>))"

definition push_spend ::
    "('w, 'fl) arrow \<Rightarrow> spend_row \<Rightarrow> 'w parquet_sink \<Rightarrow> sink_error + 'w parquet_sink" where
  "push_spend A r s =
    res_bind (push_row A (batch_size (sk_cfg s))
      [(0, CU32 (s_height r)), (1, CU32 (s_spending_tx_index r)),
       (2, CU32 (s_spending_input_index r)), (3, CBin (s_spending_txid r)),
       (4, CBin (s_spent_txid r)), (5, CU32 (s_spent_vout r)), (6, CU64 (s_spent_value_sat r)),
       (7, CU8 (s_spent_script_type r)), (8, CBin (s_spent_address_hash r)),
       (9, CU32 (s_spent_height r))] (spends_w s) (sk_spends s))
      (\<lambda>(w, t). Inr (s\<lparr>spends_w := w, sk_spends := t\<rparr>))"

record 'fl sink_files =
  fl_blocks :: 'fl
  fl_txs :: 'fl
  fl_inputs :: 'fl
  fl_outputs :: 'fl
  fl_spends :: 'fl

definition flush_table ::
    "('w, 'fl) arrow \<Rightarrow> 'w \<Rightarrow> entity_table \<Rightarrow> sink_error + 'w \<times> entity_table" where
  "flush_table A w t = (if 0 < et_buffered t then write_table A w t else Inr (w, t))"

definition close_writer :: "('w, 'fl) arrow \<Rightarrow> 'w \<Rightarrow> sink_error + 'fl" where
  "close_writer A w = map_err SinkParquet (a_close A w)"

definition sink_finish :: "('w, 'fl) arrow \<Rightarrow> 'w parquet_sink \<Rightarrow> sink_error + 'fl sink_files" where
  "sink_finish A s =
    res_bind (flush_table A (blocks_w s) (sk_blocks s)) (\<lambda>(bw, _).
    res_bind (flush_table A (txs_w s) (sk_txs s)) (\<lambda>(tw, _).
    res_bind (flush_table A (inputs_w s) (sk_inputs s)) (\<lambda>(iw, _).
    res_bind (flush_table A (outputs_w s) (sk_outputs s)) (\<lambda>(ow, _).
    res_bind (flush_table A (spends_w s) (sk_spends s)) (\<lambda>(sw, _).
    res_bind (close_writer A bw) (\<lambda>fb.
    res_bind (close_writer A tw) (\<lambda>ft.
    res_bind (close_writer A iw) (\<lambda>fi.
    res_bind (close_writer A ow) (\<lambda>fo.
    res_bind (close_writer A sw) (\<lambda>fs.
      Inr \<lparr>fl_blocks = fb, fl_txs = ft, fl_inputs = fi, fl_outputs = fo, fl_spends = fs\<rparr>))))))))))"

section \<open>Rows\<close>

text \<open>The reference view: a column is a list of cells, a table the list of its rows.\<close>

fun col_type :: "col \<Rightarrow> data_type" where
  "col_type (ColU32 _) = UInt32"
| "col_type (ColU64 _) = UInt64"
| "col_type (ColI32 _) = Int32"
| "col_type (ColU8 _) = UInt8"
| "col_type (ColBool _) = Boolean"
| "col_type (ColBin32 w _) = FixedSizeBinary w"

fun col_cells :: "col \<Rightarrow> cell list" where
  "col_cells (ColU32 b) = map CU32 b"
| "col_cells (ColU64 b) = map CU64 b"
| "col_cells (ColI32 b) = map CI32 b"
| "col_cells (ColU8 b) = map CU8 b"
| "col_cells (ColBool b) = map CBool b"
| "col_cells (ColBin32 w b) = map CBin b"

fun fits :: "data_type \<Rightarrow> cell \<Rightarrow> bool" where
  "fits UInt32 (CU32 _) = True"
| "fits UInt64 (CU64 _) = True"
| "fits Int32 (CI32 _) = True"
| "fits UInt8 (CU8 _) = True"
| "fits Boolean (CBool _) = True"
| "fits (FixedSizeBinary w) (CBin v) = (length v = w)"
| "fits _ _ = False"

fun transpose_cells :: "cell list list \<Rightarrow> cell list list" where
  "transpose_cells [] = []"
| "transpose_cells (c # cs) = map (\<lambda>i. map (\<lambda>d. d ! i) (c # cs)) [0..<length c]"

definition cols_rows :: "col list \<Rightarrow> cell list list" where
  "cols_rows cols = transpose_cells (map col_cells cols)"

abbreviation row_fits :: "schema \<Rightarrow> cell list \<Rightarrow> bool" where
  "row_fits sch r \<equiv> list_all2 fits (map snd sch) r"

lemma col_append_fits:
  assumes "fits (col_type c) v"
  shows "\<exists>c'. col_append c v = Inr c' \<and> col_type c' = col_type c \<and> col_cells c' = col_cells c @ [v]"
  using assms by (cases c; cases v) auto

lemma col_finish_cells [simp]:
  "fst (col_finish c) = c" "col_type (snd (col_finish c)) = col_type c"
  "col_cells (snd (col_finish c)) = []"
  by (cases c; simp)+

lemma new_col_cells [simp]: "col_type (new_col d) = d" "col_cells (new_col d) = []"
  by (cases d; simp)+

lemma transpose_empty: "\<forall>c\<in>set cs. c = [] \<Longrightarrow> transpose_cells cs = []"
  by (cases cs) auto

lemma transpose_snoc:
  assumes "cs \<noteq> []" "\<forall>c\<in>set cs. length c = n" "length vs = length cs"
  shows "transpose_cells (map2 (\<lambda>c v. c @ [v]) cs vs) = transpose_cells cs @ [vs]"
proof -
  obtain c cs' v vs' where cv: "cs = c # cs'" "vs = v # vs'"
    using assms by (cases cs; cases vs) auto
  have old: "map (\<lambda>d. d ! i) (map2 (\<lambda>c v. c @ [v]) cs vs) = map (\<lambda>d. d ! i) cs" if "i < n" for i
    using assms(2,3) that by (intro nth_equalityI) (auto simp: nth_append)
  have new: "map (\<lambda>d. d ! n) (map2 (\<lambda>c v. c @ [v]) cs vs) = vs"
    using assms(2,3) by (intro nth_equalityI) (auto simp: nth_append)
  have len: "length (c @ [v]) = Suc n" "length c = n" using assms(2) cv by auto
  have "transpose_cells (map2 (\<lambda>c v. c @ [v]) cs vs)
    = map (\<lambda>i. map (\<lambda>d. d ! i) (map2 (\<lambda>c v. c @ [v]) cs vs)) [0..<Suc n]"
    using len by (simp add: cv)
  also have "\<dots> = map (\<lambda>i. map (\<lambda>d. d ! i) cs) [0..<n] @ [vs]"
    using old new by simp
  finally show ?thesis using len by (simp add: cv)
qed

lemma push_cells_aux:
  "list_all2 fits (map col_type cols) cells \<Longrightarrow> \<exists>cols'. res_fold push_cell (enumerate (length pre) cells) (pre @ cols) = Inr (pre @ cols')
    \<and> map col_type cols' = map col_type cols
    \<and> map col_cells cols' = map2 (\<lambda>c v. c @ [v]) (map col_cells cols) cells"
proof (induction cells arbitrary: pre cols)
  case Nil
  then have "map col_type cols = []" by simp
  then show ?case by simp
next
  case (Cons v cells)
  then obtain c cols1 where c: "cols = c # cols1" and f: "fits (col_type c) v"
    and r: "list_all2 fits (map col_type cols1) cells"
    by (cases cols) auto
  obtain c' where c': "col_append c v = Inr c'" "col_type c' = col_type c"
      "col_cells c' = col_cells c @ [v]"
    using col_append_fits [OF f] by blast
  have step: "push_cell (length pre, v) (pre @ cols) = Inr ((pre @ [c']) @ cols1)"
    by (simp add: push_cell_def c c' nth_append)
  obtain cols' where "res_fold push_cell (enumerate (length (pre @ [c'])) cells) ((pre @ [c']) @ cols1)
      = Inr ((pre @ [c']) @ cols')"
      "map col_type cols' = map col_type cols1"
      "map col_cells cols' = map2 (\<lambda>c v. c @ [v]) (map col_cells cols1) cells"
    using Cons.IH [OF r, of "pre @ [c']"] by blast
  with step show ?case
    by (intro exI [of _ "c' # cols'"]) (simp add: c c')
qed

lemma push_cells_ok:
  assumes "list_all2 fits (map col_type cols) cells" "cols \<noteq> []"
    "\<forall>c\<in>set cols. length (col_cells c) = n"
  shows "\<exists>cols'. res_fold push_cell (enumerate 0 cells) cols = Inr cols'
    \<and> map col_type cols' = map col_type cols
    \<and> (\<forall>c\<in>set cols'. length (col_cells c) = Suc n)
    \<and> cols_rows cols' = cols_rows cols @ [cells]"
proof -
  obtain cols' where e: "res_fold push_cell (enumerate 0 cells) cols = Inr cols'"
      "map col_type cols' = map col_type cols"
      "map col_cells cols' = map2 (\<lambda>c v. c @ [v]) (map col_cells cols) cells"
    using push_cells_aux [OF assms(1), of "[]"] by auto
  have len: "length cells = length (map col_cells cols)"
    using assms(1) by (auto simp: list_all2_iff)
  have "cols_rows cols' = cols_rows cols @ [cells]"
    unfolding cols_rows_def e(3)
    by (rule transpose_snoc [where n = n]) (use assms len in auto)
  moreover have "length (col_cells c) = Suc n" if "c \<in> set cols'" for c
  proof -
    have "col_cells c \<in> set (map col_cells cols')" using that by simp
    then show ?thesis using assms(3) by (auto simp: e(3) set_zip)
  qed
  ultimately show ?thesis using e by blast
qed

section \<open>What the sink guarantees\<close>

text \<open>
  A table between pushes: builders of the schema's types, all holding the buffered rows, fewer
  than a batch.
\<close>

definition table_ok :: "schema \<Rightarrow> nat \<Rightarrow> entity_table \<Rightarrow> bool" where
  "table_ok sch bs t \<longleftrightarrow> et_schema t = sch \<and> et_cols t \<noteq> [] \<and> map col_type (et_cols t) = map snd sch
     \<and> (\<forall>c\<in>set (et_cols t). length (col_cells c) = et_buffered t) \<and> et_buffered t < max 1 bs"

definition conforming :: "schema \<Rightarrow> col list \<Rightarrow> bool" where
  "conforming sch cols \<longleftrightarrow> cols \<noteq> [] \<and> map col_type cols = map snd sch
     \<and> (\<exists>n. \<forall>c\<in>set cols. length (col_cells c) = n)"

locale arrow_sound =
  fixes A :: "('w, 'fl) arrow" and written :: "'w \<Rightarrow> cell list list"
    and contents :: "'fl \<Rightarrow> cell list list"
  assumes new_empty: "a_writer_new A p sch pr = Inr w \<Longrightarrow> written w = []"
    and batch_columns: "a_batch A sch cols = Inr b \<Longrightarrow> rb_columns b = cols"
    and write_appends: "a_write A w b = Inr w' \<Longrightarrow> written w' = written w @ cols_rows (rb_columns b)"
    and close_contents: "a_close A w = Inr fl \<Longrightarrow> contents fl = written w"
begin

definition tab_rep :: "schema \<Rightarrow> nat \<Rightarrow> cell list list \<Rightarrow> 'w \<Rightarrow> entity_table \<Rightarrow> bool" where
  "tab_rep sch bs rows w t \<longleftrightarrow> table_ok sch bs t \<and> written w @ cols_rows (et_cols t) = rows"

lemma new_rep:
  assumes "create_writer A dir e part sch = Inr w" "sch \<noteq> []"
  shows "tab_rep sch bs [] w (entity_table_new sch)"
  using assms
  by (auto simp: create_writer_def tab_rep_def table_ok_def entity_table_new_def res_simps Let_def
      cols_rows_def transpose_empty dest: new_empty)

lemma write_table_rep:
  assumes "write_table A w t = Inr (w', t')" "et_schema t = sch" "et_cols t \<noteq> []"
    "map col_type (et_cols t) = map snd sch"
  shows "tab_rep sch bs (written w @ cols_rows (et_cols t)) w' t' \<and> et_buffered t' = 0"
proof -
  obtain b where b: "a_batch A sch (et_cols t) = Inr b" "a_write A w b = Inr w'"
    and t': "t' = t\<lparr>et_cols := map (\<lambda>c. snd (col_finish c)) (et_cols t), et_buffered := 0\<rparr>"
    using assms(1,2) by (auto simp: write_table_def take_batch_def Let_def res_simps)
  have "written w' = written w @ cols_rows (et_cols t)"
    using write_appends [OF b(2)] batch_columns [OF b(1)] by simp
  moreover have "cols_rows (et_cols t') = []"
    by (simp add: t' cols_rows_def transpose_empty)
  ultimately show ?thesis
    using assms(2-4) by (simp add: tab_rep_def table_ok_def t' comp_def)
qed

lemma push_row_rep:
  assumes "push_row A bs (enumerate 0 cells) w t = Inr (w', t')" "tab_rep sch bs rows w t"
    "row_fits sch cells"
  shows "tab_rep sch bs (rows @ [cells]) w' t'"
proof -
  have ok: "table_ok sch bs t" and rows: "written w @ cols_rows (et_cols t) = rows"
    using assms(2) by (auto simp: tab_rep_def)
  have "list_all2 fits (map col_type (et_cols t)) cells"
    using ok assms(3) by (simp add: table_ok_def)
  then obtain cols' where c: "res_fold push_cell (enumerate 0 cells) (et_cols t) = Inr cols'"
      "map col_type cols' = map col_type (et_cols t)"
      "\<forall>c\<in>set cols'. length (col_cells c) = Suc (et_buffered t)"
      "cols_rows cols' = cols_rows (et_cols t) @ [cells]"
    using push_cells_ok [of "et_cols t" cells "et_buffered t"] ok by (auto simp: table_ok_def)
  define t1 where "t1 = t\<lparr>et_cols := cols', et_buffered := et_buffered t + 1\<rparr>"
  have ne: "cols' \<noteq> []" using c(2) ok by (auto simp: table_ok_def)
  have r1: "written w @ cols_rows (et_cols t1) = rows @ [cells]"
    using rows c(4) by (simp add: t1_def)
  show ?thesis
  proof (cases "bs \<le> et_buffered t1")
    case True
    then have "write_table A w t1 = Inr (w', t')"
      using assms(1) c(1) by (simp add: push_row_def t1_def)
    then have "tab_rep sch bs (written w @ cols_rows (et_cols t1)) w' t'"
      using write_table_rep [of w t1 w' t' sch bs] ok c(2) ne by (simp add: t1_def table_ok_def)
    then show ?thesis by (simp add: r1)
  next
    case False
    then have "w' = w" "t' = t1"
      using assms(1) c(1) by (simp_all add: push_row_def t1_def)
    then show ?thesis
      using False r1 ok c(2,3) ne by (auto simp: tab_rep_def table_ok_def t1_def)
  qed
qed

lemma flush_rep:
  assumes "flush_table A w t = Inr (w', t')" "tab_rep sch bs rows w t"
  shows "written w' = rows"
proof (cases "0 < et_buffered t")
  case True
  then have "write_table A w t = Inr (w', t')" using assms(1) by (simp add: flush_table_def)
  then have "tab_rep sch bs (written w @ cols_rows (et_cols t)) w' t' \<and> et_buffered t' = 0"
    by (rule write_table_rep) (use assms(2) in \<open>auto simp: tab_rep_def table_ok_def\<close>)
  then have "written w' @ cols_rows (et_cols t') = rows" "cols_rows (et_cols t') = []"
    using assms(2) by (auto simp: tab_rep_def table_ok_def cols_rows_def intro!: transpose_empty)
  then show ?thesis by simp
next
  case False
  then have "w' = w" "cols_rows (et_cols t) = []"
    using assms by (auto simp: flush_table_def tab_rep_def table_ok_def cols_rows_def
        intro!: transpose_empty)
  then show ?thesis using assms(2) by (simp add: tab_rep_def)
qed

end

locale arrow_total = arrow_sound +
  assumes mkdir_total: "a_create_dir_all A p = Inr ()"
    and create_total: "a_file_create A p = Inr ()"
    and new_total: "\<exists>w. a_writer_new A p sch pr = Inr w"
    and batch_total: "conforming sch cols \<Longrightarrow> \<exists>b. a_batch A sch cols = Inr b"
    and write_total: "\<exists>w'. a_write A w b = Inr w'"
    and close_total: "\<exists>fl. a_close A w = Inr fl"
begin

lemma write_table_total: "conforming (et_schema t) (et_cols t) \<Longrightarrow> \<exists>w' t'. write_table A w t = Inr (w', t')"
proof -
  assume "conforming (et_schema t) (et_cols t)"
  then obtain b where b: "a_batch A (et_schema t) (et_cols t) = Inr b" using batch_total by blast
  obtain w' where "a_write A w b = Inr w'" using write_total by blast
  with b show ?thesis by (simp add: write_table_def take_batch_def Let_def)
qed

lemma push_row_total:
  assumes "table_ok sch bs t" "row_fits sch cells"
  shows "\<exists>w' t'. push_row A bs (enumerate 0 cells) w t = Inr (w', t')"
proof -
  obtain cols' where c: "res_fold push_cell (enumerate 0 cells) (et_cols t) = Inr cols'"
      "map col_type cols' = map col_type (et_cols t)"
      "\<forall>c\<in>set cols'. length (col_cells c) = Suc (et_buffered t)"
    using push_cells_ok [of "et_cols t" cells "et_buffered t"] assms by (auto simp: table_ok_def)
  have "conforming (et_schema t) cols'"
    using c assms(1) by (auto simp: conforming_def table_ok_def)
  then show ?thesis
    using c write_table_total [of "t\<lparr>et_cols := cols', et_buffered := Suc (et_buffered t)\<rparr>" w]
    by (auto simp: push_row_def Let_def)
qed

lemma flush_total: "table_ok sch bs t \<Longrightarrow> \<exists>w' t'. flush_table A w t = Inr (w', t')"
  using write_table_total [of t w]
  by (auto simp: flush_table_def table_ok_def conforming_def)

lemma create_writer_total: "\<exists>w. create_writer A dir e part sch = Inr w"
proof -
  obtain w where "a_writer_new A ((dir @ [e]) @ [part_file part]) sch writer_props = Inr w"
    using new_total by blast
  then show ?thesis by (simp add: create_writer_def Let_def mkdir_total create_total)
qed

end

section \<open>Runs of a sink\<close>

datatype sink_op =
    PushBlock block_row | PushTx tx_row | PushInput input_row | PushOutput output_row
  | PushSpend spend_row

fun sink_step :: "('w, 'fl) arrow \<Rightarrow> sink_op \<Rightarrow> 'w parquet_sink \<Rightarrow> sink_error + 'w parquet_sink" where
  "sink_step A (PushBlock r) s = push_block A r s"
| "sink_step A (PushTx r) s = push_tx A r s"
| "sink_step A (PushInput r) s = push_input A r s"
| "sink_step A (PushOutput r) s = push_output A r s"
| "sink_step A (PushSpend r) s = push_spend A r s"

definition sink_run ::
    "('w, 'fl) arrow \<Rightarrow> path \<Rightarrow> u32 \<Rightarrow> sink_config \<Rightarrow> sink_op list \<Rightarrow> sink_error + 'fl sink_files" where
  "sink_run A dir part cfg ops =
    res_bind (sink_create A dir part cfg) (\<lambda>s.
    res_bind (res_fold (sink_step A) ops s) (sink_finish A))"

text \<open>The rows each operation adds to each table.\<close>

definition block_cells :: "block_row \<Rightarrow> cell list" where
  "block_cells r =
    [CU32 (b_height r), CBin (b_hash r), CBin (b_prev_hash r), CBin (b_merkle_root r),
     CU32 (b_time r), CU32 (b_bits r), CU32 (b_nonce r), CI32 (b_version r), CU32 (b_tx_count r),
     CU32 (b_size r), CU32 (b_weight r), CU64 (b_total_fee r), CU64 (b_coinbase_value r)]"

definition tx_cells :: "tx_row \<Rightarrow> cell list" where
  "tx_cells r =
    [CU32 (t_height r), CU32 (t_tx_index r), CBin (t_txid r), CI32 (t_version r),
     CU32 (t_locktime r), CU32 (t_size r), CU32 (t_weight r), CU64 (t_fee r),
     CU32 (t_input_count r), CU32 (t_output_count r), CBool (t_has_witness r)]"

definition input_cells :: "input_row \<Rightarrow> cell list" where
  "input_cells r =
    [CU32 (i_height r), CU32 (i_tx_index r), CU32 (i_input_index r), CBin (i_txid r),
     CBin (i_prev_txid r), CU32 (i_prev_vout r), CU32 (i_script_sig_len r), CU32 (i_sequence r),
     CU32 (i_witness_items r), CU32 (i_witness_bytes r), CBool (i_is_coinbase r)]"

definition output_cells :: "output_row \<Rightarrow> cell list" where
  "output_cells r =
    [CU32 (o_height r), CU32 (o_tx_index r), CU32 (o_output_index r), CBin (o_txid r),
     CU64 (o_value_sat r), CU32 (o_script_pubkey_len r), CU8 (o_script_type r),
     CBin (o_address_hash r)]"

definition spend_cells :: "spend_row \<Rightarrow> cell list" where
  "spend_cells r =
    [CU32 (s_height r), CU32 (s_spending_tx_index r), CU32 (s_spending_input_index r),
     CBin (s_spending_txid r), CBin (s_spent_txid r), CU32 (s_spent_vout r),
     CU64 (s_spent_value_sat r), CU8 (s_spent_script_type r), CBin (s_spent_address_hash r),
     CU32 (s_spent_height r)]"

definition blocks_of :: "sink_op list \<Rightarrow> cell list list" where
  "blocks_of ops = concat (map (\<lambda>x. case x of PushBlock r \<Rightarrow> [block_cells r] | _ \<Rightarrow> []) ops)"

definition txs_of :: "sink_op list \<Rightarrow> cell list list" where
  "txs_of ops = concat (map (\<lambda>x. case x of PushTx r \<Rightarrow> [tx_cells r] | _ \<Rightarrow> []) ops)"

definition inputs_of :: "sink_op list \<Rightarrow> cell list list" where
  "inputs_of ops = concat (map (\<lambda>x. case x of PushInput r \<Rightarrow> [input_cells r] | _ \<Rightarrow> []) ops)"

definition outputs_of :: "sink_op list \<Rightarrow> cell list list" where
  "outputs_of ops = concat (map (\<lambda>x. case x of PushOutput r \<Rightarrow> [output_cells r] | _ \<Rightarrow> []) ops)"

definition spends_of :: "sink_op list \<Rightarrow> cell list list" where
  "spends_of ops = concat (map (\<lambda>x. case x of PushSpend r \<Rightarrow> [spend_cells r] | _ \<Rightarrow> []) ops)"

lemmas rows_of_defs = blocks_of_def txs_of_def inputs_of_def outputs_of_def spends_of_def

text \<open>The \<open>[u8; 32]\<close> fields of a row have 32 bytes.\<close>

fun op_ok :: "sink_op \<Rightarrow> bool" where
  "op_ok (PushBlock r) \<longleftrightarrow>
    length (b_hash r) = 32 \<and> length (b_prev_hash r) = 32 \<and> length (b_merkle_root r) = 32"
| "op_ok (PushTx r) \<longleftrightarrow> length (t_txid r) = 32"
| "op_ok (PushInput r) \<longleftrightarrow> length (i_txid r) = 32 \<and> length (i_prev_txid r) = 32"
| "op_ok (PushOutput r) \<longleftrightarrow> length (o_txid r) = 32 \<and> length (o_address_hash r) = 32"
| "op_ok (PushSpend r) \<longleftrightarrow>
    length (s_spending_txid r) = 32 \<and> length (s_spent_txid r) = 32 \<and> length (s_spent_address_hash r) = 32"

lemma row_fits_cells:
  "op_ok (PushBlock b) \<Longrightarrow> row_fits blocks_schema (block_cells b)"
  "op_ok (PushTx t) \<Longrightarrow> row_fits transactions_schema (tx_cells t)"
  "op_ok (PushInput i) \<Longrightarrow> row_fits inputs_schema (input_cells i)"
  "op_ok (PushOutput ot) \<Longrightarrow> row_fits outputs_schema (output_cells ot)"
  "op_ok (PushSpend sp) \<Longrightarrow> row_fits spends_schema (spend_cells sp)"
  by (simp_all add: blocks_schema_def transactions_schema_def inputs_schema_def outputs_schema_def
      spends_schema_def block_cells_def tx_cells_def input_cells_def output_cells_def
      spend_cells_def fbin32_def)

lemma push_as_row:
  "push_block A b s = res_bind (push_row A (batch_size (sk_cfg s)) (enumerate 0 (block_cells b))
     (blocks_w s) (sk_blocks s)) (\<lambda>(w, t). Inr (s\<lparr>blocks_w := w, sk_blocks := t\<rparr>))"
  "push_tx A tr s = res_bind (push_row A (batch_size (sk_cfg s)) (enumerate 0 (tx_cells tr))
     (txs_w s) (sk_txs s)) (\<lambda>(w, t). Inr (s\<lparr>txs_w := w, sk_txs := t\<rparr>))"
  "push_input A i s = res_bind (push_row A (batch_size (sk_cfg s)) (enumerate 0 (input_cells i))
     (inputs_w s) (sk_inputs s)) (\<lambda>(w, t). Inr (s\<lparr>inputs_w := w, sk_inputs := t\<rparr>))"
  "push_output A ot s = res_bind (push_row A (batch_size (sk_cfg s)) (enumerate 0 (output_cells ot))
     (outputs_w s) (sk_outputs s)) (\<lambda>(w, t). Inr (s\<lparr>outputs_w := w, sk_outputs := t\<rparr>))"
  "push_spend A sp s = res_bind (push_row A (batch_size (sk_cfg s)) (enumerate 0 (spend_cells sp))
     (spends_w s) (sk_spends s)) (\<lambda>(w, t). Inr (s\<lparr>spends_w := w, sk_spends := t\<rparr>))"
  unfolding push_block_def push_tx_def push_input_def push_output_def push_spend_def
    block_cells_def tx_cells_def input_cells_def output_cells_def spend_cells_def
  by (simp_all add: eval_nat_numeral)

lemma schemas_nonempty [simp]:
  "blocks_schema \<noteq> []" "transactions_schema \<noteq> []" "inputs_schema \<noteq> []" "outputs_schema \<noteq> []"
  "spends_schema \<noteq> []"
  by (simp_all add: blocks_schema_def transactions_schema_def inputs_schema_def outputs_schema_def
      spends_schema_def)

context arrow_sound
begin

definition sink_rep :: "sink_config \<Rightarrow> sink_op list \<Rightarrow> 'w parquet_sink \<Rightarrow> bool" where
  "sink_rep cfg ops s \<longleftrightarrow> sk_cfg s = cfg
     \<and> tab_rep blocks_schema (batch_size cfg) (blocks_of ops) (blocks_w s) (sk_blocks s)
     \<and> tab_rep transactions_schema (batch_size cfg) (txs_of ops) (txs_w s) (sk_txs s)
     \<and> tab_rep inputs_schema (batch_size cfg) (inputs_of ops) (inputs_w s) (sk_inputs s)
     \<and> tab_rep outputs_schema (batch_size cfg) (outputs_of ops) (outputs_w s) (sk_outputs s)
     \<and> tab_rep spends_schema (batch_size cfg) (spends_of ops) (spends_w s) (sk_spends s)"

lemma create_rep: "sink_create A dir part cfg = Inr s \<Longrightarrow> sink_rep cfg [] s"
  by (auto simp: sink_create_def sink_rep_def res_simps rows_of_defs intro!: new_rep)

lemma step_rep:
  assumes "sink_step A x s = Inr s'" "sink_rep cfg ops s" "op_ok x"
  shows "sink_rep cfg (ops @ [x]) s'"
  using assms
  by (cases x)
    (auto simp: sink_rep_def push_as_row res_simps rows_of_defs
      dest!: push_row_rep [OF _ _ row_fits_cells(1)] push_row_rep [OF _ _ row_fits_cells(2)]
        push_row_rep [OF _ _ row_fits_cells(3)] push_row_rep [OF _ _ row_fits_cells(4)]
        push_row_rep [OF _ _ row_fits_cells(5)])

lemma run_rep:
  "res_fold (sink_step A) xs s = Inr s' \<Longrightarrow> sink_rep cfg ops s \<Longrightarrow> \<forall>x\<in>set xs. op_ok x \<Longrightarrow>
    sink_rep cfg (ops @ xs) s'"
proof (induction xs arbitrary: s ops)
  case Nil
  then show ?case by simp
next
  case (Cons x xs)
  then obtain s1 where s1: "sink_step A x s = Inr s1" "res_fold (sink_step A) xs s1 = Inr s'"
    by (auto simp: res_simps)
  have "sink_rep cfg (ops @ [x]) s1" using step_rep [OF s1(1) Cons.prems(2)] Cons.prems(3) by simp
  from Cons.IH [OF s1(2) this] Cons.prems(3) show ?case by simp
qed

lemma finish_rep:
  assumes "sink_finish A s = Inr fl" "sink_rep cfg ops s"
  shows "contents (fl_blocks fl) = blocks_of ops \<and> contents (fl_txs fl) = txs_of ops
    \<and> contents (fl_inputs fl) = inputs_of ops \<and> contents (fl_outputs fl) = outputs_of ops
    \<and> contents (fl_spends fl) = spends_of ops"
  using assms
  by (auto simp: sink_finish_def sink_rep_def close_writer_def res_simps
      dest!: flush_rep close_contents)

end

context arrow_total
begin

lemma create_total': "\<exists>s. sink_create A dir part cfg = Inr s"
  using create_writer_total [of dir "''blocks''" part blocks_schema]
    create_writer_total [of dir "''transactions''" part transactions_schema]
    create_writer_total [of dir "''inputs''" part inputs_schema]
    create_writer_total [of dir "''outputs''" part outputs_schema]
    create_writer_total [of dir "''spends''" part spends_schema]
  by (auto simp: sink_create_def)

lemma step_total:
  assumes "sink_rep cfg ops s" "op_ok x"
  shows "\<exists>s'. sink_step A x s = Inr s'"
proof (cases x)
  case (PushBlock r)
  then show ?thesis
    using push_row_total [of blocks_schema "batch_size (sk_cfg s)" "sk_blocks s" "block_cells r" "blocks_w s"]
      assms row_fits_cells(1) by (auto simp: sink_rep_def tab_rep_def push_as_row)
next
  case (PushTx r)
  then show ?thesis
    using push_row_total [of transactions_schema "batch_size (sk_cfg s)" "sk_txs s" "tx_cells r" "txs_w s"]
      assms row_fits_cells(2) by (auto simp: sink_rep_def tab_rep_def push_as_row)
next
  case (PushInput r)
  then show ?thesis
    using push_row_total [of inputs_schema "batch_size (sk_cfg s)" "sk_inputs s" "input_cells r" "inputs_w s"]
      assms row_fits_cells(3) by (auto simp: sink_rep_def tab_rep_def push_as_row)
next
  case (PushOutput r)
  then show ?thesis
    using push_row_total [of outputs_schema "batch_size (sk_cfg s)" "sk_outputs s" "output_cells r" "outputs_w s"]
      assms row_fits_cells(4) by (auto simp: sink_rep_def tab_rep_def push_as_row)
next
  case (PushSpend r)
  then show ?thesis
    using push_row_total [of spends_schema "batch_size (sk_cfg s)" "sk_spends s" "spend_cells r" "spends_w s"]
      assms row_fits_cells(5) by (auto simp: sink_rep_def tab_rep_def push_as_row)
qed

lemma run_total:
  "sink_rep cfg ops s \<Longrightarrow> \<forall>x\<in>set xs. op_ok x \<Longrightarrow> \<exists>s'. res_fold (sink_step A) xs s = Inr s'"
proof (induction xs arbitrary: s ops)
  case Nil
  then show ?case by simp
next
  case (Cons x xs)
  then obtain s1 where s1: "sink_step A x s = Inr s1" using step_total by (meson list.set_intros(1))
  have "sink_rep cfg (ops @ [x]) s1" using step_rep [OF s1 Cons.prems(1)] Cons.prems(2) by simp
  with Cons.IH Cons.prems(2) s1 show ?case by simp
qed

lemma finish_total: "sink_rep cfg ops s \<Longrightarrow> \<exists>fl. sink_finish A s = Inr fl"
proof -
  assume "sink_rep cfg ops s"
  then obtain w1 w2 w3 w4 w5 t1 t2 t3 t4 t5 where
    "flush_table A (blocks_w s) (sk_blocks s) = Inr (w1, t1)"
    "flush_table A (txs_w s) (sk_txs s) = Inr (w2, t2)"
    "flush_table A (inputs_w s) (sk_inputs s) = Inr (w3, t3)"
    "flush_table A (outputs_w s) (sk_outputs s) = Inr (w4, t4)"
    "flush_table A (spends_w s) (sk_spends s) = Inr (w5, t5)"
    unfolding sink_rep_def tab_rep_def by (metis flush_total)
  moreover have "\<exists>f. close_writer A w = Inr f" for w
    using close_total [of w] by (auto simp: close_writer_def)
  then obtain f1 f2 f3 f4 f5 where "close_writer A w1 = Inr f1" "close_writer A w2 = Inr f2"
    "close_writer A w3 = Inr f3" "close_writer A w4 = Inr f4" "close_writer A w5 = Inr f5"
    by metis
  ultimately show ?thesis by (simp add: sink_finish_def)
qed

end

text \<open>No push reaches a panic of the column macros.\<close>

lemma push_row_no_panic:
  assumes "table_ok sch bs t" "row_fits sch cells"
  shows "push_row A n (enumerate 0 cells) w t \<noteq> Inl SinkPanic"
proof -
  obtain cols' where "res_fold push_cell (enumerate 0 cells) (et_cols t) = Inr cols'"
    using push_cells_ok [of "et_cols t" cells "et_buffered t"] assms by (auto simp: table_ok_def)
  then show ?thesis
    by (auto simp: push_row_def write_table_def take_batch_def Let_def res_simps)
qed

lemma sink_create_no_panic: "sink_create A dir part cfg \<noteq> Inl SinkPanic"
  by (simp add: sink_create_def create_writer_def Let_def res_simps)

lemma sink_finish_no_panic: "sink_finish A s \<noteq> Inl SinkPanic"
  by (simp add: sink_finish_def flush_table_def write_table_def take_batch_def close_writer_def
      Let_def res_simps)

context arrow_sound
begin

lemma step_no_panic:
  assumes "sink_rep cfg ops s" "op_ok x"
  shows "sink_step A x s \<noteq> Inl SinkPanic"
  using assms
  by (cases x)
    (auto simp: sink_rep_def tab_rep_def push_as_row res_simps
      dest: push_row_no_panic [OF _ row_fits_cells(1)] push_row_no_panic [OF _ row_fits_cells(2)]
        push_row_no_panic [OF _ row_fits_cells(3)] push_row_no_panic [OF _ row_fits_cells(4)]
        push_row_no_panic [OF _ row_fits_cells(5)])

lemma run_no_panic:
  "sink_rep cfg ops s \<Longrightarrow> \<forall>x\<in>set xs. op_ok x \<Longrightarrow> res_fold (sink_step A) xs s \<noteq> Inl SinkPanic"
proof (induction xs arbitrary: s ops)
  case Nil
  then show ?case by simp
next
  case (Cons x xs)
  have "op_ok x" using Cons.prems(2) by simp
  with Cons.prems(1) have np: "sink_step A x s \<noteq> Inl SinkPanic" by (rule step_no_panic)
  show ?case
  proof (cases "sink_step A x s")
    case (Inl e)
    with np show ?thesis by auto
  next
    case (Inr s1)
    then have "sink_rep cfg (ops @ [x]) s1" using step_rep Cons.prems(1) \<open>op_ok x\<close> by blast
    with Cons.IH Cons.prems(2) Inr show ?thesis by simp
  qed
qed

lemma sink_run_no_panic:
  assumes "\<forall>x\<in>set ops. op_ok x"
  shows "sink_run A dir part cfg ops \<noteq> Inl SinkPanic"
proof (cases "sink_create A dir part cfg")
  case (Inl e)
  with sink_create_no_panic [of A dir part cfg] show ?thesis by (auto simp: sink_run_def)
next
  case (Inr s)
  then have "res_fold (sink_step A) ops s \<noteq> Inl SinkPanic"
    using run_no_panic [OF create_rep] assms by blast
  then show ?thesis by (auto simp: sink_run_def Inr res_simps sink_finish_no_panic)
qed

lemma sink_run_contents:
  assumes "\<forall>x\<in>set ops. op_ok x" "sink_run A dir part cfg ops = Inr fl"
  shows "contents (fl_blocks fl) = blocks_of ops \<and> contents (fl_txs fl) = txs_of ops
    \<and> contents (fl_inputs fl) = inputs_of ops \<and> contents (fl_outputs fl) = outputs_of ops
    \<and> contents (fl_spends fl) = spends_of ops"
proof -
  obtain s0 s1 where s: "sink_create A dir part cfg = Inr s0" "res_fold (sink_step A) ops s0 = Inr s1"
      "sink_finish A s1 = Inr fl"
    using assms(2) by (auto simp: sink_run_def res_simps)
  have "sink_rep cfg ([] @ ops) s1" by (rule run_rep [OF s(2) create_rep [OF s(1)] assms(1)])
  then show ?thesis using finish_rep [OF s(3), of cfg ops] by simp
qed

lemma run_buffers:
  assumes "sink_create A dir part cfg = Inr s0" "res_fold (sink_step A) ops s0 = Inr s"
    "\<forall>x\<in>set ops. op_ok x" "t \<in> {sk_blocks s, sk_txs s, sk_inputs s, sk_outputs s, sk_spends s}"
  shows "et_buffered t < max 1 (batch_size cfg) \<and> (\<forall>c\<in>set (et_cols t). length (col_cells c) = et_buffered t)"
proof -
  have "sink_rep cfg ([] @ ops) s" by (rule run_rep [OF assms(2) create_rep [OF assms(1)] assms(3)])
  then show ?thesis using assms(4) by (auto simp: sink_rep_def tab_rep_def table_ok_def)
qed

end

context arrow_total
begin

lemma sink_run_total: "\<forall>x\<in>set ops. op_ok x \<Longrightarrow> \<exists>fl. sink_run A dir part cfg ops = Inr fl"
proof -
  assume ok: "\<forall>x\<in>set ops. op_ok x"
  obtain s0 where s0: "sink_create A dir part cfg = Inr s0" using create_total' by blast
  obtain s1 where s1: "res_fold (sink_step A) ops s0 = Inr s1"
    using run_total [OF create_rep [OF s0] ok] by blast
  have "sink_rep cfg ([] @ ops) s1" by (rule run_rep [OF s1 create_rep [OF s0] ok])
  then obtain fl where "sink_finish A s1 = Inr fl" using finish_total by blast
  with s0 s1 show ?thesis by (simp add: sink_run_def)
qed

end

text \<open>A writer that keeps the rows in memory and rejects batches that do not match their schema.\<close>

definition list_arrow :: "(cell list list, cell list list) arrow" where
  "list_arrow = \<lparr>a_create_dir_all = (\<lambda>p. Inr ()), a_file_create = (\<lambda>p. Inr ()),
     a_writer_new = (\<lambda>p sch pr. Inr []),
     a_batch = (\<lambda>sch cols. if cols \<noteq> [] \<and> map col_type cols = map snd sch
          \<and> list_all (\<lambda>c. length (col_cells c) = length (col_cells (hd cols))) cols
        then Inr \<lparr>rb_schema = sch, rb_columns = cols\<rparr> else Inl ''InvalidArgumentError''),
     a_write = (\<lambda>w b. Inr (w @ cols_rows (rb_columns b))), a_close = (\<lambda>w. Inr w)\<rparr>"

interpretation la: arrow_total list_arrow "\<lambda>w. w" "\<lambda>fl. fl"
proof
  fix sch :: schema and cols
  assume "conforming sch cols"
  then have "cols \<noteq> [] \<and> map col_type cols = map snd sch
    \<and> list_all (\<lambda>c. length (col_cells c) = length (col_cells (hd cols))) cols"
    by (auto simp: conforming_def list_all_iff)
  then show "\<exists>b. a_batch list_arrow sch cols = Inr b" by (simp add: list_arrow_def)
qed (auto simp: list_arrow_def split: if_splits)

section \<open>Properties\<close>

text \<open>C25. For every sequence of pushes, whatever the batch size: a sink that is created, filled and
  finished without an error of the file system or the Parquet writer leaves in each of its five
  files exactly the rows pushed to that table, every field in its column, in order; and no run
  panics on a column type or index.\<close>
theorem sink_files_exact:
  assumes "arrow_sound A written contents" and "\<forall>x\<in>set ops. op_ok x"
  shows "sink_run A dir part cfg ops \<noteq> Inl SinkPanic \<and>
    (\<forall>fl. sink_run A dir part cfg ops = Inr fl \<longrightarrow>
      contents (fl_blocks fl) = blocks_of ops \<and> contents (fl_txs fl) = txs_of ops
    \<and> contents (fl_inputs fl) = inputs_of ops \<and> contents (fl_outputs fl) = outputs_of ops
    \<and> contents (fl_spends fl) = spends_of ops)"
  using arrow_sound.sink_run_no_panic [OF assms] arrow_sound.sink_run_contents [OF assms] by blast

definition ex_block_row :: block_row where
  "ex_block_row = \<lparr>b_height = 1, b_hash = zeros 32, b_prev_hash = zeros 32, b_merkle_root = zeros 32,
     b_time = 7, b_bits = 0, b_nonce = 0, b_version = 1, b_tx_count = 1, b_size = 0, b_weight = 0,
     b_total_fee = 0, b_coinbase_value = 50\<rparr>"

theorem sink_files_exact_witness:
  "\<exists>fl. sink_run list_arrow [''out''] 3 \<lparr>batch_size = 2\<rparr>
     [PushBlock ex_block_row, PushBlock (ex_block_row\<lparr>b_height := 2\<rparr>), PushBlock (ex_block_row\<lparr>b_height := 3\<rparr>)] = Inr fl
   \<and> fl_blocks fl = map block_cells [ex_block_row, ex_block_row\<lparr>b_height := 2\<rparr>, ex_block_row\<lparr>b_height := 3\<rparr>]"
proof -
  let ?ops = "[PushBlock ex_block_row, PushBlock (ex_block_row\<lparr>b_height := 2\<rparr>), PushBlock (ex_block_row\<lparr>b_height := 3\<rparr>)]"
  have ok: "\<forall>x\<in>set ?ops. op_ok x" by (simp add: ex_block_row_def)
  obtain fl where fl: "sink_run list_arrow [''out''] 3 \<lparr>batch_size = 2\<rparr> ?ops = Inr fl"
    using la.sink_run_total [OF ok] by blast
  have "fl_blocks fl = blocks_of ?ops"
    using sink_files_exact [OF la.arrow_sound_axioms ok] fl by blast
  then show ?thesis using fl by (simp add: blocks_of_def)
qed

text \<open>With writers that do not fail, every sequence of pushes runs to completion: no push is
  rejected and all five files are closed, holding the pushed rows. Between pushes fewer than
  \<open>max 1 batch_size\<close> rows of each table are held in memory.\<close>
theorem sink_run_completes:
  assumes "arrow_total A written contents" and "\<forall>x\<in>set ops. op_ok x"
  shows "\<exists>fl. sink_run A dir part cfg ops = Inr fl \<and> contents (fl_txs fl) = txs_of ops
    \<and> (\<forall>s0 s. sink_create A dir part cfg = Inr s0 \<longrightarrow> res_fold (sink_step A) ops s0 = Inr s \<longrightarrow>
        (\<forall>t\<in>{sk_blocks s, sk_txs s, sk_inputs s, sk_outputs s, sk_spends s}.
           et_buffered t < max 1 (batch_size cfg)
           \<and> (\<forall>c\<in>set (et_cols t). length (col_cells c) = et_buffered t)))"
proof -
  have sound: "arrow_sound A written contents" using assms(1) by (rule arrow_total.axioms(1))
  obtain fl where fl: "sink_run A dir part cfg ops = Inr fl"
    using arrow_total.sink_run_total [OF assms] by blast
  have "contents (fl_txs fl) = txs_of ops"
    using arrow_sound.sink_run_contents [OF sound assms(2) fl] by blast
  with fl show ?thesis
    using arrow_sound.run_buffers [OF sound _ _ assms(2)] by blast
qed

theorem sink_run_completes_witness:
  "\<exists>fl. sink_run list_arrow [''out''] 0 sink_config_default [PushBlock ex_block_row] = Inr fl \<and> fl_txs fl = []"
proof -
  have ok: "\<forall>x\<in>set [PushBlock ex_block_row]. op_ok x" by (simp add: ex_block_row_def)
  show ?thesis
    using sink_run_completes [OF la.arrow_total_axioms ok, of "[''out'']" 0 sink_config_default]
    by (auto simp: txs_of_def)
qed

end
