(* ===== verification/Cli_DiskGuard.thy ===== *)
theory Cli_DiskGuard
  imports Core_Disk
begin

text \<open>
  \<open>bidx-cli/src/diskguard.rs\<close>: the startup disk check and the checkpoint recorder, over the host
  and the floating-point parameters of \<open>Core_Disk\<close>. Formatting of log lines and error texts is
  left out; an error carries the numbers it prints. Sums of directory sizes wrap at 64 bits, as in
  a release build.
\<close>

section \<open>Startup check\<close>

definition DEFAULT_CHECKPOINT_FILE_NAME :: string where
  "DEFAULT_CHECKPOINT_FILE_NAME = ''bidx-disk-checkpoints.txt''"

record disk_guard_config =
  checkpoint_file :: path
  dg_network :: network
  index_root :: path
  tracked_dirs :: "path list"

definition projected_total_at ::
    "'f f64 \<Rightarrow> 'w host \<Rightarrow> 'w \<Rightarrow> disk_guard_config \<Rightarrow> u32 \<Rightarrow> u64 \<times> disk_checkpoint list" where
  "projected_total_at F H w cfg target_height =
    (let cps = read_checkpoints H w (checkpoint_file cfg) (dg_network cfg);
         est = projected_total_bytes F cps target_height
     in (est, cps))"

definition current_total_bytes :: "'w host \<Rightarrow> 'w \<Rightarrow> disk_guard_config \<Rightarrow> u64" where
  "current_total_bytes H w cfg = sum_list (map (dir_size_bytes H w) (tracked_dirs cfg))"

record preflight_report =
  pr_network :: network
  pr_indexed_tip :: u32
  pr_node_tip :: u32
  pr_checkpoints_used :: nat
  pr_current_total_bytes :: u64
  pr_projected_total_bytes :: u64
  pr_additional_needed_bytes :: u64
  pr_free_bytes_now :: u64
  pr_free_bytes_at_completion :: u64
  pr_min_free_bytes :: u64

datatype guard_error =
    StatfsFailed
  | InsufficientDisk network u32 u64 u64 u64 u64
  | WriteCheckpoint path io_error
  | StepIsZero

definition run_pre_flight ::
    "'f f64 \<Rightarrow> 'w host \<Rightarrow> 'w \<Rightarrow> disk_guard_config \<Rightarrow> u32 \<Rightarrow> u32 \<Rightarrow> u64 \<Rightarrow>
      guard_error + preflight_report" where
  "run_pre_flight F H w cfg node_tip_height local_tip_height min_free_bytes =
    (let current = current_total_bytes H w cfg in
     case projected_total_at F H w cfg node_tip_height of
       (projected_total, checkpoints) \<Rightarrow>
         let projection_available = (checkpoints \<noteq> []);
             additional_needed =
               (if projection_available then saturating_sub projected_total current else 0)
         in
         res_bind (ok_or (free_space_bytes H w (index_root cfg)) StatfsFailed) (\<lambda>free_now.
           let free_at_end = saturating_sub free_now additional_needed;
               report = \<lparr>pr_network = dg_network cfg, pr_indexed_tip = local_tip_height,
                 pr_node_tip = node_tip_height, pr_checkpoints_used = length checkpoints,
                 pr_current_total_bytes = current, pr_projected_total_bytes = projected_total,
                 pr_additional_needed_bytes = additional_needed, pr_free_bytes_now = free_now,
                 pr_free_bytes_at_completion = free_at_end, pr_min_free_bytes = min_free_bytes\<rparr>
           in
           if projection_available \<and> free_at_end < min_free_bytes then
             let deficit_bytes = saturating_sub min_free_bytes free_at_end;
                 need_gib = (deficit_bytes + 2 ^ 30 - 1) div 2 ^ 30
             in Inl (InsufficientDisk (dg_network cfg) node_tip_height additional_needed free_at_end
                       min_free_bytes need_gib)
           else Inr report))"

section \<open>Recorder\<close>

record disk_recorder =
  dr_cfg :: disk_guard_config
  dr_state :: "u32 option"

definition recorder_new :: "'w host \<Rightarrow> 'w \<Rightarrow> disk_guard_config \<Rightarrow> disk_recorder" where
  "recorder_new H w cfg =
    (let cps = read_checkpoints H w (checkpoint_file cfg) (dg_network cfg) in
     \<lparr>dr_cfg = cfg, dr_state = (if cps = [] then None else Some (cp_height (last cps)))\<rparr>)"

definition on_block_applied ::
    "'w host \<Rightarrow> u32 \<Rightarrow> 'w \<times> disk_recorder \<Rightarrow> ('w \<times> disk_recorder, guard_error, bool) io" where
  "on_block_applied H height = (\<lambda>(w, r).
    (let step = checkpoint_step H in
     if height = 0 then ((w, r), Inr False)
     else if step = 0 then ((w, r), Inl StepIsZero)
     else if height mod step \<noteq> 0 then ((w, r), Inr False)
     else if (case dr_state r of None \<Rightarrow> False | Some lh \<Rightarrow> height \<le> lh) then ((w, r), Inr False)
     else
       let total_bytes = current_total_bytes H w (dr_cfg r);
           cp = \<lparr>cp_height = height, cp_total_bytes = total_bytes\<rparr>
       in (case append_checkpoint H w (checkpoint_file (dr_cfg r)) (dg_network (dr_cfg r)) cp of
             (w', Inl e) \<Rightarrow> ((w', r), Inl (WriteCheckpoint (checkpoint_file (dr_cfg r)) e))
           | (w', Inr _) \<Rightarrow> ((w', r\<lparr>dr_state := Some height\<rparr>), Inr True))))"

definition default_layout :: "path \<Rightarrow> network \<Rightarrow> path \<Rightarrow> path list \<Rightarrow> disk_guard_config" where
  "default_layout dir net utxo_dir out_dirs =
    \<lparr>checkpoint_file = dir @ [DEFAULT_CHECKPOINT_FILE_NAME], dg_network = net,
     index_root = dir, tracked_dirs = utxo_dir # out_dirs\<rparr>"

text \<open>The calls of an indexing run.\<close>

fun record_run :: "'w host \<Rightarrow> u32 list \<Rightarrow> 'w \<times> disk_recorder \<Rightarrow> ('w \<times> disk_recorder, guard_error, unit) io" where
  "record_run H [] s = (s, Inr ())"
| "record_run H (h # hs) s = io_bind (on_block_applied H h s) (\<lambda>s _. record_run H hs s)"

section \<open>Properties\<close>

lemma ceil_gib:
  fixes d :: u64
  assumes "unat d + 2 ^ 30 \<le> 2 ^ 64"
  shows "unat d \<le> unat ((d + 2 ^ 30 - 1) div 2 ^ 30) * 2 ^ 30"
    and "d \<noteq> 0 \<Longrightarrow> (unat ((d + 2 ^ 30 - 1) div 2 ^ 30) - 1) * 2 ^ 30 < unat d"
proof -
  have "unat (d + (2 ^ 30 - 1)) = unat d + (2 ^ 30 - 1)"
    using assms by (simp add: unat_word_ariths)
  then have u: "unat (d + 2 ^ 30 - 1) = unat d + (2 ^ 30 - 1)"
    by (simp add: algebra_simps)
  have q: "unat ((d + 2 ^ 30 - 1) div 2 ^ 30) = (unat d + (2 ^ 30 - 1)) div 2 ^ 30"
    unfolding unat_div u by simp
  show "unat d \<le> unat ((d + 2 ^ 30 - 1) div 2 ^ 30) * 2 ^ 30"
    unfolding q by simp
  show "d \<noteq> 0 \<Longrightarrow> (unat ((d + 2 ^ 30 - 1) div 2 ^ 30) - 1) * 2 ^ 30 < unat d"
    unfolding q by (simp add: unat_eq_zero [symmetric] del: unat_eq_zero)
qed

text \<open>The space the check expects the rest of the run to need.\<close>

definition growth :: "'f f64 \<Rightarrow> 'w host \<Rightarrow> 'w \<Rightarrow> disk_guard_config \<Rightarrow> u32 \<Rightarrow> nat" where
  "growth F H w cfg tip =
    (let cps = read_checkpoints H w (checkpoint_file cfg) (dg_network cfg) in
     if cps = [] then 0
     else unat (projected_total_bytes F cps tip) - unat (current_total_bytes H w cfg))"

lemma preflight_cases:
  "run_pre_flight F H w cfg tip local_tip min_free =
    (case free_space_bytes H w (index_root cfg) of
       None \<Rightarrow> Inl StatfsFailed
     | Some free \<Rightarrow>
        let cps = read_checkpoints H w (checkpoint_file cfg) (dg_network cfg);
            need = of_nat (growth F H w cfg tip);
            at_end = of_nat (unat free - growth F H w cfg tip) in
        if cps \<noteq> [] \<and> at_end < min_free
        then Inl (InsufficientDisk (dg_network cfg) tip need at_end min_free
               ((min_free - at_end + 2 ^ 30 - 1) div 2 ^ 30))
        else Inr \<lparr>pr_network = dg_network cfg, pr_indexed_tip = local_tip, pr_node_tip = tip,
               pr_checkpoints_used = length cps,
               pr_current_total_bytes = current_total_bytes H w cfg,
               pr_projected_total_bytes = projected_total_bytes F cps tip,
               pr_additional_needed_bytes = need, pr_free_bytes_now = free,
               pr_free_bytes_at_completion = at_end, pr_min_free_bytes = min_free\<rparr>)"
proof -
  have sub: "saturating_sub a b = of_nat (unat a - unat b)" for a b :: u64
  proof -
    have "of_nat (unat (saturating_sub a b)) = saturating_sub a b" by simp
    then show ?thesis by (simp only: unat_saturating_sub)
  qed
  let ?cps = "read_checkpoints H w (checkpoint_file cfg) (dg_network cfg)"
  have "growth F H w cfg tip < 2 ^ 64"
    using unsigned_less [of "projected_total_bytes F ?cps tip"]
    by (auto simp: growth_def Let_def intro: le_less_trans [OF diff_le_self])
  then have g: "unat (of_nat (growth F H w cfg tip) :: u64) = growth F H w cfg tip"
    by (simp add: unat_of_nat_less)
  have need: "(if ?cps \<noteq> [] then saturating_sub (projected_total_bytes F ?cps tip) (current_total_bytes H w cfg) else 0)
      = of_nat (growth F H w cfg tip)"
    by (simp add: growth_def Let_def sub)
  show ?thesis
    unfolding run_pre_flight_def projected_total_at_def Let_def prod.case need
    by (auto simp: sub [of _ "of_nat (growth F H w cfg tip)"] g saturating_sub_def [of min_free]
        split: option.splits)
qed

text \<open>C39. The startup check: it fails when the free space cannot be read, refuses to start exactly
  when checkpoints exist and the free space left after the projected growth is below the minimum,
  and otherwise reports that remaining space. When it refuses, the number of GiB it asks for
  covers the deficit and one GiB less would not.\<close>
theorem preflight_decision:
  assumes "free_space_bytes H w (index_root cfg) = Some free" and "unat min_free + 2 ^ 30 \<le> 2 ^ 64"
  shows "case run_pre_flight F H w cfg tip local_tip min_free of
      Inr r \<Rightarrow> (read_checkpoints H w (checkpoint_file cfg) (dg_network cfg) = []
               \<or> unat min_free \<le> unat free - growth F H w cfg tip)
             \<and> unat (pr_free_bytes_at_completion r) = unat free - growth F H w cfg tip
    | Inl (InsufficientDisk net h need at_end mf gib) \<Rightarrow>
        read_checkpoints H w (checkpoint_file cfg) (dg_network cfg) \<noteq> []
        \<and> unat free - growth F H w cfg tip < unat min_free
        \<and> unat min_free \<le> (unat free - growth F H w cfg tip) + unat gib * 2 ^ 30
        \<and> (unat free - growth F H w cfg tip) + (unat gib - 1) * 2 ^ 30 < unat min_free
    | Inl _ \<Rightarrow> False"
proof -
  let ?at = "unat free - growth F H w cfg tip"
  have at: "unat (of_nat ?at :: u64) = ?at"
    using unsigned_less [of free] by (intro unat_of_nat_less) (auto intro: le_less_trans [OF diff_le_self])
  let ?a = "of_nat ?at :: u64"
  show ?thesis
  proof (cases "read_checkpoints H w (checkpoint_file cfg) (dg_network cfg) \<noteq> [] \<and> ?a < min_free")
    case True
    then have lt: "?at < unat min_free" using at by (simp add: word_less_nat_alt)
    then have d: "unat (min_free - ?a) = unat min_free - ?at"
      using at by (subst unat_sub) (auto simp: word_le_nat_alt)
    then have "unat (min_free - ?a) + 2 ^ 30 \<le> 2 ^ 64" "min_free - ?a \<noteq> 0"
      using assms(2) lt by auto
    note c = ceil_gib(1) [OF this(1)] ceil_gib(2) [OF this]
    show ?thesis
      using True lt c unfolding d preflight_cases assms(1) by (simp add: Let_def; linarith)
  next
    case False
    then show ?thesis
      using at unfolding preflight_cases assms(1)
      by (auto simp: Let_def word_less_nat_alt)
  qed
qed

lemma free_space_map_host: "free_space_bytes map_host w p = Some (2 ^ 40)"
  by (subst free_space_bytes.simps) (simp add: map_host_def saturating_mul_def)

definition ex_guard :: disk_guard_config where
  "ex_guard = default_layout [''idx''] Mainnet [''idx'', ''utxo''] [[''idx'', ''out'']]"

theorem preflight_decision_witness:
  "\<exists>r. run_pre_flight real_f64 map_host Map.empty ex_guard 900000 0 MIN_FREE_BYTES = Inr r
     \<and> unat (pr_free_bytes_at_completion r) = 2 ^ 40"
proof -
  have rd: "read_checkpoints map_host Map.empty p n = []" for p n
    by (simp add: read_checkpoints_def map_host_def)
  have g: "growth real_f64 map_host Map.empty ex_guard 900000 = 0" by (simp add: growth_def rd)
  have m: "unat MIN_FREE_BYTES + 2 ^ 30 \<le> 2 ^ 64" by (simp add: MIN_FREE_BYTES_def)
  show ?thesis
    using preflight_decision [OF free_space_map_host m, of Map.empty ex_guard real_f64 900000 0]
    by (auto simp: rd g split: sum.splits guard_error.splits)
qed

text \<open>One checkpoint stops the indexer: with a single checkpoint of 1 GiB at height 100,000 and
  1 TiB of free space, the check against a tip of 900,000 refuses to start. The size of the index
  is taken for its growth per block, and the projection is 900,000 GiB, although the recorded
  growth rate gives 9 GiB.\<close>
theorem single_checkpoint_refuses:
  "\<exists>w. read_checkpoints map_host w (checkpoint_file ex_guard) Mainnet
       = [\<lparr>cp_height = 100000, cp_total_bytes = 2 ^ 30\<rparr>]
     \<and> free_space_bytes map_host w (index_root ex_guard) = Some (2 ^ 40)
     \<and> projected_total_bytes real_f64 (read_checkpoints map_host w (checkpoint_file ex_guard) Mainnet) 900000
       = 900000 * 2 ^ 30
     \<and> (\<exists>need at_end gib. run_pre_flight real_f64 map_host w ex_guard 900000 100000 MIN_FREE_BYTES
          = Inl (InsufficientDisk Mainnet 900000 need at_end MIN_FREE_BYTES gib))"
proof -
  let ?cp = "\<lparr>cp_height = 100000, cp_total_bytes = 2 ^ 30\<rparr> :: disk_checkpoint"
  let ?s = "network_line Mainnet @ newline @ checkpoint_text ?cp @ newline"
  define w where "w = [checkpoint_file ex_guard \<mapsto> ?s]"
  have ls: "lines ?s = [network_line Mainnet, checkpoint_text ?cp]"
    by (simp add: lines_def lines_from_line [of _ "[]", simplified] lines_from_line section_line
        checkpoint_text_line)
  have rd: "read_checkpoints map_host w (checkpoint_file ex_guard) Mainnet = [?cp]"
    unfolding read_checkpoints_def w_def map_host_def
    by (simp add: ls [simplified] section_line checkpoint_text_line)
  have pj: "projected_total_bytes real_f64 [?cp] 900000 = 900000 * 2 ^ 30"
    by (simp add: projected_single cy_def real_to_u64_def)
  have cur: "current_total_bytes map_host w ex_guard = 0"
    by (simp add: current_total_bytes_def ex_guard_def default_layout_def dir_size_bytes_def map_host_def)
  have net: "dg_network ex_guard = Mainnet" by (simp add: ex_guard_def default_layout_def)
  have "growth real_f64 map_host w ex_guard 900000 = 900000 * 2 ^ 30"
    unfolding growth_def net rd cur pj Let_def by simp
  then have "\<exists>need at_end gib. run_pre_flight real_f64 map_host w ex_guard 900000 100000 MIN_FREE_BYTES
          = Inl (InsufficientDisk Mainnet 900000 need at_end MIN_FREE_BYTES gib)"
    by (simp add: preflight_cases free_space_map_host net rd MIN_FREE_BYTES_def Let_def)
  then show ?thesis using rd pj free_space_map_host [of w "index_root ex_guard"] by auto
qed

section \<open>The recorded history\<close>

definition boundary :: "'w host \<Rightarrow> u32 \<Rightarrow> bool" where
  "boundary H h \<longleftrightarrow> h \<noteq> 0 \<and> h mod checkpoint_step H = 0"

definition above :: "disk_recorder \<Rightarrow> u32 \<Rightarrow> bool" where
  "above r h \<longleftrightarrow> (case dr_state r of None \<Rightarrow> True | Some l \<Rightarrow> l < h)"

definition recorded :: "'w host \<Rightarrow> disk_guard_config \<Rightarrow> 'w \<Rightarrow> u32 set" where
  "recorded H cfg w = cp_height ` set (read_checkpoints H w (checkpoint_file cfg) (dg_network cfg))"

context text_files
begin

definition rec_ok :: "'w \<Rightarrow> disk_recorder \<Rightarrow> bool" where
  "rec_ok w r \<longleftrightarrow> well_formed w (checkpoint_file (dr_cfg r))
     \<and> (fst (scan w (checkpoint_file (dr_cfg r)) (dg_network (dr_cfg r))) = Some (network_name (dg_network (dr_cfg r)))
        \<or> \<not> has_section H w (checkpoint_file (dr_cfg r)) (dg_network (dr_cfg r))
              (read_checkpoints H w (checkpoint_file (dr_cfg r)) (dg_network (dr_cfg r))))
     \<and> (\<forall>h\<in>recorded H (dr_cfg r) w. \<not> above r h)"

lemma record_step:
  assumes run: "on_block_applied H h (w, r) = ((w', r'), Inr b)" and ok: "rec_ok w r"
  shows "rec_ok w' r' \<and> b = (boundary H h \<and> above r h) \<and> dr_cfg r' = dr_cfg r
    \<and> dr_state r' = (if b then Some h else dr_state r)
    \<and> recorded H (dr_cfg r) w' = recorded H (dr_cfg r) w \<union> (if b then {h} else {})"
proof (cases "boundary H h \<and> above r h")
  case False
  then have "w' = w" "r' = r" "b = False"
    using run by (auto simp: on_block_applied_def boundary_def above_def Let_def
        split: if_splits option.splits prod.splits sum.splits)
  then show ?thesis using ok False by auto
next
  case True
  let ?p = "checkpoint_file (dr_cfg r)" and ?net = "dg_network (dr_cfg r)"
  define cp where "cp = \<lparr>cp_height = h, cp_total_bytes = current_total_bytes H w (dr_cfg r)\<rparr>"
  from True run have app: "append_checkpoint H w ?p ?net cp = (w', Inr ())"
    and r': "r' = r\<lparr>dr_state := Some h\<rparr>" and b: "b"
    by (auto simp: on_block_applied_def boundary_def above_def Let_def cp_def
        split: if_splits option.splits prod.splits sum.splits)
  have new: "cp_height cp \<notin> cp_height ` set (read_checkpoints H w ?p ?net)"
    using ok True by (auto simp: rec_ok_def recorded_def cp_def)
  have wf: "well_formed w ?p" and sec: "fst (scan w ?p ?net) = Some (network_name ?net)
      \<or> \<not> has_section H w ?p ?net (read_checkpoints H w ?p ?net)"
    using ok by (auto simp: rec_ok_def)
  have "set (read_checkpoints H w' ?p ?net) = insert cp (set (read_checkpoints H w ?p ?net))"
    using arg_cong [OF append_recorded(1) [OF app wf new sec], of set_mset] by simp
  then have rc: "recorded H (dr_cfg r) w' = recorded H (dr_cfg r) w \<union> {h}"
    by (auto simp: recorded_def cp_def)
  have "\<forall>x\<in>recorded H (dr_cfg r) w'. \<not> above r' x"
    using ok True by (auto simp: rc rec_ok_def above_def r' split: option.splits)
  then have "rec_ok w' r'"
    using append_section [OF app wf new sec] append_scan(2) [OF app wf new]
    by (simp add: rec_ok_def r')
  then show ?thesis using True rc r' b by simp
qed

lemma record_run_history:
  "record_run H hs (w, r) = ((w', r'), Inr ()) \<Longrightarrow> rec_ok w r \<Longrightarrow> sorted_wrt (<) hs \<Longrightarrow>
    recorded H (dr_cfg r) w' = recorded H (dr_cfg r) w \<union> {h \<in> set hs. boundary H h \<and> above r h}"
proof (induction hs arbitrary: w r)
  case Nil
  then show ?case by simp
next
  case (Cons h hs)
  obtain w1 r1 b where s: "on_block_applied H h (w, r) = ((w1, r1), Inr b)"
    and rest: "record_run H hs (w1, r1) = ((w', r'), Inr ())"
    using Cons.prems(1) by (auto simp: io_bind_Inr_iff)
  note st = record_step [OF s Cons.prems(2)]
  have "recorded H (dr_cfg r1) w' = recorded H (dr_cfg r1) w1 \<union> {x \<in> set hs. boundary H x \<and> above r1 x}"
    using Cons.IH [OF rest] st Cons.prems(3) by simp
  moreover have "above r1 x \<longleftrightarrow> above r x" if "x \<in> set hs" for x
    using that st Cons.prems(3) by (auto simp: above_def split: option.splits if_splits)
  ultimately show ?case using st by auto
qed

lemma recorder_new_ok:
  assumes "well_formed w (checkpoint_file cfg)"
    "fst (scan w (checkpoint_file cfg) (dg_network cfg)) = Some (network_name (dg_network cfg))
      \<or> \<not> has_section H w (checkpoint_file cfg) (dg_network cfg)
          (read_checkpoints H w (checkpoint_file cfg) (dg_network cfg))"
  shows "rec_ok w (recorder_new H w cfg)"
proof -
  let ?cps = "read_checkpoints H w (checkpoint_file cfg) (dg_network cfg)"
  have srt: "sorted (map cp_height ?cps)" by (simp add: read_scan)
  have "cp_height c \<le> cp_height (last ?cps)" if c: "c \<in> set ?cps" for c
  proof -
    have ne: "?cps \<noteq> []" using c by auto
    obtain i where i: "i < length ?cps" "?cps ! i = c" using c unfolding in_set_conv_nth by blast
    then have "map cp_height ?cps ! i \<le> map cp_height ?cps ! (length ?cps - 1)"
      using srt by (intro sorted_nth_mono) auto
    then show ?thesis using i ne by (simp add: last_conv_nth)
  qed
  then show ?thesis
    using assms by (auto simp: rec_ok_def recorder_new_def recorded_def above_def Let_def not_less)
qed

end

text \<open>C40. The recorded history: a recorder opened on a checkpoint file that ends in its network's
  section (or has none for it) and called for strictly increasing heights adds exactly the
  boundary heights, the non-zero multiples of the checkpoint step, above the last recorded one.
  A second run over heights already covered adds nothing.\<close>
theorem recorder_history:
  assumes "text_files H view" and "case view w (checkpoint_file cfg) of None \<Rightarrow> True | Some s \<Rightarrow> whole_lines s"
    and "(case view w (checkpoint_file cfg) of None \<Rightarrow> None | Some s \<Rightarrow> last_section s) = Some (network_name (dg_network cfg))
      \<or> \<not> has_section H w (checkpoint_file cfg) (dg_network cfg)
            (read_checkpoints H w (checkpoint_file cfg) (dg_network cfg))"
    and "sorted_wrt (<) hs" and "record_run H hs (w, recorder_new H w cfg) = ((w', r'), Inr ())"
  shows "recorded H cfg w' = recorded H cfg w
      \<union> {h \<in> set hs. boundary H h \<and> (\<forall>l\<in>recorded H cfg w. l < h)}"
proof -
  let ?r = "recorder_new H w cfg"
  have "fst (text_files.scan view w (checkpoint_file cfg) Mainnet)
      = (case view w (checkpoint_file cfg) of None \<Rightarrow> None | Some s \<Rightarrow> last_section s)"
    by (simp add: text_files.scan_def [OF assms(1)] last_section_def split: option.splits)
  then have ok: "text_files.rec_ok H view w ?r"
    using assms(2,3) text_files.fst_scan [OF assms(1), of w "checkpoint_file cfg" "dg_network cfg" Mainnet]
    by (intro text_files.recorder_new_ok [OF assms(1)])
      (simp_all add: text_files.well_formed_def [OF assms(1)])
  have "above ?r h \<longleftrightarrow> (\<forall>l\<in>recorded H cfg w. l < h)" for h
  proof -
    have na: "\<forall>l\<in>recorded H cfg w. \<not> above ?r l"
      using ok by (simp add: text_files.rec_ok_def [OF assms(1)] recorder_new_def Let_def)
    let ?cps = "read_checkpoints H w (checkpoint_file cfg) (dg_network cfg)"
    have "?cps \<noteq> [] \<Longrightarrow> cp_height (last ?cps) \<in> recorded H cfg w"
      by (simp add: recorded_def)
    with na show ?thesis
      by (auto simp: above_def recorder_new_def Let_def recorded_def split: if_splits)
  qed
  then show ?thesis
    using text_files.record_run_history [OF assms(1,5) ok assms(4)]
    by (simp add: recorder_new_def Let_def)
qed

theorem recorder_history_witness:
  "\<exists>w' r'. record_run map_host [99999, 100000, 100001] (Map.empty, recorder_new map_host Map.empty ex_guard)
      = ((w', r'), Inr ())
    \<and> recorded map_host ex_guard w' = {100000}"
proof -
  let ?r = "recorder_new map_host Map.empty ex_guard"
  have step: "checkpoint_step map_host = 100000"
    by (simp add: checkpoint_step_def map_host_def CHECKPOINT_HEIGHT_STEP_def)
  have run: "\<exists>w' r'. record_run map_host hs (w, r) = ((w', r'), Inr ())" for hs w r
  proof (induction hs arbitrary: w r)
    case Nil
    then show ?case by simp
  next
    case (Cons h hs)
    have "\<exists>w1 r1 b. on_block_applied map_host h (w, r) = ((w1, r1), Inr b)"
      using map_host_append [of w "checkpoint_file (dr_cfg r)" "dg_network (dr_cfg r)"
        "\<lparr>cp_height = h, cp_total_bytes = current_total_bytes map_host w (dr_cfg r)\<rparr>"]
      by (auto simp: on_block_applied_def step Let_def)
    with Cons.IH show ?case by fastforce
  qed
  obtain w' r' where w': "record_run map_host [99999, 100000, 100001] (Map.empty, ?r) = ((w', r'), Inr ())"
    using run by blast
  have rd: "read_checkpoints map_host Map.empty p n = []" for p n
    by (simp add: read_checkpoints_def map_host_def)
  have ns: "\<not> has_section map_host Map.empty p n []" for p n
    by (simp add: has_section_def map_host_def)
  have r0: "recorded map_host ex_guard Map.empty = {}" by (simp add: recorded_def rd)
  have "recorded map_host ex_guard w' = {h \<in> set [99999, 100000, 100001]. boundary map_host h}"
    using recorder_history [OF mh.text_files_axioms _ _ _ w'] r0 rd ns by simp
  moreover have "(99999 :: u32) mod 100000 = 99999" "(100001 :: u32) mod 100000 = 1"
    "(100000 :: u32) mod 100000 = 0"
    by code_simp+
  then have "\<not> boundary map_host 99999" "\<not> boundary map_host 100001" "boundary map_host 100000"
    unfolding boundary_def step by (simp_all only:) simp_all
  then have "{h \<in> set [99999, 100000, 100001]. boundary map_host h} = {100000}"
    by auto
  ultimately show ?thesis using w' by auto
qed

end
