(* ===== verification/Cli_FileCache.thy ===== *)
theory Cli_FileCache
  imports Parser_Blk
begin

text \<open>
  \<open>ThreadFileCache\<close> of \<open>bidx-cli/src/pipeline.rs\<close>: the bounded cache of open blk files that the
  parse workers share. The recency list (behind a mutex) and the map (behind a read-write lock)
  are the two fields of \<open>file_cache\<close>. \<open>cache_block_bytes\<close> is one worker's call; the relation
  \<open>fc_step\<close> splits the call at its lock boundaries (look up, insert, touch) and interleaves any
  number of workers.
\<close>

section \<open>The cache\<close>

definition MAX_CACHED_FILES :: nat where
  "MAX_CACHED_FILES = 16"

record file_cache =
  fc_lru :: "u32 list"
  fc_map :: "(u32 \<times> blk_file) list"

definition file_cache_new :: file_cache where
  "file_cache_new = \<lparr>fc_lru = [], fc_map = []\<rparr>"

definition resident :: "file_cache \<Rightarrow> nat" where
  "resident c = card (dom (map_of (fc_map c)))"

text \<open>The eviction loop of \<open>touch\<close>.\<close>

fun evict_files :: "u32 \<Rightarrow> u32 list \<Rightarrow> (u32 \<times> blk_file) list \<Rightarrow> u32 list \<times> (u32 \<times> blk_file) list" where
  "evict_files file_id [] m = ([], m)"
| "evict_files file_id (old # lru) m =
    (if MAX_CACHED_FILES < length (old # lru)
     then evict_files file_id lru (if old \<noteq> file_id then AList.delete old m else m)
     else (old # lru, m))"

definition touch :: "u32 \<Rightarrow> file_cache \<Rightarrow> file_cache" where
  "touch file_id c =
    (let lru = (if file_id \<in> set (fc_lru c) then remove1 file_id (fc_lru c) else fc_lru c) @ [file_id]
     in case evict_files file_id lru (fc_map c) of (lru', m') \<Rightarrow> \<lparr>fc_lru = lru', fc_map = m'\<rparr>)"

definition blk_path :: "path \<Rightarrow> u32 \<Rightarrow> path" where
  "blk_path dir file_id = dir @ [''blk'' @ show_padded 5 (unat file_id) @ ''.dat'']"

definition insert_file :: "u32 \<Rightarrow> blk_file \<Rightarrow> file_cache \<Rightarrow> file_cache" where
  "insert_file file_id bf c = c\<lparr>fc_map := AList.update file_id bf (fc_map c)\<rparr>"

definition cache_block_bytes ::
    "fs \<Rightarrow> path \<Rightarrow> block_location \<Rightarrow> file_cache \<Rightarrow> (file_cache, blk_error, bytes) io" where
  "cache_block_bytes F dir loc c =
    (let file_id = l_file_id loc in
     case (case map_of (fc_map c) file_id of
             Some bf \<Rightarrow> (touch file_id c, Inr bf)
           | None \<Rightarrow>
               (case blk_open F (blk_path dir file_id) file_id of
                  Inl e \<Rightarrow> (c, Inl e)
                | Inr bf \<Rightarrow> (touch file_id (insert_file file_id bf c), Inr bf))) of
       (c', Inl e) \<Rightarrow> (c', Inl e)
     | (c', Inr f) \<Rightarrow> (c', block_bytes f loc))"

section \<open>Interleavings\<close>

text \<open>
  Where a worker is between its lock acquisitions: outside a call, past a lookup that missed, or
  past a lookup that hit or an insertion, with the touch still to come.
\<close>

datatype worker_pc = Idle | Opening u32 | Touching u32

record fc_sys =
  sys_cache :: file_cache
  sys_pcs :: "nat \<Rightarrow> worker_pc"

inductive fc_step :: "fs \<Rightarrow> path \<Rightarrow> fc_sys \<Rightarrow> fc_sys \<Rightarrow> bool" for F dir where
  lookup_hit: "sys_pcs s i = Idle \<Longrightarrow> map_of (fc_map (sys_cache s)) f = Some bf \<Longrightarrow>
     fc_step F dir s (s\<lparr>sys_pcs := (sys_pcs s)(i := Touching f)\<rparr>)"
| lookup_miss: "sys_pcs s i = Idle \<Longrightarrow> map_of (fc_map (sys_cache s)) f = None \<Longrightarrow>
     fc_step F dir s (s\<lparr>sys_pcs := (sys_pcs s)(i := Opening f)\<rparr>)"
| open_fails: "sys_pcs s i = Opening f \<Longrightarrow> blk_open F (blk_path dir f) f = Inl e \<Longrightarrow>
     fc_step F dir s (s\<lparr>sys_pcs := (sys_pcs s)(i := Idle)\<rparr>)"
| open_inserts: "sys_pcs s i = Opening f \<Longrightarrow> blk_open F (blk_path dir f) f = Inr bf \<Longrightarrow>
     fc_step F dir s (s\<lparr>sys_cache := insert_file f bf (sys_cache s), sys_pcs := (sys_pcs s)(i := Touching f)\<rparr>)"
| touches: "sys_pcs s i = Touching f \<Longrightarrow>
     fc_step F dir s (s\<lparr>sys_cache := touch f (sys_cache s), sys_pcs := (sys_pcs s)(i := Idle)\<rparr>)"

definition fc_init :: fc_sys where
  "fc_init = \<lparr>sys_cache = file_cache_new, sys_pcs = (\<lambda>_. Idle)\<rparr>"

inductive fc_reachable :: "fs \<Rightarrow> path \<Rightarrow> fc_sys \<Rightarrow> bool" for F dir where
  fc_start: "fc_reachable F dir fc_init"
| fc_next: "fc_reachable F dir s \<Longrightarrow> fc_step F dir s t \<Longrightarrow> fc_reachable F dir t"

inductive_cases fc_stepE: "fc_step F dir s t"

section \<open>Touching and evicting\<close>

lemma evict_files_lru:
  "evict_files f lru m = (lru', m') \<Longrightarrow> lru' = drop (length lru - MAX_CACHED_FILES) lru"
proof (induction f lru m rule: evict_files.induct)
  case (1 f m)
  then show ?case by simp
next
  case (2 f old lru m)
  then show ?case
    by (cases "MAX_CACHED_FILES < length (old # lru)") (auto simp: Suc_diff_le)
qed

lemma evict_files_map:
  "evict_files f lru m = (lru', m') \<Longrightarrow> distinct lru \<Longrightarrow>
    map_of m' = (map_of m) |` (- (set (take (length lru - MAX_CACHED_FILES) lru) - {f}))"
proof (induction f lru m rule: evict_files.induct)
  case (1 f m)
  then show ?case by simp
next
  case (2 f old lru m)
  show ?case
  proof (cases "MAX_CACHED_FILES < length (old # lru)")
    case True
    let ?m = "if old \<noteq> f then AList.delete old m else m"
    have "map_of m' = (map_of ?m) |` (- (set (take (length lru - MAX_CACHED_FILES) lru) - {f}))"
      using 2 True by simp
    moreover have "length (old # lru) - MAX_CACHED_FILES = Suc (length lru - MAX_CACHED_FILES)"
      using True by simp
    ultimately show ?thesis
      by (auto simp: fun_eq_iff restrict_map_def delete_conv)
  next
    case False
    then show ?thesis using 2 by (auto simp: restrict_map_def fun_eq_iff)
  qed
qed

text \<open>The shape of the cache: no file twice in the recency list, at most the bound.\<close>

definition fc_shape :: "file_cache \<Rightarrow> bool" where
  "fc_shape c \<longleftrightarrow> distinct (fc_lru c) \<and> length (fc_lru c) \<le> MAX_CACHED_FILES"

lemma touch_shape:
  assumes "fc_shape c"
  shows "fc_shape (touch f c)" and "f \<in> set (fc_lru (touch f c))"
    and "dom (map_of (fc_map (touch f c))) \<subseteq> dom (map_of (fc_map c))"
    and "dom (map_of (fc_map (touch f c))) \<inter> insert f (set (fc_lru c)) \<subseteq> set (fc_lru (touch f c))"
proof -
  define lru where "lru = (if f \<in> set (fc_lru c) then remove1 f (fc_lru c) else fc_lru c) @ [f]"
  obtain lru' m' where e: "evict_files f lru (fc_map c) = (lru', m')" by (cases "evict_files f lru (fc_map c)")
  have t: "touch f c = \<lparr>fc_lru = lru', fc_map = m'\<rparr>"
    using e by (simp add: touch_def lru_def Let_def)
  have d: "distinct lru" and s: "set lru = insert f (set (fc_lru c))"
    using assms by (auto simp: lru_def fc_shape_def)
  have l: "length lru \<le> Suc MAX_CACHED_FILES"
    using assms by (auto simp: lru_def fc_shape_def length_remove1)
  define k where "k = length lru - MAX_CACHED_FILES"
  have lru': "lru' = drop k lru" using evict_files_lru [OF e] by (simp add: k_def)
  have k: "k < length lru" by (auto simp: k_def lru_def MAX_CACHED_FILES_def)
  have "last lru = f" by (simp add: lru_def)
  moreover have "last lru \<in> set (drop k lru)" using k by (metis drop_eq_Nil last_drop last_in_set linorder_not_le)
  ultimately have f: "f \<in> set lru'" by (simp add: lru')
  have m': "map_of m' = (map_of (fc_map c)) |` (- (set (take k lru) - {f}))"
    using evict_files_map [OF e d] by (simp add: k_def)
  have "set lru = set (take k lru) \<union> set (drop k lru)" by (metis append_take_drop_id set_append)
  with f m' s show "dom (map_of (fc_map (touch f c))) \<inter> insert f (set (fc_lru c)) \<subseteq> set (fc_lru (touch f c))"
    by (auto simp: t lru' restrict_map_def dom_def split: if_splits)
  show "fc_shape (touch f c)" using d l by (auto simp: t lru' fc_shape_def k_def)
  show "f \<in> set (fc_lru (touch f c))" using f by (simp add: t)
  show "dom (map_of (fc_map (touch f c))) \<subseteq> dom (map_of (fc_map c))"
    by (auto simp: t m' restrict_map_def split: if_splits)
qed

lemma insert_file_map: "map_of (fc_map (insert_file f bf c)) = (map_of (fc_map c))(f \<mapsto> bf)"
  by (simp add: insert_file_def update_conv')

lemma insert_file_lru [simp]: "fc_lru (insert_file f bf c) = fc_lru c"
  by (simp add: insert_file_def)

section \<open>Invariants of the interleavings\<close>

definition touching :: "fc_sys \<Rightarrow> u32 set" where
  "touching s = {f. \<exists>i. sys_pcs s i = Touching f}"

definition in_flight :: "fc_sys \<Rightarrow> nat set" where
  "in_flight s = {i. sys_pcs s i \<noteq> Idle}"

definition entries_ok :: "fs \<Rightarrow> path \<Rightarrow> file_cache \<Rightarrow> bool" where
  "entries_ok F dir c \<longleftrightarrow> (\<forall>f bf. map_of (fc_map c) f = Some bf \<longrightarrow> blk_open F (blk_path dir f) f = Inr bf)"

definition fc_inv :: "fs \<Rightarrow> path \<Rightarrow> fc_sys \<Rightarrow> bool" where
  "fc_inv F dir s \<longleftrightarrow> fc_shape (sys_cache s) \<and> finite (in_flight s) \<and> entries_ok F dir (sys_cache s)
     \<and> dom (map_of (fc_map (sys_cache s))) \<subseteq> set (fc_lru (sys_cache s)) \<union> touching s"

lemma touch_entries: "fc_shape c \<Longrightarrow> entries_ok F dir c \<Longrightarrow> entries_ok F dir (touch f c)"
proof -
  assume sh: "fc_shape c" and ok: "entries_ok F dir c"
  define lru where "lru = (if f \<in> set (fc_lru c) then remove1 f (fc_lru c) else fc_lru c) @ [f]"
  have d: "distinct lru" using sh by (auto simp: lru_def fc_shape_def)
  obtain lru' m' where e: "evict_files f lru (fc_map c) = (lru', m')" by (cases "evict_files f lru (fc_map c)")
  then have "fc_map (touch f c) = m'" by (simp add: touch_def lru_def Let_def)
  then show ?thesis
    using ok evict_files_map [OF e d] by (auto simp: entries_ok_def restrict_map_def split: if_splits)
qed

lemma in_flight_upd: "in_flight (s\<lparr>sys_pcs := (sys_pcs s)(i := pc)\<rparr>) \<subseteq> insert i (in_flight s)"
  by (auto simp: in_flight_def)

lemma fc_step_inv: "fc_step F dir s t \<Longrightarrow> fc_inv F dir s \<Longrightarrow> fc_inv F dir t"
proof (induction rule: fc_step.induct)
  case (touches s i f)
  let ?c = "sys_cache s" and ?t = "s\<lparr>sys_cache := touch f (sys_cache s), sys_pcs := (sys_pcs s)(i := Idle)\<rparr>"
  have sh: "fc_shape ?c" and ok: "entries_ok F dir ?c" and fin: "finite (in_flight s)"
    and dm: "dom (map_of (fc_map ?c)) \<subseteq> set (fc_lru ?c) \<union> touching s"
    using touches(2) by (auto simp: fc_inv_def)
  note ts = touch_shape [OF sh, of f]
  have "dom (map_of (fc_map (touch f ?c))) \<subseteq> set (fc_lru (touch f ?c)) \<union> touching ?t"
  proof
    fix g
    assume g: "g \<in> dom (map_of (fc_map (touch f ?c)))"
    show "g \<in> set (fc_lru (touch f ?c)) \<union> touching ?t"
    proof (cases "g \<in> insert f (set (fc_lru ?c))")
      case True
      then show ?thesis using g ts(4) by blast
    next
      case False
      then have "g \<in> touching s" using g ts(3) dm by blast
      then obtain j where "sys_pcs s j = Touching g" by (auto simp: touching_def)
      moreover have "j \<noteq> i" using False touches(1) calculation by auto
      ultimately show ?thesis by (auto simp: touching_def)
    qed
  qed
  moreover have "finite (in_flight ?t)"
    by (rule finite_subset [OF _ fin]) (auto simp: in_flight_def)
  ultimately show ?case using ts(1) touch_entries [OF sh ok] by (simp add: fc_inv_def)
next
  case (open_inserts s i f bf)
  let ?t = "s\<lparr>sys_cache := insert_file f bf (sys_cache s), sys_pcs := (sys_pcs s)(i := Touching f)\<rparr>"
  have "touching s \<union> {f} \<subseteq> touching ?t"
    using open_inserts(1) by (auto simp: touching_def) (metis worker_pc.distinct(5))
  moreover have "finite (in_flight ?t)"
    by (rule finite_subset [of _ "insert i (in_flight s)"])
      (use open_inserts(3) in \<open>auto simp: in_flight_def fc_inv_def\<close>)
  ultimately show ?case
    using open_inserts by (auto simp: fc_inv_def entries_ok_def insert_file_map fc_shape_def)
next
  case (lookup_hit s i f bf)
  have "touching s \<subseteq> touching (s\<lparr>sys_pcs := (sys_pcs s)(i := Touching f)\<rparr>)"
    using lookup_hit(1) by (auto simp: touching_def) (metis worker_pc.distinct(3))
  moreover have "finite (in_flight (s\<lparr>sys_pcs := (sys_pcs s)(i := Touching f)\<rparr>))"
    by (rule finite_subset [OF in_flight_upd]) (use lookup_hit(3) in \<open>simp add: fc_inv_def\<close>)
  ultimately show ?case using lookup_hit(3) by (auto simp: fc_inv_def)
next
  case (lookup_miss s i f)
  have "touching s \<subseteq> touching (s\<lparr>sys_pcs := (sys_pcs s)(i := Opening f)\<rparr>)"
    using lookup_miss(1) by (auto simp: touching_def) (metis worker_pc.distinct(3))
  moreover have "finite (in_flight (s\<lparr>sys_pcs := (sys_pcs s)(i := Opening f)\<rparr>))"
    by (rule finite_subset [OF in_flight_upd]) (use lookup_miss(3) in \<open>simp add: fc_inv_def\<close>)
  ultimately show ?case using lookup_miss(3) by (auto simp: fc_inv_def)
next
  case (open_fails s i f e)
  have "touching s \<subseteq> touching (s\<lparr>sys_pcs := (sys_pcs s)(i := Idle)\<rparr>)"
    using open_fails(1) by (auto simp: touching_def) (metis worker_pc.distinct(5))
  moreover have "finite (in_flight (s\<lparr>sys_pcs := (sys_pcs s)(i := Idle)\<rparr>))"
    by (rule finite_subset [OF in_flight_upd]) (use open_fails(3) in \<open>simp add: fc_inv_def\<close>)
  ultimately show ?case using open_fails(3) by (auto simp: fc_inv_def)
qed

lemma fc_init_inv: "fc_inv F dir fc_init"
  by (simp add: fc_inv_def fc_init_def file_cache_new_def fc_shape_def in_flight_def entries_ok_def)

lemma fc_reachable_inv: "fc_reachable F dir s \<Longrightarrow> fc_inv F dir s"
  by (induction rule: fc_reachable.induct) (auto intro: fc_init_inv fc_step_inv)

lemma touching_card:
  assumes "finite (in_flight s)"
  shows "finite (touching s) \<and> card (touching s) \<le> card (in_flight s)"
proof -
  have "touching s \<subseteq> (\<lambda>i. case sys_pcs s i of Touching f \<Rightarrow> f | _ \<Rightarrow> 0) ` in_flight s"
  proof
    fix f
    assume "f \<in> touching s"
    then obtain i where "sys_pcs s i = Touching f" by (auto simp: touching_def)
    then show "f \<in> (\<lambda>i. case sys_pcs s i of Touching f \<Rightarrow> f | _ \<Rightarrow> 0) ` in_flight s"
      by (intro image_eqI [of _ _ i]) (simp_all add: in_flight_def)
  qed
  then show ?thesis
    using assms by (meson card_image_le card_mono finite_imageI finite_subset order_trans)
qed

lemma inv_resident:
  assumes "fc_inv F dir s"
  shows "resident (sys_cache s) \<le> MAX_CACHED_FILES + card (in_flight s)"
proof -
  let ?c = "sys_cache s"
  have fin: "finite (in_flight s)" and sub: "dom (map_of (fc_map ?c)) \<subseteq> set (fc_lru ?c) \<union> touching s"
    and len: "length (fc_lru ?c) \<le> MAX_CACHED_FILES"
    using assms by (auto simp: fc_inv_def fc_shape_def)
  note tc = touching_card [OF fin]
  have "resident ?c \<le> card (set (fc_lru ?c) \<union> touching s)"
    unfolding resident_def by (rule card_mono) (use tc sub in auto)
  also have "\<dots> \<le> card (set (fc_lru ?c)) + card (touching s)" by (rule card_Un_le)
  also have "\<dots> \<le> MAX_CACHED_FILES + card (in_flight s)"
    using tc len card_length [of "fc_lru ?c"] by linarith
  finally show ?thesis .
qed

section \<open>Calls without interference\<close>

definition quiet :: "fs \<Rightarrow> path \<Rightarrow> file_cache \<Rightarrow> bool" where
  "quiet F dir c \<longleftrightarrow> fc_shape c \<and> entries_ok F dir c \<and> dom (map_of (fc_map c)) \<subseteq> set (fc_lru c)"

text \<open>Reading a block without a cache.\<close>

definition read_direct :: "fs \<Rightarrow> path \<Rightarrow> block_location \<Rightarrow> blk_error + bytes" where
  "read_direct F dir loc =
    res_bind (blk_open F (blk_path dir (l_file_id loc)) (l_file_id loc)) (\<lambda>f. block_bytes f loc)"

lemma touch_quiet:
  assumes "fc_shape c" "entries_ok F dir c" "dom (map_of (fc_map c)) \<subseteq> insert f (set (fc_lru c))"
  shows "quiet F dir (touch f c)"
  using touch_shape [OF assms(1), of f] touch_entries [OF assms(1,2), of f] assms(3)
  unfolding quiet_def by blast

lemma cache_block_bytes_direct:
  assumes "quiet F dir c"
  shows "snd (cache_block_bytes F dir loc c) = read_direct F dir loc"
    and "quiet F dir (fst (cache_block_bytes F dir loc c))"
proof -
  let ?f = "l_file_id loc"
  have sh: "fc_shape c" and ok: "entries_ok F dir c" and dm: "dom (map_of (fc_map c)) \<subseteq> set (fc_lru c)"
    using assms by (auto simp: quiet_def)
  have "snd (cache_block_bytes F dir loc c) = read_direct F dir loc
    \<and> quiet F dir (fst (cache_block_bytes F dir loc c))"
  proof (cases "map_of (fc_map c) ?f")
    case (Some bf)
    then have "blk_open F (blk_path dir ?f) ?f = Inr bf" using ok by (simp add: entries_ok_def)
    moreover have "quiet F dir (touch ?f c)" by (rule touch_quiet [OF sh ok]) (use dm in blast)
    ultimately show ?thesis by (simp add: cache_block_bytes_def read_direct_def Some)
  next
    case None
    show ?thesis
    proof (cases "blk_open F (blk_path dir ?f) ?f")
      case (Inl e)
      then show ?thesis using None assms by (simp add: cache_block_bytes_def read_direct_def)
    next
      case (Inr bf)
      have "quiet F dir (touch ?f (insert_file ?f bf c))"
        by (rule touch_quiet)
          (use sh ok dm Inr in \<open>auto simp: fc_shape_def entries_ok_def insert_file_map\<close>)
      then show ?thesis using Inr None by (simp add: cache_block_bytes_def read_direct_def Let_def)
    qed
  qed
  then show "snd (cache_block_bytes F dir loc c) = read_direct F dir loc"
    and "quiet F dir (fst (cache_block_bytes F dir loc c))" by blast+
qed

fun cache_reads :: "fs \<Rightarrow> path \<Rightarrow> block_location list \<Rightarrow> file_cache \<Rightarrow> file_cache \<times> (blk_error + bytes) list" where
  "cache_reads F dir [] c = (c, [])"
| "cache_reads F dir (l # ls) c =
    (case cache_block_bytes F dir l c of (c1, r) \<Rightarrow>
     case cache_reads F dir ls c1 of (c2, rs) \<Rightarrow> (c2, r # rs))"

lemma cache_reads_direct:
  "quiet F dir c \<Longrightarrow> snd (cache_reads F dir ls c) = map (read_direct F dir) ls
    \<and> quiet F dir (fst (cache_reads F dir ls c))"
proof (induction ls arbitrary: c)
  case Nil
  then show ?case by simp
next
  case (Cons l ls)
  obtain c1 r where c1: "cache_block_bytes F dir l c = (c1, r)" by fastforce
  obtain c2 rs where c2: "cache_reads F dir ls c1 = (c2, rs)" by fastforce
  have "r = read_direct F dir l" "quiet F dir c1"
    using cache_block_bytes_direct [OF Cons.prems, of l] by (simp_all add: c1)
  then show ?case using Cons.IH [of c1] by (simp add: c1 c2)
qed

lemma quiet_resident: "quiet F dir c \<Longrightarrow> resident c \<le> MAX_CACHED_FILES"
proof -
  assume "quiet F dir c"
  then have "dom (map_of (fc_map c)) \<subseteq> set (fc_lru c)" "length (fc_lru c) \<le> MAX_CACHED_FILES"
    by (auto simp: quiet_def fc_shape_def)
  then show ?thesis
    unfolding resident_def by (meson List.finite_set card_length card_mono order_trans)
qed

lemma quiet_new: "quiet F dir file_cache_new"
  by (simp add: quiet_def fc_shape_def file_cache_new_def entries_ok_def)

text \<open>One worker's call is a run of the step relation, so calls reach reachable states.\<close>

lemma call_reachable:
  assumes "fc_reachable F dir s" "sys_pcs s i = Idle"
  shows "fc_reachable F dir (s\<lparr>sys_cache := fst (cache_block_bytes F dir loc (sys_cache s))\<rparr>)"
proof -
  let ?f = "l_file_id loc" and ?c = "sys_cache s"
  have idle: "s\<lparr>sys_cache := c, sys_pcs := (sys_pcs s)(i := Idle)\<rparr> = s\<lparr>sys_cache := c\<rparr>" for c
    using assms(2) by (simp add: fun_upd_idem)
  show ?thesis
  proof (cases "map_of (fc_map ?c) ?f")
    case (Some bf)
    have 1: "fc_reachable F dir (s\<lparr>sys_pcs := (sys_pcs s)(i := Touching ?f)\<rparr>)"
      by (rule fc_next [OF assms(1) lookup_hit [OF assms(2) Some]])
    have "fc_reachable F dir (s\<lparr>sys_cache := touch ?f ?c, sys_pcs := (sys_pcs s)(i := Idle)\<rparr>)"
      using fc_next [OF 1 touches [of _ i ?f]] by simp
    then show ?thesis by (simp add: cache_block_bytes_def Some idle del: fun_upd_apply)
  next
    case None
    have 1: "fc_reachable F dir (s\<lparr>sys_pcs := (sys_pcs s)(i := Opening ?f)\<rparr>)"
      by (rule fc_next [OF assms(1) lookup_miss [OF assms(2) None]])
    show ?thesis
    proof (cases "blk_open F (blk_path dir ?f) ?f")
      case (Inl e)
      then show ?thesis using assms(1) None by (simp add: cache_block_bytes_def)
    next
      case (Inr bf)
      have 2: "fc_reachable F dir (s\<lparr>sys_cache := insert_file ?f bf ?c, sys_pcs := (sys_pcs s)(i := Touching ?f)\<rparr>)"
        using fc_next [OF 1 open_inserts [OF _ Inr, of _ i]] by simp
      have "fc_reachable F dir (s\<lparr>sys_cache := touch ?f (insert_file ?f bf ?c), sys_pcs := (sys_pcs s)(i := Idle)\<rparr>)"
        using fc_next [OF 2 touches [of _ i ?f]] by simp
      then show ?thesis by (simp add: cache_block_bytes_def None Inr idle Let_def del: fun_upd_apply)
    qed
  qed
qed

section \<open>Reaching the bound\<close>

definition empty_files :: fs where
  "empty_files = \<lparr>fs_read = (\<lambda>p. Inl ''not found''), fs_mmap = (\<lambda>p. Inr []), fs_read_dir = (\<lambda>p. Inr [])\<rparr>"

lemma open_empty: "\<exists>bf. blk_open empty_files p f = Inr bf"
  by (simp add: blk_open_def empty_files_def Let_def)

definition loc_in :: "nat \<Rightarrow> block_location" where
  "loc_in f = \<lparr>l_file_id = of_nat f, l_offset = 0, l_record_len = 88\<rparr>"

lemma evict_files_none: "length lru \<le> MAX_CACHED_FILES \<Longrightarrow> evict_files f lru m = (lru, m)"
  by (cases lru) auto

lemma of_nat_u32_inj: "inj_on (of_nat :: nat \<Rightarrow> u32) {0..<n}" if "n \<le> 2 ^ 32"
proof (rule inj_onI)
  fix a b
  assume "a \<in> {0..<n}" "b \<in> {0..<n}" "(of_nat a :: u32) = of_nat b"
  moreover have "unat (of_nat a :: u32) = a" "unat (of_nat b :: u32) = b"
    using calculation(1,2) that by (auto intro!: unat_of_nat_less)
  ultimately show "a = b" by metis
qed

lemma fill_cache:
  "n \<le> MAX_CACHED_FILES \<Longrightarrow> \<exists>c. fc_reachable empty_files dir (fc_init\<lparr>sys_cache := c\<rparr>)
    \<and> fc_lru c = map of_nat [0..<n] \<and> dom (map_of (fc_map c)) = of_nat ` {0..<n}"
proof (induction n)
  case 0
  have "fc_init\<lparr>sys_cache := file_cache_new\<rparr> = fc_init" by (simp add: fc_init_def)
  then have "fc_reachable empty_files dir (fc_init\<lparr>sys_cache := file_cache_new\<rparr>)"
    using fc_start by metis
  then show ?case by (intro exI [of _ file_cache_new]) (simp add: file_cache_new_def)
next
  case (Suc n)
  then obtain c where r: "fc_reachable empty_files dir (fc_init\<lparr>sys_cache := c\<rparr>)"
    and l: "fc_lru c = map of_nat [0..<n]" and d: "dom (map_of (fc_map c)) = of_nat ` {0..<n}"
    by auto
  obtain bf where bf: "blk_open empty_files (blk_path dir (of_nat n)) (of_nat n) = Inr bf"
    using open_empty by blast
  have inj: "inj_on (of_nat :: nat \<Rightarrow> u32) {0..<Suc n}"
    using Suc.prems by (intro of_nat_u32_inj) (simp add: MAX_CACHED_FILES_def)
  have new: "(of_nat n :: u32) \<notin> of_nat ` {0..<n}"
  proof
    assume "(of_nat n :: u32) \<in> of_nat ` {0..<n}"
    then obtain k where "k < n" "(of_nat n :: u32) = of_nat k" by auto
    then show False using inj_onD [OF inj, of n k] by simp
  qed
  then have miss: "map_of (fc_map c) (of_nat n) = None" using d by (auto simp: domIff)
  define c' where "c' = fst (cache_block_bytes empty_files dir (loc_in n) c)"
  have c': "c' = touch (of_nat n) (insert_file (of_nat n) bf c)"
    using miss bf by (simp add: c'_def cache_block_bytes_def loc_in_def Let_def)
  have "of_nat n \<notin> set (fc_lru c)" using new by (auto simp: l)
  then have lru: "fc_lru c' = map of_nat [0..<Suc n]" and mp: "fc_map c' = fc_map (insert_file (of_nat n) bf c)"
    using Suc.prems by (simp_all add: c' touch_def l evict_files_none)
  have "fc_reachable empty_files dir (fc_init\<lparr>sys_cache := c'\<rparr>)"
    using call_reachable [OF r, of 0 "loc_in n"] by (simp add: fc_init_def c'_def)
  moreover have "dom (map_of (fc_map c')) = of_nat ` {0..<Suc n}"
    by (simp add: mp insert_file_map d atLeast0_lessThan_Suc)
  ultimately show ?case using lru by blast
qed

lemma overshoot:
  "\<exists>s. fc_reachable empty_files dir s \<and> card (in_flight s) = 1 \<and> resident (sys_cache s) = MAX_CACHED_FILES + 1"
proof -
  obtain c where r: "fc_reachable empty_files dir (fc_init\<lparr>sys_cache := c\<rparr>)"
    and d: "dom (map_of (fc_map c)) = of_nat ` {0..<MAX_CACHED_FILES}"
    using fill_cache [of MAX_CACHED_FILES dir] by auto
  let ?f = "of_nat MAX_CACHED_FILES :: u32"
  have inj: "inj_on (of_nat :: nat \<Rightarrow> u32) {0..<Suc MAX_CACHED_FILES}"
    by (rule of_nat_u32_inj) (simp add: MAX_CACHED_FILES_def)
  have "?f \<notin> of_nat ` {0..<MAX_CACHED_FILES}"
    using inj by (simp add: atLeast0_lessThan_Suc)
  then have miss: "map_of (fc_map c) ?f = None" using d by (auto simp: domIff)
  obtain bf where bf: "blk_open empty_files (blk_path dir ?f) ?f = Inr bf" using open_empty by blast
  let ?s1 = "fc_init\<lparr>sys_cache := c, sys_pcs := (\<lambda>_. Idle)(0 := Opening ?f)\<rparr>"
  let ?s2 = "fc_init\<lparr>sys_cache := insert_file ?f bf c, sys_pcs := (\<lambda>_. Idle)(0 := Touching ?f)\<rparr>"
  have "fc_reachable empty_files dir ?s1"
    using fc_next [OF r lookup_miss [of _ 0 ?f]] miss by (simp add: fc_init_def)
  then have "fc_reachable empty_files dir ?s2"
    using fc_next [OF _ open_inserts [OF _ bf, of ?s1 0]] by (simp add: fc_init_def)
  moreover have "in_flight ?s2 = {0}" by (auto simp: in_flight_def)
  moreover have "dom (map_of (fc_map (insert_file ?f bf c))) = of_nat ` {0..<Suc MAX_CACHED_FILES}"
    by (simp add: insert_file_map d atLeast0_lessThan_Suc)
  then have "resident (insert_file ?f bf c) = Suc MAX_CACHED_FILES"
    using card_image [OF inj] by (simp add: resident_def)
  ultimately show ?thesis by (intro exI [of _ ?s2]) simp
qed

section \<open>Properties\<close>

text \<open>C36. The file cache under any interleaving of any number of workers: the files resident at any
  moment number at most \<open>MAX_CACHED_FILES\<close> plus the calls in flight, so at most
  \<open>MAX_CACHED_FILES\<close> when no call is running; every cached entry is the file \<open>blk_open\<close> returns
  for its number. The count does exceed \<open>MAX_CACHED_FILES\<close>: a state with 17 resident files and
  one call in flight is reachable.\<close>
theorem file_cache_bounded:
  assumes "fc_reachable F dir s"
  shows "resident (sys_cache s) \<le> MAX_CACHED_FILES + card (in_flight s)
    \<and> entries_ok F dir (sys_cache s)
    \<and> (\<exists>t. fc_reachable empty_files dir t \<and> card (in_flight t) = 1 \<and> resident (sys_cache t) = 17)"
proof -
  have "fc_inv F dir s" by (rule fc_reachable_inv [OF assms])
  then show ?thesis
    using inv_resident [of F dir s] overshoot [of dir] by (simp add: fc_inv_def MAX_CACHED_FILES_def)
qed

theorem file_cache_bounded_witness:
  "\<exists>s. fc_reachable empty_files [''blocks''] s \<and> resident (sys_cache s) = 16
     \<and> resident (sys_cache s) \<le> MAX_CACHED_FILES + card (in_flight s)"
proof -
  obtain c where r: "fc_reachable empty_files [''blocks''] (fc_init\<lparr>sys_cache := c\<rparr>)"
    and d: "dom (map_of (fc_map c)) = of_nat ` {0..<MAX_CACHED_FILES}"
    using fill_cache [of MAX_CACHED_FILES "[''blocks'']"] by auto
  have "inj_on (of_nat :: nat \<Rightarrow> u32) {0..<MAX_CACHED_FILES}"
    by (rule of_nat_u32_inj) (simp add: MAX_CACHED_FILES_def)
  then have "resident c = 16" by (simp add: resident_def d card_image MAX_CACHED_FILES_def)
  then show ?thesis
    using file_cache_bounded [OF r] r by (intro exI [of _ "fc_init\<lparr>sys_cache := c\<rparr>"]) simp
qed

text \<open>The file cache is transparent: any sequence of reads returns, block by block, what opening
  the file anew and reading the location returns, errors included, and leaves at most
  \<open>MAX_CACHED_FILES\<close> files resident.\<close>
theorem file_cache_transparent:
  "snd (cache_reads F dir locs file_cache_new) = map (read_direct F dir) locs
    \<and> resident (fst (cache_reads F dir locs file_cache_new)) \<le> MAX_CACHED_FILES"
  using cache_reads_direct [OF quiet_new, of F dir locs] quiet_resident by blast

end
