(* ===== verification/Cli_Reorder.thy ===== *)
theory Cli_Reorder
  imports Prelude
begin

text \<open>
  The reorder buffer that the ordered consumers of \<open>bidx-cli\<close> share: \<open>consume_ordered\<close> of
  \<open>pipeline.rs\<close> and \<open>bench_consume\<close> of \<open>bench/mod.rs\<close> are two copies of one loop around different
  bodies. The interface \<open>reorder\<close> states what the loop of a consumer does with a message, and from it
  follows, once for both, that the order in which the blocks arrive does not matter: the run ends as if the
  blocks had been processed one after another in height order.
\<close>

section \<open>Reference: one block after another\<close>

text \<open>The body of a loop returns \<open>True\<close> when the whole run has returned.\<close>

fun ref_run :: "('b \<Rightarrow> 'c \<Rightarrow> ('c, 'e, bool) io) \<Rightarrow> 'b list \<Rightarrow> 'c \<Rightarrow> ('c, 'e, unit) io" where
  "ref_run body [] c = (c, Inr ())"
| "ref_run body (b # bs) c =
    io_bind (body b c) (\<lambda>c returned. if returned then (c, Inr ()) else ref_run body bs c)"

section \<open>Heights of a run\<close>

text \<open>The heights of a run do not wrap.\<close>

definition heights_ok :: "u32 \<Rightarrow> u32 \<Rightarrow> nat \<Rightarrow> bool" where
  "heights_ok end_h start n \<longleftrightarrow> unat start + n = unat end_h"

lemma unat_height:
  assumes "heights_ok end_h start n" "i \<le> n"
  shows "unat (start + of_nat i) = unat start + i"
proof -
  have "unat end_h < 2 ^ 32" using unsigned_less [of end_h] by simp
  then have "unat start + i < 2 ^ 32" using assms by (simp add: heights_ok_def)
  then show ?thesis by (simp add: unat_word_ariths unat_of_nat_less)
qed

lemma height_inject:
  assumes "heights_ok end_h start n" "i \<le> n" "j \<le> n"
  shows "start + of_nat i = start + of_nat j \<longleftrightarrow> i = j"
  using unat_height [OF assms(1,2)] unat_height [OF assms(1,3)] by (metis add_left_cancel)

lemma height_lt_end:
  assumes "heights_ok end_h start n" "i \<le> n"
  shows "start + of_nat i < end_h \<longleftrightarrow> i < n"
  using unat_height [OF assms] assms(1) unfolding word_less_nat_alt heights_ok_def by linarith

section \<open>The interface\<close>

text \<open>
  A consumer state has a \<open>core\<close>, on which \<open>body\<close> works, and a \<open>buffer\<close>; \<open>ready\<close> states are those in
  which a message is handled by buffering it and draining. \<open>loop\<close> is the whole receive loop on a list
  of blocks with their heights.
\<close>

locale reorder =
  fixes body :: "'b \<Rightarrow> 'c \<Rightarrow> ('c, 'e, bool) io"
    and next_h :: "'c \<Rightarrow> u32" and end_h :: u32
    and core :: "'s \<Rightarrow> 'c" and buffer :: "'s \<Rightarrow> u32 \<rightharpoonup> 'b" and ready :: "'s \<Rightarrow> bool"
    and put :: "u32 \<Rightarrow> 'b \<Rightarrow> 's \<Rightarrow> 's" and drain :: "'s \<Rightarrow> ('s, 'e, bool) io"
    and loop :: "(u32 \<times> 'b) list \<Rightarrow> 's \<Rightarrow> ('s, 'e, unit) io"
  assumes body_next: "body b c = (c', Inr False) \<Longrightarrow> next_h c' = next_h c + 1 \<and> next_h c' < end_h"
    and buffer_finite: "finite (dom (buffer s))"
    and put_core: "core (put h b s) = core s"
    and put_buffer: "buffer (put h b s) = (buffer s)(h \<mapsto> b)"
    and put_ready: "ready s \<Longrightarrow> ready (put h b s)"
    and drain_stop: "buffer s (next_h (core s)) = None \<Longrightarrow> drain s = (s, Inr False)"
    and drain_step: "buffer s (next_h (core s)) = Some b \<Longrightarrow> body b (core s) = (c, r) \<Longrightarrow>
      \<exists>s'. core s' = c \<and> buffer s' = (buffer s)(next_h (core s) := None) \<and> (ready s \<longrightarrow> ready s')
        \<and> drain s = (if r = Inr False then drain s' else (s', r))"
    and loop_step: "ready s \<Longrightarrow> loop ((h, b) # xs) s =
      io_bind (drain (put h b s)) (\<lambda>s returned. if returned then (s, Inr ()) else loop xs s)"
begin

text \<open>
  The blocks of a run are \<open>bs\<close>, block \<open>i\<close> at height \<open>start + i\<close>. \<open>at_block start bs c0 D k s\<close>: the
  blocks with the indices \<open>D\<close> have arrived, the first \<open>k\<close> have been processed in order from \<open>c0\<close>, and
  the buffer holds the arrived ones from \<open>k\<close> on.
\<close>

definition at_block :: "u32 \<Rightarrow> 'b list \<Rightarrow> 'c \<Rightarrow> nat set \<Rightarrow> nat \<Rightarrow> 's \<Rightarrow> bool" where
  "at_block start bs c0 D k s \<longleftrightarrow> k < length bs \<and> {0..<k} \<subseteq> D \<and> ready s
     \<and> next_h (core s) = start + of_nat k
     \<and> ref_run body bs c0 = ref_run body (drop k bs) (core s)
     \<and> (\<forall>i. k \<le> i \<longrightarrow> i < length bs \<longrightarrow>
          buffer s (start + of_nat i) = (if i \<in> D then Some (bs ! i) else None))"

text \<open>What the drain leaves: the run has ended with the reference's result, or the drain stopped at a
  block that has not arrived.\<close>

definition settled :: "u32 \<Rightarrow> 'b list \<Rightarrow> 'c \<Rightarrow> nat set \<Rightarrow> ('s, 'e, bool) io \<Rightarrow> bool" where
  "settled start bs c0 D m \<longleftrightarrow>
    (case m of
       (s, Inl e) \<Rightarrow> ref_run body bs c0 = (core s, Inl e)
     | (s, Inr True) \<Rightarrow> ref_run body bs c0 = (core s, Inr ())
     | (s, Inr False) \<Rightarrow> \<exists>k. at_block start bs c0 D k s \<and> k \<notin> D)"

lemma drain_settled:
  "heights_ok end_h start (length bs) \<Longrightarrow> at_block start bs c0 D k s \<Longrightarrow>
    settled start bs c0 D (drain s)"
proof (induction "card (dom (buffer s))" arbitrary: s k rule: less_induct)
  case less
  let ?h = "next_h (core s)"
  have k: "k < length bs" and nx: "?h = start + of_nat k" and rd: "ready s"
    and ref: "ref_run body bs c0 = ref_run body (drop k bs) (core s)"
    and buf: "\<And>i. k \<le> i \<Longrightarrow> i < length bs \<Longrightarrow>
      buffer s (start + of_nat i) = (if i \<in> D then Some (bs ! i) else None)"
    using less.prems by (auto simp: at_block_def)
  show ?case
  proof (cases "k \<in> D")
    case False
    then have "drain s = (s, Inr False)" using buf [OF _ k] by (intro drain_stop) (simp add: nx)
    then show ?thesis using less.prems False by (auto simp: settled_def)
  next
    case True
    then have got: "buffer s ?h = Some (bs ! k)" using buf [OF _ k] nx by simp
    have drop: "drop k bs = bs ! k # drop (Suc k) bs" using k by (simp add: Cons_nth_drop_Suc)
    obtain c r where p: "body (bs ! k) (core s) = (c, r)" by fastforce
    obtain s' where s': "core s' = c" "buffer s' = (buffer s)(?h := None)" "ready s'"
      and dr: "drain s = (if r = Inr False then drain s' else (s', r))"
      using drain_step [OF got p] rd by blast
    show ?thesis
    proof (cases "r = Inr False")
      case False
      then show ?thesis
        using ref p dr s'(1) by (auto simp: settled_def drop split: sum.splits bool.splits)
    next
      case go: True
      have pn: "next_h c = start + of_nat (Suc k)" "next_h c < end_h"
        using body_next [of "bs ! k" "core s" c] p go nx by (auto simp: algebra_simps)
      then have k': "Suc k < length bs" using height_lt_end [OF less.prems(1), of "Suc k"] k by simp
      have "at_block start bs c0 D (Suc k) s'"
        using less.prems(2) k' pn(1) ref p go True buf height_inject [OF less.prems(1), of _ k] k s'
        by (auto simp: at_block_def drop nx less_Suc_eq)
      moreover have "card (dom (buffer s')) < card (dom (buffer s))"
        using got s'(2) buffer_finite [of s] by (auto intro!: psubset_card_mono)
      ultimately show ?thesis using less.hyps less.prems(1) dr go by simp
    qed
  qed
qed

lemma put_at_block:
  assumes "heights_ok end_h start (length bs)" "at_block start bs c0 D k s" "i < length bs"
  shows "at_block start bs c0 (insert i D) k (put (start + of_nat i) (bs ! i) s)"
  using assms(2,3) height_inject [OF assms(1), of _ i]
  by (auto simp: at_block_def put_core put_buffer put_ready)

lemma loop_any_order:
  assumes "heights_ok end_h start (length bs)"
  shows "at_block start bs c0 D k s \<Longrightarrow> k \<notin> D \<Longrightarrow> {0..<length bs} \<subseteq> D \<union> set js \<Longrightarrow>
    \<forall>i\<in>set js. i < length bs \<Longrightarrow>
    (case loop (map (\<lambda>i. (start + of_nat i, bs ! i)) js) s of (s', r) \<Rightarrow> (core s', r)) = ref_run body bs c0"
proof (induction js arbitrary: D k s)
  case Nil
  then have "k \<in> D" by (auto simp: at_block_def)
  with Nil show ?case by simp
next
  case (Cons i js)
  let ?m = "drain (put (start + of_nat i) (bs ! i) s)"
  have st: "settled start bs c0 (insert i D) ?m"
    using drain_settled [OF assms put_at_block [OF assms Cons.prems(1)]] Cons.prems(4) by simp
  have rd: "ready s" using Cons.prems(1) by (simp add: at_block_def)
  obtain s' r where oi: "?m = (s', r)" by fastforce
  consider e where "r = Inl e" | "r = Inr True" | "r = Inr False"
  proof (cases r)
    case (Inr b)
    then show thesis using that by (cases b) auto
  qed (use that in auto)
  then show ?case
  proof cases
    case 3
    then obtain k' where "at_block start bs c0 (insert i D) k' s'" "k' \<notin> insert i D"
      using st oi by (auto simp: settled_def)
    then show ?thesis
      using Cons.IH [of "insert i D" k' s'] Cons.prems(3,4) oi 3 by (auto simp: loop_step [OF rd])
  qed (use st oi in \<open>auto simp: settled_def loop_step [OF rd]\<close>)
qed

text \<open>From a ready state with an empty buffer, any list of messages that delivers each block of the
  run at least once, and nothing else, ends as the reference does.\<close>

lemma loop_delivers:
  assumes "heights_ok end_h start (length bs)" and "bs \<noteq> []"
    and "ready s" and "buffer s = Map.empty" and "next_h (core s) = start"
    and "set items = {(start + of_nat i, bs ! i) | i. i < length bs}"
  shows "(case loop items s of (s', r) \<Rightarrow> (core s', r)) = ref_run body bs (core s)"
proof -
  let ?item = "\<lambda>i. (start + of_nat i, bs ! i)"
  have "\<forall>x\<in>set items. \<exists>i. i < length bs \<and> x = ?item i" using assms(6) by blast
  then obtain f where f: "\<forall>x\<in>set items. f x < length bs \<and> x = ?item (f x)" by metis
  define js where "js = map f items"
  have items: "items = map ?item js" using f by (simp add: js_def map_idI)
  have js: "\<forall>i\<in>set js. i < length bs" using f by (simp add: js_def)
  have "i \<in> set js" if i: "i < length bs" for i
  proof -
    have "?item i \<in> set items" using assms(6) i by blast
    then obtain j where "j \<in> set js" "?item i = ?item j" unfolding items by auto
    then show ?thesis using height_inject [OF assms(1), of i j] i js by auto
  qed
  then have "{0..<length bs} \<subseteq> {} \<union> set js" by auto
  moreover have "at_block start bs (core s) {} 0 s" using assms(2-5) by (auto simp: at_block_def)
  ultimately show ?thesis unfolding items using loop_any_order [OF assms(1)] js by blast
qed

end

end
