(* ===== verification/Cli_Pipeline.thy ===== *)
theory Cli_Pipeline
  imports Store_Correct Store_Sink Parser_Tx Cli_DiskGuard Cli_Reorder
begin

text \<open>
  The ordered consumer of \<open>bidx-cli/src/pipeline.rs\<close>. Parse workers send one message per height in
  any order; \<open>consume_ordered\<close> buffers what arrives early, applies the blocks to the UTXO store in
  height order, writes their rows to the Parquet sink and rotates the part files.

  The state is split: \<open>core\<close> is what the application of a block reads and writes (the next height,
  the sink and its part number, the store, the counters, the recorder with its host, the closed
  files), \<open>consumer\<close> adds the reorder buffer, the skipped heights and the shared depth counter. The
  environment \<open>pipe_env\<close> holds the parameters of the components below and the run's configuration;
  \<open>pe_watchdog\<close> says at which heights the memory watchdog is found tripped. The channel is the list of the
  messages received before it closes.
\<close>

section \<open>State\<close>

definition REORDER_HIGH :: nat where
  "REORDER_HIGH = 32"

definition CHANNEL_DEPTH :: nat where
  "CHANNEL_DEPTH = 512"

datatype work_item = Block u32 full_block | Skipped u32

datatype pipe_error =
    PipeUtxo utxo_error
  | PipeSink sink_error
  | PipeGuard guard_error
  | WatchdogTripped
  | ClosedEarly u32 u32
  | FeeIndexPanic nat
  | DivideByZero

record ('db, 'w, 'fl, 'h) pipe_env =
  pe_rocks :: "'db rocks"
  pe_iter :: hm_iter
  pe_arrow :: "('w, 'fl) arrow"
  pe_host :: "'h host"
  pe_watchdog :: "(u32 \<Rightarrow> bool) option"
  pe_out_dir :: path
  pe_blocks_per_part :: u32
  pe_end :: u32

record ('db, 'w, 'fl, 'h) core =
  k_next :: u32
  k_part :: u32
  k_sink :: "'w parquet_sink"
  k_utxo :: "'db utxo_store"
  k_missing :: u64
  k_progress :: u64
  k_next_height :: u32
  k_host :: "'h \<times> disk_recorder"
  k_files :: "(u32 \<times> 'fl sink_files) list"

record ('db, 'w, 'fl, 'h) consumer =
  cs_buffer :: "(u32 \<times> full_block) list"
  cs_skipped :: "u32 list"
  cs_depth :: nat
  cs_core :: "('db, 'w, 'fl, 'h) core"

section \<open>Applying one block\<close>

text \<open>The per-transaction coinbase flags and the fees written back into the rows.\<close>

definition flag_input :: "input_row \<Rightarrow> bool list \<Rightarrow> bool list" where
  "flag_input inp flags =
    (let i = unat (i_tx_index inp) in
     if i < length flags then flags[i := (flags ! i \<or> i_is_coinbase inp)] else flags)"

definition coinbase_flags :: "full_block \<Rightarrow> bool list" where
  "coinbase_flags b = fold flag_input (fb_inputs b) (replicate (length (fb_txs b)) False)"

fun enrich_txs :: "bool list \<Rightarrow> u64 list \<Rightarrow> nat \<Rightarrow> tx_row list \<Rightarrow> u64 \<Rightarrow> pipe_error + tx_row list \<times> u64" where
  "enrich_txs flags fees i [] total_fee = Inr ([], total_fee)"
| "enrich_txs flags fees i (tx # txs) total_fee =
    (if i < length fees then
       let tx' = tx\<lparr>t_fee := fees ! i\<rparr>;
           coinbase = (if i < length flags then flags ! i else False);
           total_fee' = (if \<not> coinbase then saturating_add total_fee (fees ! i) else total_fee)
       in res_bind (enrich_txs flags fees (i + 1) txs total_fee') (\<lambda>(rest, t). Inr (tx' # rest, t))
     else Inl (FeeIndexPanic i))"

definition enrich_block :: "full_block \<Rightarrow> u64 list \<Rightarrow> pipe_error + full_block" where
  "enrich_block b fees =
    res_bind (enrich_txs (coinbase_flags b) fees 0 (fb_txs b) 0) (\<lambda>(txs, total_fee).
      Inr (b\<lparr>fb_txs := txs, fb_block_row := (fb_block_row b)\<lparr>b_total_fee := total_fee\<rparr>\<rparr>))"

definition push_rows ::
    "('w, 'fl) arrow \<Rightarrow> full_block \<Rightarrow> spend_row list \<Rightarrow> 'w parquet_sink \<Rightarrow> sink_error + 'w parquet_sink" where
  "push_rows A b spends sink =
    res_bind (push_block A (fb_block_row b) sink) (\<lambda>sink.
    res_bind (res_fold (push_tx A) (fb_txs b) sink) (\<lambda>sink.
    res_bind (res_fold (push_input A) (fb_inputs b) sink) (\<lambda>sink.
    res_bind (res_fold (push_output A) (fb_outputs b) sink) (\<lambda>sink.
      res_fold (push_spend A) spends sink))))"

definition finish_sink ::
    "('db, 'w, 'fl, 'h) pipe_env \<Rightarrow> ('db, 'w, 'fl, 'h) core
      \<Rightarrow> (('db, 'w, 'fl, 'h) core, pipe_error, unit) io" where
  "finish_sink E c =
    (case sink_finish (pe_arrow E) (k_sink c) of
       Inl e \<Rightarrow> (c, Inl (PipeSink e))
     | Inr fl \<Rightarrow> (c\<lparr>k_files := k_files c @ [(k_part c, fl)]\<rparr>, Inr ()))"

definition rotate ::
    "('db, 'w, 'fl, 'h) pipe_env \<Rightarrow> ('db, 'w, 'fl, 'h) core
      \<Rightarrow> (('db, 'w, 'fl, 'h) core, pipe_error, unit) io" where
  "rotate E c =
    (let wanted_part = k_next c div pe_blocks_per_part E in
     if wanted_part \<noteq> k_part c then
       io_bind (finish_sink E c) (\<lambda>c _.
         case sink_create (pe_arrow E) (pe_out_dir E) wanted_part sink_config_default of
           Inl e \<Rightarrow> (c\<lparr>k_part := wanted_part\<rparr>, Inl (PipeSink e))
         | Inr sink \<Rightarrow> (c\<lparr>k_part := wanted_part, k_sink := sink\<rparr>, Inr ()))
     else (c, Inr ()))"

text \<open>The store update, the enrichment and the rows.\<close>

definition index_block ::
    "('db, 'w, 'fl, 'h) pipe_env \<Rightarrow> full_block \<Rightarrow> ('db, 'w, 'fl, 'h) core
      \<Rightarrow> (('db, 'w, 'fl, 'h) core, pipe_error, unit) io" where
  "index_block E b c =
    (case apply_block (pe_rocks E) (pe_iter E) (k_next c) (fb_txs b) (fb_inputs b) (fb_outputs b) (k_utxo c) of
       Inl e \<Rightarrow> (c, Inl (PipeUtxo e))
     | Inr (res, st) \<Rightarrow>
         let c = c\<lparr>k_utxo := st, k_missing := k_missing c + sr_missing res\<rparr> in
         (case enrich_block b (sr_fees res) of
            Inl e \<Rightarrow> (c, Inl e)
          | Inr b \<Rightarrow>
              (case push_rows (pe_arrow E) b (sr_spends res) (k_sink c) of
                 Inl e \<Rightarrow> (c, Inl (PipeSink e))
               | Inr sink \<Rightarrow> (c\<lparr>k_sink := sink\<rparr>, Inr ()))))"

text \<open>What the end of both loops does: count, record the height, move on.\<close>

definition advance ::
    "('db, 'w, 'fl, 'h) pipe_env \<Rightarrow> ('db, 'w, 'fl, 'h) core
      \<Rightarrow> (('db, 'w, 'fl, 'h) core, pipe_error, unit) io" where
  "advance E c =
    (let c = c\<lparr>k_progress := k_progress c + 1\<rparr> in
     case on_block_applied (pe_host E) (k_next c) (k_host c) of
       (h, Inl e) \<Rightarrow> (c\<lparr>k_host := h\<rparr>, Inl (PipeGuard e))
     | (h, Inr _) \<Rightarrow> (c\<lparr>k_host := h, k_next := k_next c + 1, k_next_height := k_next c + 1\<rparr>, Inr ()))"

definition check_end ::
    "('db, 'w, 'fl, 'h) pipe_env \<Rightarrow> ('db, 'w, 'fl, 'h) core
      \<Rightarrow> (('db, 'w, 'fl, 'h) core, pipe_error, bool) io" where
  "check_end E c =
    (if pe_end E \<le> k_next c then io_bind (finish_sink E c) (\<lambda>c _. (c, Inr True)) else (c, Inr False))"

definition tripped :: "('db, 'w, 'fl, 'h) pipe_env \<Rightarrow> u32 \<Rightarrow> bool" where
  "tripped E h = (case pe_watchdog E of None \<Rightarrow> False | Some w \<Rightarrow> w h)"

definition process ::
    "('db, 'w, 'fl, 'h) pipe_env \<Rightarrow> full_block \<Rightarrow> ('db, 'w, 'fl, 'h) core
      \<Rightarrow> (('db, 'w, 'fl, 'h) core, pipe_error, bool) io" where
  "process E b c =
    (if tripped E (k_next c) then (c, Inl WatchdogTripped)
     else io_bind (rotate E c) (\<lambda>c _.
          io_bind (index_block E b c) (\<lambda>c _.
          io_bind (advance E c) (\<lambda>c _. check_end E c))))"

section \<open>The loops\<close>

function skip_loop ::
    "('db, 'w, 'fl, 'h) pipe_env \<Rightarrow> ('db, 'w, 'fl, 'h) consumer
      \<Rightarrow> (('db, 'w, 'fl, 'h) consumer, pipe_error, bool) io" where
  "skip_loop E s =
    (let next_h = k_next (cs_core s) in
     if next_h \<in> set (cs_skipped s) then
       let s = s\<lparr>cs_skipped := removeAll next_h (cs_skipped s)\<rparr> in
       (case io_bind (advance E (cs_core s)) (\<lambda>c _. check_end E c) of
          (c, Inl e) \<Rightarrow> (s\<lparr>cs_core := c\<rparr>, Inl e)
        | (c, Inr True) \<Rightarrow> (s\<lparr>cs_core := c\<rparr>, Inr True)
        | (c, Inr False) \<Rightarrow> skip_loop E (s\<lparr>cs_core := c\<rparr>))
     else (s, Inr False))"
  by auto
termination
  by (relation "measure (\<lambda>(E, s). length (cs_skipped s))") (auto simp: length_removeAll_less)

lemma length_delete_less: "map_of xs k = Some v \<Longrightarrow> length (AList.delete k xs) < length xs"
proof -
  assume "map_of xs k = Some v"
  then have "(k, v) \<in> set xs" by (rule map_of_SomeD)
  then show ?thesis
    unfolding AList.delete_eq by (intro length_filter_less [of "(k, v)"]) auto
qed

function drain_loop ::
    "('db, 'w, 'fl, 'h) pipe_env \<Rightarrow> ('db, 'w, 'fl, 'h) consumer
      \<Rightarrow> (('db, 'w, 'fl, 'h) consumer, pipe_error, bool) io" where
  "drain_loop E s =
    (let next_h = k_next (cs_core s) in
     case map_of (cs_buffer s) next_h of
       None \<Rightarrow> (s, Inr False)
     | Some b \<Rightarrow>
         let s = s\<lparr>cs_buffer := AList.delete next_h (cs_buffer s),
                   cs_depth := (if tripped E next_h then cs_depth s else cs_depth s - 1)\<rparr> in
         (case process E b (cs_core s) of
            (c, Inl e) \<Rightarrow> (s\<lparr>cs_core := c\<rparr>, Inl e)
          | (c, Inr True) \<Rightarrow> (s\<lparr>cs_core := c\<rparr>, Inr True)
          | (c, Inr False) \<Rightarrow> drain_loop E (s\<lparr>cs_core := c\<rparr>)))"
  by auto
termination
  by (relation "measure (\<lambda>(E, s). length (cs_buffer s))") (auto simp: length_delete_less)

declare skip_loop.simps [simp del]
declare drain_loop.simps [simp del]

fun receive :: "work_item \<Rightarrow> ('db, 'w, 'fl, 'h) consumer \<Rightarrow> ('db, 'w, 'fl, 'h) consumer" where
  "receive (Block h b) s = s\<lparr>cs_buffer := AList.update h b (cs_buffer s), cs_depth := cs_depth s + 1\<rparr>"
| "receive (Skipped h) s = s\<lparr>cs_skipped := List.insert h (cs_skipped s)\<rparr>"

definition on_item ::
    "('db, 'w, 'fl, 'h) pipe_env \<Rightarrow> work_item \<Rightarrow> ('db, 'w, 'fl, 'h) consumer
      \<Rightarrow> (('db, 'w, 'fl, 'h) consumer, pipe_error, bool) io" where
  "on_item E x s =
    io_bind (skip_loop E (receive x s)) (\<lambda>s returned. if returned then (s, Inr True) else drain_loop E s)"

fun consume_loop ::
    "('db, 'w, 'fl, 'h) pipe_env \<Rightarrow> work_item list \<Rightarrow> ('db, 'w, 'fl, 'h) consumer
      \<Rightarrow> (('db, 'w, 'fl, 'h) consumer, pipe_error, unit) io" where
  "consume_loop E [] s =
    (case io_bind (finish_sink E (cs_core s)) (\<lambda>c _.
            if k_next c < pe_end E then (c, Inl (ClosedEarly (k_next c) (pe_end E))) else (c, Inr ())) of
       (c, r) \<Rightarrow> (s\<lparr>cs_core := c\<rparr>, r))"
| "consume_loop E (x # xs) s =
    io_bind (on_item E x s) (\<lambda>s returned. if returned then (s, Inr ()) else consume_loop E xs s)"

text \<open>The start of a run; \<open>Inl\<close> when the first sink cannot be created.\<close>

definition consumer_init ::
    "('db, 'w, 'fl, 'h) pipe_env \<Rightarrow> u32 \<Rightarrow> 'db utxo_store \<Rightarrow> 'h \<times> disk_recorder
      \<Rightarrow> pipe_error + ('db, 'w, 'fl, 'h) consumer" where
  "consumer_init E start st host =
    (if pe_blocks_per_part E = 0 then Inl DivideByZero
     else
       let part_id = start div pe_blocks_per_part E in
       res_bind (map_err PipeSink (sink_create (pe_arrow E) (pe_out_dir E) part_id sink_config_default))
         (\<lambda>sink. Inr \<lparr>cs_buffer = [], cs_skipped = [], cs_depth = 0,
            cs_core = \<lparr>k_next = start, k_part = part_id, k_sink = sink, k_utxo = st, k_missing = 0,
              k_progress = 0, k_next_height = start, k_host = host, k_files = []\<rparr>\<rparr>))"

definition consume_ordered ::
    "('db, 'w, 'fl, 'h) pipe_env \<Rightarrow> u32 \<Rightarrow> work_item list \<Rightarrow> 'db utxo_store \<Rightarrow> 'h \<times> disk_recorder
      \<Rightarrow> pipe_error + (('db, 'w, 'fl, 'h) core, pipe_error, unit) io" where
  "consume_ordered E start items st host =
    res_bind (consumer_init E start st host) (\<lambda>s0.
      case consume_loop E items s0 of (s, r) \<Rightarrow> Inr (cs_core s, r))"

section \<open>Order of arrival\<close>

text \<open>The reference: one block after another.\<close>

abbreviation seq_blocks ::
    "('db, 'w, 'fl, 'h) pipe_env \<Rightarrow> full_block list \<Rightarrow> ('db, 'w, 'fl, 'h) core
      \<Rightarrow> (('db, 'w, 'fl, 'h) core, pipe_error, unit) io" where
  "seq_blocks E \<equiv> ref_run (process E)"

lemma finish_sink_next: "finish_sink E c = (c', r) \<Longrightarrow> k_next c' = k_next c"
  by (auto simp: finish_sink_def split: sum.splits)

lemma rotate_next: "rotate E c = (c', Inr ()) \<Longrightarrow> k_next c' = k_next c"
  by (cases "sink_create (pe_arrow E) (pe_out_dir E) (k_next c div pe_blocks_per_part E) sink_config_default")
    (auto simp: rotate_def Let_def io_bind_Inr_iff dest!: finish_sink_next split: if_splits)

lemma index_block_next: "index_block E b c = (c', Inr ()) \<Longrightarrow> k_next c' = k_next c"
  by (auto simp: index_block_def Let_def split: sum.splits prod.splits)

lemma advance_next: "advance E c = (c', Inr ()) \<Longrightarrow> k_next c' = k_next c + 1"
  by (auto simp: advance_def Let_def split: sum.splits prod.splits)

lemma check_end_False: "check_end E c = (c', Inr False) \<Longrightarrow> c' = c \<and> k_next c < pe_end E"
  by (auto simp: check_end_def io_bind_Inr_iff split: if_splits)

lemma process_next:
  "process E b c = (c', Inr False) \<Longrightarrow> k_next c' = k_next c + 1 \<and> k_next c' < pe_end E"
  by (auto simp: process_def io_bind_Inr_iff split: if_splits
      dest!: check_end_False advance_next index_block_next rotate_next)

lemma skip_none: "cs_skipped s = [] \<Longrightarrow> skip_loop E s = (s, Inr False)"
  by (subst skip_loop.simps) simp

lemma drain_not_next: "map_of (cs_buffer s) (k_next (cs_core s)) = None \<Longrightarrow> drain_loop E s = (s, Inr False)"
  by (subst drain_loop.simps) (simp add: Let_def)

lemma drain_next:
  assumes "map_of (cs_buffer s) (k_next (cs_core s)) = Some b" and "process E b (cs_core s) = (c, r)"
  shows "\<exists>s'. cs_core s' = c \<and> map_of (cs_buffer s') = (map_of (cs_buffer s))(k_next (cs_core s) := None)
    \<and> cs_skipped s' = cs_skipped s \<and> drain_loop E s = (if r = Inr False then drain_loop E s' else (s', r))"
proof -
  let ?s = "s\<lparr>cs_buffer := AList.delete (k_next (cs_core s)) (cs_buffer s),
    cs_depth := (if tripped E (k_next (cs_core s)) then cs_depth s else cs_depth s - 1), cs_core := c\<rparr>"
  have "drain_loop E s = (if r = Inr False then drain_loop E ?s else (?s, r))"
    using assms by (subst drain_loop.simps) (simp add: Let_def split: sum.splits bool.splits)
  then show ?thesis by (intro exI [of _ ?s]) (simp add: delete_conv')
qed

interpretation pipe_order: reorder "process E" k_next "pe_end E" cs_core "\<lambda>s. map_of (cs_buffer s)"
  "\<lambda>s. cs_skipped s = []" "\<lambda>h b. receive (Block h b)" "drain_loop E"
  "\<lambda>items. consume_loop E (map (\<lambda>(h, b). Block h b) items)" for E
proof
  show "map_of (cs_buffer s) (k_next (cs_core s)) = Some b \<Longrightarrow> process E b (cs_core s) = (c, r) \<Longrightarrow>
      \<exists>s'. cs_core s' = c \<and> map_of (cs_buffer s') = (map_of (cs_buffer s))(k_next (cs_core s) := None)
        \<and> (cs_skipped s = [] \<longrightarrow> cs_skipped s' = [])
        \<and> drain_loop E s = (if r = Inr False then drain_loop E s' else (s', r))" for s b c r
    using drain_next [of s b E c r] by auto
qed (use process_next in \<open>simp_all add: drain_not_next update_conv' finite_dom_map_of on_item_def skip_none\<close>)

lemma block_items:
  assumes "set items = {Block (start + of_nat i) (bs ! i) | i. i < length bs}"
  obtains xs where "items = map (\<lambda>(h, b). Block h b) xs"
    and "set xs = {(start + of_nat i, bs ! i) | i. i < length bs}"
proof
  let ?un = "\<lambda>x. case x of Block h b \<Rightarrow> (h, b) | Skipped h \<Rightarrow> (h, undefined)"
  have "\<forall>x\<in>set items. (\<lambda>(h, b). Block h b) (?un x) = x" using assms by auto
  then show "items = map (\<lambda>(h, b). Block h b) (map ?un items)"
    by (simp add: map_idI comp_def)
  show "set (map ?un items) = {(start + of_nat i, bs ! i) | i. i < length bs}"
    unfolding set_map assms by (auto simp: image_iff) force
qed

lemma consume_any_items:
  assumes "unat start + length bs = unat (pe_end E)" and "bs \<noteq> []"
    and "set items = {Block (start + of_nat i) (bs ! i) | i. i < length bs}"
  shows "consume_ordered E start items st host
    = res_bind (consumer_init E start st host) (\<lambda>s0. Inr (seq_blocks E bs (cs_core s0)))"
proof (cases "consumer_init E start st host")
  case (Inl e)
  then show ?thesis by (simp add: consume_ordered_def)
next
  case (Inr s0)
  then have s0: "cs_skipped s0 = []" "map_of (cs_buffer s0) = Map.empty" "k_next (cs_core s0) = start"
    by (auto simp: consumer_init_def res_simps Let_def split: if_splits)
  obtain xs where items: "items = map (\<lambda>(h, b). Block h b) xs"
    and xs: "set xs = {(start + of_nat i, bs ! i) | i. i < length bs}"
    by (rule block_items [OF assms(3)])
  have "heights_ok (pe_end E) start (length bs)" using assms(1) by (simp add: heights_ok_def)
  from pipe_order.loop_delivers [OF this assms(2) s0 xs] show ?thesis
    by (auto simp: consume_ordered_def Inr items split: prod.splits)
qed

section \<open>Properties\<close>

text \<open>C9. Whatever the order in which the parse workers deliver the blocks of a run (and even if some
  arrive more than once), the consumer does exactly what applying them one after another in
  height order does: the same store, the same rows in the same part files, the same recorder
  and counters, and the same result, up to the first error.\<close>
theorem consume_ordered_any_arrival:
  assumes "unat start + length bs = unat (pe_end E)" and "bs \<noteq> []"
    and "set items = {Block (start + of_nat i) (bs ! i) | i. i < length bs}"
  shows "consume_ordered E start items st host
    = res_bind (consumer_init E start st host) (\<lambda>s0. Inr (seq_blocks E bs (cs_core s0)))"
  by (rule consume_any_items [OF assms])

text \<open>A run on the in-memory instances of the components below.\<close>

definition ex_env :: "(db_view, cell list list, cell list list, files) pipe_env" where
  "ex_env = \<lparr>pe_rocks = map_rocks, pe_iter = (\<lambda>m. m), pe_arrow = list_arrow, pe_host = map_host,
     pe_watchdog = None, pe_out_dir = [''out''], pe_blocks_per_part = 1000, pe_end = 2\<rparr>"

definition ex_empty_block :: full_block where
  "ex_empty_block = \<lparr>fb_block_row = ex_block_row, fb_txs = [], fb_inputs = [], fb_outputs = []\<rparr>"

definition ex_store :: "db_view utxo_store" where
  "ex_store = \<lparr>st_db = (\<lambda>_. Map.empty), st_path = [''data'', ''utxo''], st_pending = [], st_recent = None,
     st_undo_enabled = False, st_statistics = False\<rparr>"

definition ex_host :: "files \<times> disk_recorder" where
  "ex_host = (Map.empty, recorder_new map_host Map.empty ex_guard)"

theorem consume_ordered_any_arrival_witness:
  "consume_ordered ex_env 0 [Block 1 ex_empty_block, Block 0 ex_empty_block] ex_store ex_host
    = consume_ordered ex_env 0 [Block 0 ex_empty_block, Block 1 ex_empty_block] ex_store ex_host"
proof -
  let ?bs = "[ex_empty_block, ex_empty_block]"
  have len: "unat (0 :: u32) + length ?bs = unat (pe_end ex_env)" by (simp add: ex_env_def)
  have two: "{Block (0 + of_nat i) (?bs ! i) | i. i < length ?bs} = {Block 0 ex_empty_block, Block 1 ex_empty_block}"
    by (auto simp: less_Suc_eq numeral_2_eq_2 intro: exI [of _ "0 :: nat"] exI [of _ "1 :: nat"])
  show ?thesis
    using consume_ordered_any_arrival [OF len _, of "[Block 1 ex_empty_block, Block 0 ex_empty_block]" ex_store ex_host]
      consume_ordered_any_arrival [OF len _, of "[Block 0 ex_empty_block, Block 1 ex_empty_block]" ex_store ex_host]
    unfolding two by (simp add: insert_commute)
qed

section \<open>Skipped heights\<close>

lemma skip_not_next:
  "k_next (cs_core s) \<notin> set (cs_skipped s) \<Longrightarrow> skip_loop E s = (s, Inr False)"
  by (subst skip_loop.simps) (simp add: Let_def)

text \<open>A skip marker that arrives too early stops the run: let the run end after heights \<open>h\<close>
  (a block) and \<open>h + 1\<close> (an orphan, sent as a skip marker). When the block arrives first the run
  completes. When the marker arrives first, the block is applied but the marker is not looked at
  again before the next message; the channel closes and the consumer fails with
  ``channel closed early'' although every height was delivered.\<close>
theorem skip_marker_order:
  assumes "unat (k_next c) + 2 = unat (pe_end E)"
    and "process E b c = (c1, Inr False)"
    and "io_bind (advance E c1) (\<lambda>c _. check_end E c) = (c2, Inr True)"
    and "finish_sink E c1 = (c3, Inr ())"
    and "s = \<lparr>cs_buffer = [], cs_skipped = [], cs_depth = d, cs_core = c\<rparr>"
  shows "(\<exists>s'. consume_loop E [Block (k_next c) b, Skipped (k_next c + 1)] s = (s', Inr ()) \<and> cs_core s' = c2)
    \<and> (\<exists>s'. consume_loop E [Skipped (k_next c + 1), Block (k_next c) b] s
          = (s', Inl (ClosedEarly (k_next c + 1) (pe_end E))) \<and> cs_core s' = c3)"
proof -
  have c1: "k_next c1 = k_next c + 1" "k_next c1 < pe_end E" using process_next [OF assms(2)] by auto
  have c3: "k_next c3 = k_next c + 1" using finish_sink_next [OF assms(4)] c1 by simp
  have ne: "k_next c + 1 \<noteq> k_next c" by simp
  have dr: "drain_loop E \<lparr>cs_buffer = [(k_next c, b)], cs_skipped = sk, cs_depth = dp, cs_core = c\<rparr>
      = (\<lparr>cs_buffer = [], cs_skipped = sk, cs_depth = (if tripped E (k_next c) then dp else dp - 1), cs_core = c1\<rparr>, Inr False)"
    for sk dp
    by (subst drain_loop.simps) (simp add: Let_def assms(2) drain_not_next)
  have sk: "skip_loop E \<lparr>cs_buffer = [], cs_skipped = [k_next c1], cs_depth = dp, cs_core = c1\<rparr>
      = (\<lparr>cs_buffer = [], cs_skipped = [], cs_depth = dp, cs_core = c2\<rparr>, Inr True)" for dp
    by (subst skip_loop.simps) (simp add: Let_def assms(3))
  have "on_item E (Block (k_next c) b) s = (\<lparr>cs_buffer = [], cs_skipped = [],
      cs_depth = (if tripped E (k_next c) then d + 1 else d), cs_core = c1\<rparr>, Inr False)"
    by (simp add: on_item_def assms(5) skip_not_next dr)
  moreover have "on_item E (Skipped (k_next c + 1)) \<lparr>cs_buffer = [], cs_skipped = [], cs_depth = dp, cs_core = c1\<rparr>
      = (\<lparr>cs_buffer = [], cs_skipped = [], cs_depth = dp, cs_core = c2\<rparr>, Inr True)" for dp
    using sk [of dp] by (simp add: on_item_def c1)
  ultimately have first: "\<exists>s'. consume_loop E [Block (k_next c) b, Skipped (k_next c + 1)] s = (s', Inr ()) \<and> cs_core s' = c2"
    by simp
  have "on_item E (Skipped (k_next c + 1)) s
      = (\<lparr>cs_buffer = [], cs_skipped = [k_next c + 1], cs_depth = d, cs_core = c\<rparr>, Inr False)"
    by (simp add: on_item_def assms(5) skip_not_next drain_not_next)
  moreover have "on_item E (Block (k_next c) b) \<lparr>cs_buffer = [], cs_skipped = [k_next c + 1], cs_depth = d, cs_core = c\<rparr>
      = (\<lparr>cs_buffer = [], cs_skipped = [k_next c + 1], cs_depth = (if tripped E (k_next c) then d + 1 else d), cs_core = c1\<rparr>, Inr False)"
    by (simp add: on_item_def skip_not_next dr)
  ultimately have "\<exists>s'. consume_loop E [Skipped (k_next c + 1), Block (k_next c) b] s
          = (s', Inl (ClosedEarly (k_next c + 1) (pe_end E))) \<and> cs_core s' = c3"
    using assms(4) c1 c3 by simp
  with first show ?thesis by blast
qed

lemma ex_step [simp]: "checkpoint_step map_host = 100000"
  by (simp add: checkpoint_step_def map_host_def CHECKPOINT_HEIGHT_STEP_def)

lemma ex_process:
  "\<exists>c c1. k_next c = 0 \<and> process ex_env ex_empty_block c = (c1, Inr False)
    \<and> la.sink_rep sink_config_default [PushBlock (ex_block_row\<lparr>b_total_fee := 0\<rparr>)] (k_sink c1)"
proof -
  obtain sink where sink: "sink_create list_arrow [''out''] 0 sink_config_default = Inr sink"
    using la.create_total' by blast
  have rep: "la.sink_rep sink_config_default [] sink" by (rule la.create_rep [OF sink])
  have ok: "op_ok (PushBlock (ex_block_row\<lparr>b_total_fee := 0\<rparr>))" by (simp add: ex_block_row_def)
  obtain sink1 where s1: "push_block list_arrow (ex_block_row\<lparr>b_total_fee := 0\<rparr>) sink = Inr sink1"
    using la.step_total [OF rep ok] by auto
  have rep1: "la.sink_rep sink_config_default [PushBlock (ex_block_row\<lparr>b_total_fee := 0\<rparr>)] sink1"
    using la.step_rep [of "PushBlock (ex_block_row\<lparr>b_total_fee := 0\<rparr>)" sink sink1 sink_config_default "[]"] s1 rep ok
    by simp
  define c :: "(db_view, cell list list, cell list list, files) core" where "c = \<lparr>k_next = 0, k_part = 0, k_sink = sink, k_utxo = ex_store, k_missing = 0,
      k_progress = 0, k_next_height = 0, k_host = ex_host, k_files = []\<rparr>"
  have "\<exists>st. apply_block map_rocks (\<lambda>m. m) 0 [] [] [] ex_store = Inr (\<lparr>sr_spends = [], sr_fees = [],
      sr_missing = 0, sr_db_lookups = 0, sr_pending_hits = 0, sr_cache_hits = 0\<rparr>, st)"
    by (simp add: apply_block_def apply_locals_init_def ex_store_def map_rocks_def Let_def)
  then obtain st where st: "apply_block map_rocks (\<lambda>m. m) 0 [] [] [] ex_store = Inr (\<lparr>sr_spends = [], sr_fees = [],
      sr_missing = 0, sr_db_lookups = 0, sr_pending_hits = 0, sr_cache_hits = 0\<rparr>, st)" by blast
  have idx: "index_block ex_env ex_empty_block c = (c\<lparr>k_utxo := st, k_missing := 0, k_sink := sink1\<rparr>, Inr ())"
    by (simp add: index_block_def c_def ex_env_def ex_empty_block_def st enrich_block_def
        coinbase_flags_def push_rows_def s1 Let_def)
  have rot: "rotate ex_env c = (c, Inr ())" by (simp add: rotate_def c_def ex_env_def)
  have "on_block_applied map_host 0 h = (h, Inr False)" for h
    by (simp add: on_block_applied_def Let_def split: prod.splits)
  then have adv: "advance ex_env (c\<lparr>k_utxo := st, k_missing := 0, k_sink := sink1\<rparr>)
      = (c\<lparr>k_utxo := st, k_missing := 0, k_sink := sink1, k_progress := 1, k_next := 1, k_next_height := 1\<rparr>, Inr ())"
    by (simp add: advance_def ex_env_def c_def Let_def)
  have "process ex_env ex_empty_block c = (c\<lparr>k_utxo := st, k_missing := 0, k_sink := sink1, k_progress := 1,
      k_next := 1, k_next_height := 1\<rparr>, Inr False)"
    unfolding process_def rot io_bind_simps idx adv
    by (simp add: tripped_def check_end_def ex_env_def word_le_nat_alt)
  moreover have "k_next c = 0" by (simp add: c_def)
  ultimately show ?thesis using rep1
    by (intro exI [of _ c] exI [of _ "c\<lparr>k_utxo := st, k_missing := 0, k_sink := sink1, k_progress := 1,
      k_next := 1, k_next_height := 1\<rparr>"]) simp
qed

text \<open>A run over one empty block.\<close>

lemma ex_init_one: "\<exists>s0. consumer_init (ex_env\<lparr>pe_end := 1\<rparr>) 0 ex_store host = Inr s0"
  using la.create_total' [of "[''out'']" 0 sink_config_default] by (auto simp: consumer_init_def ex_env_def)

lemma ex_seq_one:
  assumes "fb_txs b = []" "fb_inputs b = []" "fb_outputs b = []"
    and "op_ok (PushBlock ((fb_block_row b)\<lparr>b_total_fee := 0\<rparr>))"
    and "consumer_init (ex_env\<lparr>pe_end := 1\<rparr>) 0 ex_store (w, rec) = Inr s0"
  shows "\<exists>c. seq_blocks (ex_env\<lparr>pe_end := 1\<rparr>) [b] (cs_core s0) = (c, Inr ())"
proof -
  define E where "E = ex_env\<lparr>pe_end := 1\<rparr>"
  let ?row = "(fb_block_row b)\<lparr>b_total_fee := 0\<rparr>"
  have E: "pe_rocks E = map_rocks" "pe_iter E = (\<lambda>m. m)" "pe_arrow E = list_arrow" "pe_host E = map_host"
    "pe_watchdog E = None" "pe_blocks_per_part E = 1000" "pe_end E = 1"
    by (simp_all add: E_def ex_env_def)
  obtain sink where sink: "sink_create list_arrow (pe_out_dir E) 0 sink_config_default = Inr sink"
    and core: "cs_core s0 = \<lparr>k_next = 0, k_part = 0, k_sink = sink, k_utxo = ex_store, k_missing = 0,
      k_progress = 0, k_next_height = 0, k_host = (w, rec), k_files = []\<rparr>"
    using assms(5) unfolding E_def [symmetric] by (auto simp: consumer_init_def E res_simps Let_def)
  have rep: "la.sink_rep sink_config_default [] sink" by (rule la.create_rep [OF sink])
  obtain sink1 where s1: "push_block list_arrow ?row sink = Inr sink1"
    using la.step_total [OF rep assms(4)] by auto
  have rep1: "la.sink_rep sink_config_default [PushBlock ?row] sink1"
    using la.step_rep [of "PushBlock ?row" sink sink1 sink_config_default "[]"] s1 rep assms(4) by simp
  obtain fl where fl: "sink_finish list_arrow sink1 = Inr fl" using la.finish_total [OF rep1] by blast
  have "\<exists>st. apply_block map_rocks (\<lambda>m. m) 0 [] [] [] ex_store = Inr (\<lparr>sr_spends = [], sr_fees = [],
      sr_missing = 0, sr_db_lookups = 0, sr_pending_hits = 0, sr_cache_hits = 0\<rparr>, st)"
    by (simp add: apply_block_def apply_locals_init_def ex_store_def map_rocks_def Let_def)
  then obtain st where st: "apply_block map_rocks (\<lambda>m. m) 0 [] [] [] ex_store = Inr (\<lparr>sr_spends = [],
      sr_fees = [], sr_missing = 0, sr_db_lookups = 0, sr_pending_hits = 0, sr_cache_hits = 0\<rparr>, st)" by blast
  have "index_block E b (cs_core s0) = ((cs_core s0)\<lparr>k_utxo := st, k_missing := 0, k_sink := sink1\<rparr>, Inr ())"
    by (simp add: index_block_def E core assms(1-3) st enrich_block_def coinbase_flags_def push_rows_def s1 Let_def)
  moreover have "rotate E (cs_core s0) = (cs_core s0, Inr ())" by (simp add: rotate_def core E)
  moreover have "on_block_applied map_host 0 h = (h, Inr False)" for h
    by (simp add: on_block_applied_def Let_def split: prod.splits)
  ultimately show ?thesis unfolding E_def [symmetric]
    by (simp add: process_def tripped_def E advance_def check_end_def finish_sink_def core fl Let_def)
qed

theorem skip_marker_order_witness:
  "\<exists>s. k_next (cs_core s) = 0
    \<and> (\<exists>s'. consume_loop ex_env [Block 0 ex_empty_block, Skipped 1] s = (s', Inr ()))
    \<and> (\<exists>s'. consume_loop ex_env [Skipped 1, Block 0 ex_empty_block] s = (s', Inl (ClosedEarly 1 2)))"
proof -
  obtain c c1 where c: "k_next c = 0" "process ex_env ex_empty_block c = (c1, Inr False)"
    and rep: "la.sink_rep sink_config_default [PushBlock (ex_block_row\<lparr>b_total_fee := 0\<rparr>)] (k_sink c1)"
    using ex_process by blast
  obtain fl where fl: "sink_finish list_arrow (k_sink c1) = Inr fl" using la.finish_total [OF rep] by blast
  have n1: "k_next c1 = 1" using process_next [OF c(2)] c(1) by simp
  have "(1 :: u32) mod 100000 \<noteq> 0" by simp
  then have obs: "on_block_applied map_host 1 h = (h, Inr False)" for h
    by (simp add: on_block_applied_def Let_def split: prod.splits)
  define c2 where "c2 = c1\<lparr>k_progress := k_progress c1 + 1, k_next := 2, k_next_height := 2,
     k_files := k_files c1 @ [(k_part c1, fl)]\<rparr>"
  have adv: "io_bind (advance ex_env c1) (\<lambda>c _. check_end ex_env c) = (c2, Inr True)"
    by (simp add: advance_def check_end_def finish_sink_def ex_env_def obs n1 fl Let_def c2_def)
  have fin: "finish_sink ex_env c1 = (c1\<lparr>k_files := k_files c1 @ [(k_part c1, fl)]\<rparr>, Inr ())"
    by (simp add: finish_sink_def ex_env_def fl)
  have len: "unat (k_next c) + 2 = unat (pe_end ex_env)" by (simp add: c(1) ex_env_def)
  have e: "pe_end ex_env = 2" by (simp add: ex_env_def)
  let ?s = "\<lparr>cs_buffer = [], cs_skipped = [], cs_depth = 0, cs_core = c\<rparr>"
  have "(\<exists>s'. consume_loop ex_env [Block 0 ex_empty_block, Skipped 1] ?s = (s', Inr ()))
    \<and> (\<exists>s'. consume_loop ex_env [Skipped 1, Block 0 ex_empty_block] ?s = (s', Inl (ClosedEarly 1 2)))"
    using skip_marker_order [OF len c(2) adv fin, of ?s 0] unfolding e c(1) add_0 by blast
  then show ?thesis using c(1) by (intro exI [of _ ?s]) (simp only: consumer.simps simp_thms)
qed

end
