(* ===== verification/Live_Node.thy ===== *)
theory Live_Node
  imports Core_Types Core_Text
begin

text \<open>
  \<open>bidx-live/src/node.rs\<close> and \<open>bidx-live/src/zmqsub.rs\<close>: the JSON-RPC client of the Bitcoin node
  and the ZMQ notification parser. The transport (an HTTP client behind a trait) is the parameter
  \<open>transport\<close>: it maps the state of the outside world and a request to a new state and a
  response. The JSON library is the parameter \<open>serde\<close>: one deserialiser per type the client
  reads. \<open>serde_laws\<close> states its documented behaviour on the shapes the node sends;
  \<open>node_serves\<close> is what the tracker relies on of a node with a fixed best chain. Both are
  interpreted, the second on the client over a transport that answers in JSON.
\<close>

section \<open>JSON and errors\<close>

datatype json =
    JNull | JBool bool | JNum int | JStr string | JArr "json list" | JObj "(string \<times> json) list"

datatype rpc_error =
    RpcHttp string
  | RpcRpc int string
  | RpcIo io_error
  | BadResponse string
  | RpcJson string

record rpc_config =
  rpc_url :: string
  cookie_path :: "path option"
  rpc_user :: "string option"
  rpc_password :: "string option"

record block_header_info =
  hi_hash :: string
  hi_height :: u32
  hi_confirmations :: int
  hi_previous :: "string option"
  hi_next :: "string option"

record chain_tip =
  ct_height :: u32
  ct_hash :: string
  ct_branch_len :: u32
  ct_status :: string

record rpc_err =
  re_code :: int
  re_message :: string

record serde =
  de_resp :: "json \<Rightarrow> string + json option \<times> rpc_err option"
  de_u32 :: "json \<Rightarrow> string + u32"
  de_string :: "json \<Rightarrow> string + string"
  de_header :: "json \<Rightarrow> string + block_header_info"
  de_tips :: "json \<Rightarrow> string + chain_tip list"

record 'n transport =
  roundtrip :: "'n \<Rightarrow> json \<Rightarrow> ('n, rpc_error, json) io"

section \<open>The client\<close>

text \<open>\<open>NodeClient::new\<close>: the credentials of the \<open>Authorization\<close> header, before their base64
  encoding; the HTTP client built from them is the transport.\<close>

definition client_auth :: "(path \<Rightarrow> io_error + string) \<Rightarrow> rpc_config \<Rightarrow> rpc_error + string" where
  "client_auth read_text cfg =
    (case (rpc_user cfg, rpc_password cfg) of
       (Some u, Some p) \<Rightarrow> Inr (u @ '':'' @ p)
     | _ \<Rightarrow>
       (case cookie_path cfg of
          Some cp \<Rightarrow> res_bind (map_err RpcIo (read_text cp)) (\<lambda>s. Inr (trim s))
        | None \<Rightarrow> Inl (BadResponse ''no rpc credentials: provide user/password or cookie_path'')))"

definition request :: "string \<Rightarrow> json list \<Rightarrow> json" where
  "request meth params =
    JObj [(''jsonrpc'', JStr ''1.0''), (''id'', JStr ''bidx''), (''method'', JStr meth), (''params'', JArr params)]"

text \<open>The response to a call: \<open>de\<close> is the deserialiser of the result type.\<close>

definition decode_resp :: "serde \<Rightarrow> (json \<Rightarrow> string + 'a) \<Rightarrow> string \<Rightarrow> json \<Rightarrow> rpc_error + 'a" where
  "decode_resp S de meth resp =
    res_bind (map_err RpcJson (de_resp S resp)) (\<lambda>(res, err).
    res_bind (case res of None \<Rightarrow> Inr None | Some j \<Rightarrow> res_bind (map_err RpcJson (de j)) (\<lambda>x. Inr (Some x))) (\<lambda>val.
    case err of
      Some e \<Rightarrow> Inl (RpcRpc (re_code e) (re_message e))
    | None \<Rightarrow> ok_or val (BadResponse (meth @ '': null result''))))"

definition rpc_call ::
    "'n transport \<Rightarrow> serde \<Rightarrow> (json \<Rightarrow> string + 'a) \<Rightarrow> string \<Rightarrow> json list \<Rightarrow> 'n \<Rightarrow> ('n, rpc_error, 'a) io" where
  "rpc_call T S de meth params w =
    io_bind (roundtrip T w (request meth params)) (\<lambda>w resp. (w, decode_resp S de meth resp))"

definition get_block_count :: "'n transport \<Rightarrow> serde \<Rightarrow> 'n \<Rightarrow> ('n, rpc_error, u32) io" where
  "get_block_count T S w = rpc_call T S (de_u32 S) ''getblockcount'' [] w"

definition hex_err :: "hex_error + 'a \<Rightarrow> rpc_error + 'a" where
  "hex_err r = map_err (\<lambda>e. BadResponse ''hex'') r"

definition get_block_hash :: "'n transport \<Rightarrow> serde \<Rightarrow> hex_crate \<Rightarrow> u32 \<Rightarrow> 'n \<Rightarrow> ('n, rpc_error, hash32) io" where
  "get_block_hash T S X height w =
    io_bind (rpc_call T S (de_string S) ''getblockhash'' [JNum (uint height)] w) (\<lambda>w hex.
      (w, hex_err (from_hex X hex)))"

definition get_block_header ::
    "'n transport \<Rightarrow> serde \<Rightarrow> hex_crate \<Rightarrow> hash32 \<Rightarrow> 'n \<Rightarrow> ('n, rpc_error, block_header_info) io" where
  "get_block_header T S X h w = rpc_call T S (de_header S) ''getblockheader'' [JStr (to_hex X h)] w"

definition get_block_raw :: "'n transport \<Rightarrow> serde \<Rightarrow> hex_crate \<Rightarrow> hash32 \<Rightarrow> 'n \<Rightarrow> ('n, rpc_error, bytes) io" where
  "get_block_raw T S X h w =
    io_bind (rpc_call T S (de_string S) ''getblock'' [JStr (to_hex X h), JNum 0] w) (\<lambda>w hex.
      (w, hex_err (hex_decode X hex)))"

definition chain_tips :: "'n transport \<Rightarrow> serde \<Rightarrow> 'n \<Rightarrow> ('n, rpc_error, chain_tip list) io" where
  "chain_tips T S w = rpc_call T S (de_tips S) ''getchaintips'' [] w"

text \<open>The walk along one stale branch; the number of steps is the branch length.\<close>

fun walk_branch ::
    "'n transport \<Rightarrow> serde \<Rightarrow> hex_crate \<Rightarrow> nat \<Rightarrow> hash32 \<Rightarrow> hash32 list \<Rightarrow> 'n \<Rightarrow> ('n, rpc_error, hash32 list) io" where
  "walk_branch T S X 0 cur out w = (w, Inr out)"
| "walk_branch T S X (Suc n) cur out w =
    (let out = List.insert cur out in
     io_bind (get_block_header T S X cur w) (\<lambda>w hdr.
     case hi_previous hdr of
       Some prev \<Rightarrow> io_bind (w, hex_err (from_hex X prev)) (\<lambda>w cur. walk_branch T S X n cur out w)
     | None \<Rightarrow> (w, Inr out)))"

fun walk_tips ::
    "'n transport \<Rightarrow> serde \<Rightarrow> hex_crate \<Rightarrow> chain_tip list \<Rightarrow> hash32 list \<Rightarrow> 'n \<Rightarrow> ('n, rpc_error, hash32 list) io" where
  "walk_tips T S X [] out w = (w, Inr out)"
| "walk_tips T S X (tip # tips) out w =
    (if ct_status tip = ''active'' \<or> ct_status tip = ''headers-only'' then walk_tips T S X tips out w
     else
       (case from_hex X (ct_hash tip) of
          Inl e \<Rightarrow> (w, Inl (BadResponse ''getchaintips bad hash''))
        | Inr cur \<Rightarrow>
            io_bind (walk_branch T S X (unat (ct_branch_len tip)) cur out w) (\<lambda>w out.
              walk_tips T S X tips out w)))"

definition orphan_block_hashes :: "'n transport \<Rightarrow> serde \<Rightarrow> hex_crate \<Rightarrow> 'n \<Rightarrow> ('n, rpc_error, hash32 list) io" where
  "orphan_block_hashes T S X w =
    io_bind (chain_tips T S w) (\<lambda>w tips. walk_tips T S X tips [] w)"

section \<open>Notifications\<close>

datatype zmq_error = ZmqSocket string | ZmqMalformed nat

definition parse_hashblock_multipart :: "bytes list \<Rightarrow> zmq_error + hash32" where
  "parse_hashblock_multipart msg =
    (if length msg < 2 then Inl (ZmqMalformed (length msg))
     else
       let payload = msg ! 1 in
       if length payload \<noteq> 32 then Inl (ZmqMalformed (length payload))
       else Inr (Hash32_from_bytes payload))"

section \<open>What the client relies on\<close>

definition resp_ok :: "json \<Rightarrow> json" where
  "resp_ok j = JObj [(''result'', j), (''error'', JNull), (''id'', JStr ''bidx'')]"

definition resp_err :: "int \<Rightarrow> string \<Rightarrow> json" where
  "resp_err c m = JObj [(''result'', JNull), (''error'', JObj [(''code'', JNum c), (''message'', JStr m)]),
     (''id'', JStr ''bidx'')]"

locale serde_laws =
  fixes S :: serde
  assumes de_resp_ok: "j \<noteq> JNull \<Longrightarrow> de_resp S (resp_ok j) = Inr (Some j, None)"
    and de_resp_err: "de_resp S (resp_err c m) = Inr (None, Some \<lparr>re_code = c, re_message = m\<rparr>)"
    and de_u32_num: "de_u32 S (JNum (uint n)) = Inr n"
    and de_string_str: "de_string S (JStr s) = Inr s"
begin

lemma decode_ok: "j \<noteq> JNull \<Longrightarrow> de j = Inr x \<Longrightarrow> decode_resp S de m (resp_ok j) = Inr x"
  by (simp add: decode_resp_def de_resp_ok)

lemma decode_err: "decode_resp S de m (resp_err c t) = Inl (RpcRpc c t)"
  by (simp add: decode_resp_def de_resp_err)

end

text \<open>A node that serves a fixed best chain of block hashes and raw blocks.\<close>

type_synonym chain = "(hash32 \<times> bytes) list"

definition chain_ok :: "chain \<Rightarrow> bool" where
  "chain_ok ch \<longleftrightarrow> ch \<noteq> [] \<and> length ch < 2 ^ 32 \<and> distinct (map fst ch)
     \<and> (\<forall>b\<in>set ch. length (fst b) = 32 \<and> fst b \<noteq> Hash32_ZERO)"

locale node_serves =
  fixes T :: "'n transport" and S :: serde and X :: hex_crate and chain_of :: "'n \<Rightarrow> chain"
  assumes count_call: "chain_ok (chain_of w) \<Longrightarrow>
      get_block_count T S w = (w, Inr (of_nat (length (chain_of w) - 1)))"
    and hash_call: "chain_ok (chain_of w) \<Longrightarrow> unat h < length (chain_of w) \<Longrightarrow>
      get_block_hash T S X h w = (w, Inr (fst (chain_of w ! unat h)))"
    and hash_call_err: "chain_ok (chain_of w) \<Longrightarrow> length (chain_of w) \<le> unat h \<Longrightarrow>
      \<exists>e. get_block_hash T S X h w = (w, Inl e)"
    and raw_call: "chain_ok (chain_of w) \<Longrightarrow> i < length (chain_of w) \<Longrightarrow>
      get_block_raw T S X (fst (chain_of w ! i)) w = (w, Inr (snd (chain_of w ! i)))"

section \<open>A node that answers in JSON\<close>

fun jget :: "string \<Rightarrow> json \<Rightarrow> json option" where
  "jget k (JObj fs) = map_of fs k"
| "jget k _ = None"

definition opt_field :: "string \<Rightarrow> json \<Rightarrow> json option" where
  "opt_field k j = (case jget k j of Some JNull \<Rightarrow> None | r \<Rightarrow> r)"

fun of_jstr :: "json \<Rightarrow> string + string" where
  "of_jstr (JStr s) = Inr s"
| "of_jstr _ = Inl ''expected a string''"

fun of_jint :: "json \<Rightarrow> string + int" where
  "of_jint (JNum n) = Inr n"
| "of_jint _ = Inl ''expected an integer''"

definition of_ju32 :: "json \<Rightarrow> string + u32" where
  "of_ju32 j = res_bind (of_jint j) (\<lambda>n. if 0 \<le> n \<and> n < 2 ^ 32 then Inr (word_of_int n) else Inl ''out of range'')"

definition req_field :: "string \<Rightarrow> (json \<Rightarrow> string + 'a) \<Rightarrow> json \<Rightarrow> string + 'a" where
  "req_field k de j = res_bind (ok_or (jget k j) (''missing field '' @ k)) de"

definition opt_str :: "string \<Rightarrow> json \<Rightarrow> string + string option" where
  "opt_str k j = (case opt_field k j of None \<Rightarrow> Inr None | Some v \<Rightarrow> res_bind (of_jstr v) (\<lambda>s. Inr (Some s)))"

definition de_obj :: "(json \<Rightarrow> string + 'a) \<Rightarrow> json \<Rightarrow> string + 'a" where
  "de_obj de j = (case j of JObj _ \<Rightarrow> de j | _ \<Rightarrow> Inl ''expected an object'')"

definition std_serde :: serde where
  "std_serde = \<lparr>
     de_resp = de_obj (\<lambda>j.
       res_bind (case opt_field ''error'' j of
                   None \<Rightarrow> Inr None
                 | Some e \<Rightarrow> de_obj (\<lambda>e. res_bind (req_field ''code'' of_jint e) (\<lambda>c.
                     res_bind (req_field ''message'' of_jstr e) (\<lambda>m.
                       Inr (Some \<lparr>re_code = c, re_message = m\<rparr>)))) e) (\<lambda>err.
       Inr (opt_field ''result'' j, err))),
     de_u32 = of_ju32,
     de_string = of_jstr,
     de_header = de_obj (\<lambda>j.
       res_bind (req_field ''hash'' of_jstr j) (\<lambda>h.
       res_bind (req_field ''height'' of_ju32 j) (\<lambda>n.
       res_bind (req_field ''confirmations'' of_jint j) (\<lambda>c.
       res_bind (opt_str ''previousblockhash'' j) (\<lambda>p.
       res_bind (opt_str ''nextblockhash'' j) (\<lambda>nx.
         Inr \<lparr>hi_hash = h, hi_height = n, hi_confirmations = c, hi_previous = p, hi_next = nx\<rparr>)))))),
     de_tips = (\<lambda>j. case j of
       JArr ts \<Rightarrow> res_fold (\<lambda>t acc. de_obj (\<lambda>t.
           res_bind (req_field ''height'' of_ju32 t) (\<lambda>n.
           res_bind (req_field ''hash'' of_jstr t) (\<lambda>h.
           res_bind (req_field ''branchlen'' of_ju32 t) (\<lambda>l.
           res_bind (req_field ''status'' of_jstr t) (\<lambda>s.
             Inr (acc @ [\<lparr>ct_height = n, ct_hash = h, ct_branch_len = l, ct_status = s\<rparr>]))))))
         t) ts []
     | _ \<Rightarrow> Inl ''expected an array'')\<rparr>"

interpretation serde_std: serde_laws std_serde
proof
  fix j :: json
  assume "j \<noteq> JNull"
  then show "de_resp std_serde (resp_ok j) = Inr (Some j, None)"
    by (cases j) (simp_all add: std_serde_def resp_ok_def de_obj_def opt_field_def)
next
  fix n :: u32
  have "0 \<le> uint n" "uint n < 2 ^ 32" using unsigned_greater_eq [of n] unsigned_less [of n] by simp_all
  then show "de_u32 std_serde (JNum (uint n)) = Inr n" by (simp add: std_serde_def of_ju32_def)
qed (simp_all add: std_serde_def resp_err_def de_obj_def opt_field_def req_field_def)

text \<open>The node: the world is its best chain, requests are answered from it.\<close>

definition find_block :: "hex_crate \<Rightarrow> string \<Rightarrow> chain \<Rightarrow> bytes option" where
  "find_block X hex ch = map_option snd (List.find (\<lambda>b. to_hex X (fst b) = hex) ch)"

definition answer :: "hex_crate \<Rightarrow> chain \<Rightarrow> json \<Rightarrow> json" where
  "answer X ch body =
    (case (jget ''method'' body, jget ''params'' body) of
       (Some (JStr m), Some (JArr ps)) \<Rightarrow>
         if m = ''getblockcount'' then resp_ok (JNum (int (length ch) - 1))
         else if m = ''getblockhash'' then
           (case ps of
              JNum h # _ \<Rightarrow> if 0 \<le> h \<and> nat h < length ch then resp_ok (JStr (to_hex X (fst (ch ! nat h))))
                            else resp_err (- 8) ''Block height out of range''
            | _ \<Rightarrow> resp_err (- 1) ''usage'')
         else if m = ''getblock'' then
           (case ps of
              JStr hex # _ \<Rightarrow> (case find_block X hex ch of
                  Some raw \<Rightarrow> resp_ok (JStr (hex_encode X raw))
                | None \<Rightarrow> resp_err (- 5) ''Block not found'')
            | _ \<Rightarrow> resp_err (- 1) ''usage'')
         else resp_err (- 32601) ''Method not found''
     | _ \<Rightarrow> resp_err (- 32600) ''Invalid request'')"

definition json_node :: "hex_crate \<Rightarrow> chain transport" where
  "json_node X = \<lparr>roundtrip = (\<lambda>ch body. (ch, Inr (answer X ch body)))\<rparr>"

lemma find_block_nth:
  assumes "hex_laws X" "chain_ok ch" "i < length ch"
  shows "find_block X (to_hex X (fst (ch ! i))) ch = Some (snd (ch ! i))"
proof -
  have inj: "fst (ch ! j) = fst (ch ! i) \<Longrightarrow> j = i" if "j < length ch" for j
    using assms(2,3) that nth_eq_iff_index_eq [of "map fst ch" j i] by (simp add: chain_ok_def)
  have "to_hex X (fst (ch ! j)) \<noteq> to_hex X (fst (ch ! i))" if "j < i" for j
  proof
    assume "to_hex X (fst (ch ! j)) = to_hex X (fst (ch ! i))"
    moreover have "length (fst (ch ! j)) = 32" "length (fst (ch ! i)) = 32"
      using assms(2,3) that by (auto simp: chain_ok_def)
    ultimately have "fst (ch ! j) = fst (ch ! i)" using hex_laws.to_hex_inj [OF assms(1)] by blast
    then show False using inj [of j] that assms(3) by simp
  qed
  then have "List.find (\<lambda>b. to_hex X (fst b) = to_hex X (fst (ch ! i))) ch = Some (ch ! i)"
    using assms(3) unfolding find_Some_iff by blast
  then show ?thesis by (simp add: find_block_def)
qed

lemma json_node_serves:
  assumes "hex_laws X" "serde_laws S"
  shows "node_serves (json_node X) S X (\<lambda>ch. ch)"
proof
  fix w :: chain
  assume ok: "chain_ok w"
  have len: "w \<noteq> []" "length w - 1 < 2 ^ 32" using ok by (auto simp: chain_ok_def)
  have "unat (of_nat (length w - 1) :: u32) = length w - 1"
    by (rule unat_of_nat_less) (use len(2) in simp)
  then have "uint (of_nat (length w - 1) :: u32) = int (length w - 1)"
    by (metis uint_nat)
  then have "int (length w) - 1 = uint (of_nat (length w - 1) :: u32)"
    using len(1) by (cases w) auto
  then show "get_block_count (json_node X) S w = (w, Inr (of_nat (length w - 1)))"
    by (simp add: get_block_count_def rpc_call_def json_node_def answer_def request_def
        serde_laws.decode_ok [OF assms(2)] serde_laws.de_u32_num [OF assms(2)])
next
  fix w :: chain and h :: u32
  assume ok: "chain_ok w" and h: "unat h < length w"
  have "length (fst (w ! unat h)) = 32" using ok h by (simp add: chain_ok_def)
  moreover have "nat (uint h) = unat h" by (rule nat_uint_eq)
  moreover have "0 \<le> uint h" by (rule unsigned_greater_eq)
  ultimately show "get_block_hash (json_node X) S X h w = (w, Inr (fst (w ! unat h)))"
    using h by (simp add: get_block_hash_def rpc_call_def json_node_def answer_def request_def
        serde_laws.decode_ok [OF assms(2)] serde_laws.de_string_str [OF assms(2)] hex_err_def
        hex_laws.from_to_hex [OF assms(1)])
next
  fix w :: chain and h :: u32
  assume "length w \<le> unat h"
  moreover have "nat (uint h) = unat h" by (rule nat_uint_eq)
  ultimately show "\<exists>e. get_block_hash (json_node X) S X h w = (w, Inl e)"
    by (simp add: get_block_hash_def rpc_call_def json_node_def answer_def request_def
        serde_laws.decode_err [OF assms(2)])
next
  fix w :: chain and i
  assume "chain_ok w" "i < length w"
  then show "get_block_raw (json_node X) S X (fst (w ! i)) w = (w, Inr (snd (w ! i)))"
    by (simp add: get_block_raw_def rpc_call_def json_node_def answer_def request_def
        find_block_nth [OF assms(1)] serde_laws.decode_ok [OF assms(2)]
        serde_laws.de_string_str [OF assms(2)] hex_err_def hex_laws.decode_all [OF assms(1)])
qed

interpretation jn: node_serves "json_node std_hex" std_serde std_hex "\<lambda>ch. ch"
  by (rule json_node_serves [OF hex_std.hex_laws_axioms serde_std.serde_laws_axioms])

end
