(* ===== verification/Live_Http.thy ===== *)
theory Live_Http
  imports Live_Node
begin

text \<open>
  The two connections of \<open>bidx-live\<close>: the HTTP client that carries the RPC calls (\<open>node.rs\<close>) and the ZMQ socket that
  delivers block notifications (\<open>zmqsub.rs\<close>). The crates \<open>reqwest\<close> and \<open>base64\<close> are the parameter \<open>http_crate\<close>: building
  a client with a timeout in seconds, posting a JSON body to an address with request headers, decoding the body of
  the answer, and the standard base64 encoding. The crate \<open>zmq\<close> is the parameter \<open>zmq_crate\<close>. What is relied on of
  the answers is the interface \<open>http_serves\<close>; a client built by \<open>node_new\<close> then meets \<open>node_serves\<close>.
\<close>

section \<open>The HTTP transport\<close>

record ('n, 'c, 'r) http_crate =
  rq_build :: "nat \<Rightarrow> string + 'c"
  rq_post :: "'c \<Rightarrow> string \<Rightarrow> (string \<times> string) list \<Rightarrow> json \<Rightarrow> 'n \<Rightarrow> ('n, string, 'r) io"
  rq_json :: "'r \<Rightarrow> string + json"
  b64_encode :: "string \<Rightarrow> string"

record 'c http_transport =
  ht_http :: 'c
  ht_url :: string
  ht_auth_header :: string

definition http_roundtrip ::
    "('n, 'c, 'r) http_crate \<Rightarrow> 'c http_transport \<Rightarrow> 'n \<Rightarrow> json \<Rightarrow> ('n, rpc_error, json) io" where
  "http_roundtrip Q t w body =
    (case rq_post Q (ht_http t) (ht_url t) [(''Authorization'', ht_auth_header t)] body w of
       (w, Inl e) \<Rightarrow> (w, Inl (RpcHttp e))
     | (w, Inr resp) \<Rightarrow> (w, map_err RpcHttp (rq_json Q resp)))"

definition HTTP_TIMEOUT_SECS :: nat where
  "HTTP_TIMEOUT_SECS = 120"

definition http_client ::
    "('n, 'c, 'r) http_crate \<Rightarrow> (path \<Rightarrow> io_error + string) \<Rightarrow> rpc_config \<Rightarrow> rpc_error + 'c http_transport" where
  "http_client Q read_text cfg =
    res_bind (client_auth read_text cfg) (\<lambda>auth.
    let auth_header = ''Basic '' @ b64_encode Q auth in
    res_bind (map_err RpcHttp (rq_build Q HTTP_TIMEOUT_SECS)) (\<lambda>http.
      Inr \<lparr>ht_http = http, ht_url = rpc_url cfg, ht_auth_header = auth_header\<rparr>))"

text \<open>A client is the transport behind it.\<close>

definition node_new ::
    "('n, 'c, 'r) http_crate \<Rightarrow> (path \<Rightarrow> io_error + string) \<Rightarrow> rpc_config \<Rightarrow> rpc_error + 'n transport" where
  "node_new Q read_text cfg =
    res_bind (http_client Q read_text cfg) (\<lambda>t. Inr \<lparr>roundtrip = http_roundtrip Q t\<rparr>)"

section \<open>The notification socket\<close>

record 'k zmq_crate =
  zq_sub_socket :: "string + 'k"
  zq_set_subscribe :: "string \<Rightarrow> 'k \<Rightarrow> string + 'k"
  zq_set_rcvhwm :: "nat \<Rightarrow> 'k \<Rightarrow> string + 'k"
  zq_connect :: "string \<Rightarrow> 'k \<Rightarrow> string + 'k"
  zq_recv_multipart :: "'k \<Rightarrow> ('k, string, bytes list) io"

record zmq_config =
  hashblock_endpoint :: string

definition zmq_connect :: "'k zmq_crate \<Rightarrow> zmq_config \<Rightarrow> zmq_error + 'k" where
  "zmq_connect Z cfg =
    map_err ZmqSocket (
      res_bind (zq_sub_socket Z) (\<lambda>sock.
      res_bind (zq_set_subscribe Z ''hashblock'' sock) (\<lambda>sock.
      res_bind (zq_set_rcvhwm Z 1000 sock) (\<lambda>sock.
        zq_connect Z (hashblock_endpoint cfg) sock))))"

definition next_block_hash :: "'k zmq_crate \<Rightarrow> 'k \<Rightarrow> ('k, zmq_error, hash32) io" where
  "next_block_hash Z sock =
    (case zq_recv_multipart Z sock of
       (sock, Inl e) \<Rightarrow> (sock, Inl (ZmqSocket e))
     | (sock, Inr msg) \<Rightarrow> (sock, parse_hashblock_multipart msg))"

text \<open>The results of \<open>n\<close> successive calls.\<close>

fun block_hashes :: "'k zmq_crate \<Rightarrow> nat \<Rightarrow> 'k \<Rightarrow> (zmq_error + hash32) list" where
  "block_hashes Z 0 sock = []"
| "block_hashes Z (Suc n) sock = (case next_block_hash Z sock of (sock, r) \<Rightarrow> r # block_hashes Z n sock)"

lemma length_block_hashes [simp]: "length (block_hashes Z n sock) = n"
  by (induction n arbitrary: sock) (auto split: prod.splits)

section \<open>A server behind the connection\<close>

text \<open>The endpoint answers requests that carry the credentials as the transport \<open>T\<close> does.\<close>

locale http_serves =
  fixes Q :: "('n, 'c, 'r) http_crate" and url :: string and auth :: string and T :: "'n transport"
  assumes builds: "\<exists>c. rq_build Q secs = Inr c"
    and posts: "(''Authorization'', ''Basic '' @ b64_encode Q auth) \<in> set headers \<Longrightarrow>
      (case rq_post Q c url headers body w of
         (w', Inl e) \<Rightarrow> roundtrip T w body = (w', Inl (RpcHttp e))
       | (w', Inr resp) \<Rightarrow> roundtrip T w body = (w', map_err RpcHttp (rq_json Q resp)))"
begin

lemma node_new_serves:
  assumes "client_auth read_text cfg = Inr auth" and "rpc_url cfg = url"
  shows "node_new Q read_text cfg = Inr T"
proof -
  obtain c where c: "rq_build Q HTTP_TIMEOUT_SECS = Inr c" using builds by blast
  let ?t = "\<lparr>ht_http = c, ht_url = url, ht_auth_header = ''Basic '' @ b64_encode Q auth\<rparr>"
  have "http_roundtrip Q ?t w body = roundtrip T w body" for w body
    using posts [where headers = "[(''Authorization'', ''Basic '' @ b64_encode Q auth)]" and c = c and body = body and w = w]
    by (auto simp: http_roundtrip_def split: prod.splits sum.splits)
  then have "http_roundtrip Q ?t = roundtrip T" by blast
  then show ?thesis by (simp add: node_new_def http_client_def assms c)
qed

end

text \<open>An endpoint that serves a chain to whoever knows the password, and refuses others.\<close>

definition json_http :: "hex_crate \<Rightarrow> string \<Rightarrow> (chain, unit, json) http_crate" where
  "json_http X auth = \<lparr>rq_build = (\<lambda>secs. Inr ()),
     rq_post = (\<lambda>c url headers body w.
       if (''Authorization'', ''Basic '' @ rev auth) \<in> set headers then
         (case roundtrip (json_node X) w body of
            (w, Inl _) \<Rightarrow> (w, Inl ''closed'')
          | (w, Inr j) \<Rightarrow> (w, Inr j))
       else (w, Inl ''unauthorized'')),
     rq_json = Inr, b64_encode = rev\<rparr>"

interpretation jh: http_serves "json_http std_hex auth" url auth "json_node std_hex"
  by unfold_locales (auto simp: json_http_def json_node_def)

end
