(* ===== verification/Cli_Parse.thy ===== *)
theory Cli_Parse
  imports Cli_FileCache Cli_Pipeline Parser_Chain Live_Http Store_Ingest Store_Open
begin

text \<open>
  \<open>run_parse\<close> of \<open>bidx-cli/src/pipeline.rs\<close>: the range of heights, the disk-space check and the
  orphan set before the run, the body of a parse worker, and the run itself, which connects the
  workers to the ordered consumer. The thread pool hands out the heights in an order of its own:
  \<open>run_stages\<close> takes the order in which the workers finish as an argument, and the result is proved
  not to depend on it. Logging, the progress bar and the printed summary are left out. The waiting
  of the workers on the consumer is the subject of \<open>Cli_Backpressure\<close>.
\<close>

section \<open>Memory ceiling\<close>

definition RESERVED_FOR_RUNTIME_KB :: u64 where
  "RESERVED_FOR_RUNTIME_KB = 2 * 1024 * 1024"

definition meminfo_line :: "string \<Rightarrow> string \<Rightarrow> u64 option" where
  "meminfo_line name l =
    (case strip_prefix name l of
       None \<Rightarrow> None
     | Some rest \<Rightarrow>
       (case split_ws rest of
          [] \<Rightarrow> None
        | w # _ \<Rightarrow> parse_u64 w))"

fun find_map :: "('a \<Rightarrow> 'b option) \<Rightarrow> 'a list \<Rightarrow> 'b option" where
  "find_map f [] = None"
| "find_map f (x # xs) = (case f x of Some y \<Rightarrow> Some y | None \<Rightarrow> find_map f xs)"

definition field_kb :: "string option \<Rightarrow> string \<Rightarrow> u64 option" where
  "field_kb meminfo name =
    (case meminfo of None \<Rightarrow> None | Some text \<Rightarrow> find_map (meminfo_line name) (lines text))"

definition max_rss_kb :: "string option \<Rightarrow> u64" where
  "max_rss_kb meminfo =
    (let total_kb = (case field_kb meminfo ''MemTotal:'' of Some v \<Rightarrow> v | None \<Rightarrow> 16 * 1024 * 1024);
         available_kb = (case field_kb meminfo ''MemAvailable:'' of Some v \<Rightarrow> v | None \<Rightarrow> total_kb)
     in max (saturating_sub (saturating_sub available_kb (available_kb div 10)) RESERVED_FOR_RUNTIME_KB)
          (256 * 1024))"

section \<open>Configuration and preparation\<close>

record parse_config =
  pc_blocks_dir :: path
  pc_out :: path
  pc_utxo :: path
  pc_start :: u32
  pc_end :: "u32 option"
  pc_blocks_per_part :: u32
  pc_threads :: "nat option"
  pc_rpc_url :: "string option"
  pc_rpc_cookie :: "path option"
  pc_skip_disk_check :: bool
  pc_checkpoint_file :: "path option"
  pc_network :: "network option"
  pc_orphan_blocks :: "hash32 list option"

datatype run_error =
    RunBlk blk_error
  | EmptyChain
  | EmptyRange u32 u32
  | NoNetwork
  | RunRpc rpc_error
  | RunGuard guard_error
  | RunTx tx_parse_error
  | HeightPanic u32
  | HeaderSlicePanic nat
  | RunPipe pipe_error
  | RunUtxo utxo_error

definition plan_range :: "parse_config \<Rightarrow> chain_index \<Rightarrow> run_error + u32 \<times> u32" where
  "plan_range cfg index =
    (case tip_height index of
       None \<Rightarrow> Inl EmptyChain
     | Some tip \<Rightarrow>
       let start = min (pc_start cfg) tip;
           end_h = min (case pc_end cfg of Some x \<Rightarrow> x | None \<Rightarrow> tip + 1) (tip + 1)
       in if end_h \<le> start then Inl (EmptyRange start end_h) else Inr (start, end_h))"

definition disk_config :: "fs \<Rightarrow> parse_config \<Rightarrow> run_error + disk_guard_config" where
  "disk_config F cfg =
    res_bind (ok_or (case pc_network cfg of Some net \<Rightarrow> Some net
                     | None \<Rightarrow> detect_from_blocks_dir F (pc_blocks_dir cfg)) NoNetwork) (\<lambda>net.
    let parent_of_utxo = (case parent (pc_utxo cfg) of Some p \<Rightarrow> p | None \<Rightarrow> [''.'']) in
    Inr \<lparr>checkpoint_file = (case pc_checkpoint_file cfg of Some p \<Rightarrow> p
            | None \<Rightarrow> parent_of_utxo @ [DEFAULT_CHECKPOINT_FILE_NAME]),
         dg_network = net, index_root = parent_of_utxo, tracked_dirs = [pc_utxo cfg, pc_out cfg]\<rparr>)"

text \<open>The disk-space check and the orphan set; a failed orphan query is not an error.\<close>

definition preflight_stage ::
    "'f f64 \<Rightarrow> 'w host \<Rightarrow> 'w \<Rightarrow> ('n, 'c, 'r) http_crate \<Rightarrow> serde \<Rightarrow> hex_crate \<Rightarrow> parse_config \<Rightarrow> disk_guard_config
      \<Rightarrow> 'n \<Rightarrow> ('n, run_error, hash32 list option) io" where
  "preflight_stage F H w Q D X cfg disk_cfg n =
    (if pc_skip_disk_check cfg then (n, Inr (pc_orphan_blocks cfg))
     else case pc_rpc_url cfg of
       None \<Rightarrow> (n, Inr (pc_orphan_blocks cfg))
     | Some url \<Rightarrow>
       io_bind (n, map_err RunRpc (node_new Q (h_read H w)
           \<lparr>rpc_url = url, cookie_path = pc_rpc_cookie cfg, rpc_user = None, rpc_password = None\<rparr>)) (\<lambda>n T.
       io_bind (case get_block_count T D n of (n, r) \<Rightarrow> (n, map_err RunRpc r)) (\<lambda>n node_tip.
       let cps = read_checkpoints H w (checkpoint_file disk_cfg) (dg_network disk_cfg);
           local_tip = (if cps = [] then 0 else cp_height (last cps))
       in io_bind (n, map_err RunGuard (run_pre_flight F H w disk_cfg node_tip local_tip MIN_FREE_BYTES)) (\<lambda>n _.
       case orphan_block_hashes T D X n of
         (n, Inr hs) \<Rightarrow> (n, Inr (if hs \<noteq> [] then Some hs else pc_orphan_blocks cfg))
       | (n, Inl _) \<Rightarrow> (n, Inr (pc_orphan_blocks cfg))))))"

section \<open>A parse worker\<close>

text \<open>What a worker makes of the bytes of one block.\<close>

definition parse_bytes :: "digests \<Rightarrow> hash32 list option \<Rightarrow> u32 \<Rightarrow> bytes \<Rightarrow> run_error + work_item" where
  "parse_bytes H orphans height bytes =
    (if length bytes < 80 then Inl (HeaderSlicePanic (length bytes))
     else
       let header_raw = take 80 bytes;
           header = header_parse header_raw;
           hash = dsha256 H header_raw
       in if (case orphans of None \<Rightarrow> False | Some os \<Rightarrow> hash \<in> set os) then Inr (Skipped height)
          else res_bind (map_err RunTx (parse_block_full H bytes height hash header)) (\<lambda>b. Inr (Block height b)))"

definition parse_height ::
    "digests \<Rightarrow> fs \<Rightarrow> path \<Rightarrow> chain_index \<Rightarrow> hash32 list option \<Rightarrow> u32 \<Rightarrow> file_cache
      \<Rightarrow> (file_cache, run_error, work_item) io" where
  "parse_height H F dir index orphans height c =
    (if unat height < length (by_height index) then
       (case cache_block_bytes F dir (by_height index ! unat height) c of
          (c, Inl e) \<Rightarrow> (c, Inl (RunBlk e))
        | (c, Inr bytes) \<Rightarrow> (c, parse_bytes H orphans height bytes))
     else (c, Inl (HeightPanic height)))"

text \<open>The heights in the order in which the workers finish; the first error stops the stage.\<close>

fun parse_stage ::
    "digests \<Rightarrow> fs \<Rightarrow> path \<Rightarrow> chain_index \<Rightarrow> hash32 list option \<Rightarrow> u32 list \<Rightarrow> file_cache
      \<Rightarrow> work_item list \<times> (run_error option)" where
  "parse_stage H F dir index orphans [] c = ([], None)"
| "parse_stage H F dir index orphans (h # hs) c =
    (case parse_height H F dir index orphans h c of
       (c, Inl e) \<Rightarrow> ([], Some e)
     | (c, Inr item) \<Rightarrow>
       (case parse_stage H F dir index orphans hs c of (items, err) \<Rightarrow> (item # items, err)))"

text \<open>Workers and consumer: the consumer works on what was sent; a worker's error is reported first.\<close>

definition run_stages ::
    "digests \<Rightarrow> fs \<Rightarrow> path \<Rightarrow> chain_index \<Rightarrow> hash32 list option \<Rightarrow> ('db, 'w, 'fl, 'h) pipe_env \<Rightarrow> u32 \<Rightarrow> u32 list
      \<Rightarrow> 'db utxo_store \<Rightarrow> 'h \<times> disk_recorder \<Rightarrow> run_error + ('db, 'w, 'fl, 'h) core" where
  "run_stages H F dir index orphans E start hs st host =
    (case parse_stage H F dir index orphans hs file_cache_new of (items, err) \<Rightarrow>
     case consume_ordered E start items st host of
       consumed \<Rightarrow>
         (case err of
            Some e \<Rightarrow> Inl e
          | None \<Rightarrow>
            res_bind (map_err RunPipe consumed) (\<lambda>(c, r). res_bind (map_err RunPipe r) (\<lambda>_. Inr c))))"

text \<open>The environment of the consumer for a configuration.\<close>

definition consumer_env :: "('db, 'w, 'fl, 'h) pipe_env \<Rightarrow> parse_config \<Rightarrow> u32 \<Rightarrow> ('db, 'w, 'fl, 'h) pipe_env" where
  "consumer_env E cfg end_h = E\<lparr>pe_out_dir := pc_out cfg, pe_blocks_per_part := pc_blocks_per_part cfg, pe_end := end_h\<rparr>"

text \<open>
  A whole run: the result of the header pass (\<open>build_chain_index\<close>) and the outside world are
  arguments; \<open>order\<close> is the order in which the workers finish their heights.
\<close>

definition run_parse ::
    "'f f64 \<Rightarrow> digests \<Rightarrow> fs \<Rightarrow> ('n, 'c, 'r) http_crate \<Rightarrow> serde \<Rightarrow> hex_crate \<Rightarrow> ('db, 'w, 'fl, 'h) pipe_env
      \<Rightarrow> (u32 list \<Rightarrow> u32 list) \<Rightarrow> blk_error + chain_index \<times> chain_build_stats \<Rightarrow> 'db rocks_admin \<Rightarrow> 'h
      \<Rightarrow> parse_config \<Rightarrow> 'n \<Rightarrow> ('n, run_error, ('db, 'w, 'fl, 'h) core) io" where
  "run_parse FL H F Q D X E order header_pass A w cfg n =
    io_bind (n, map_err RunBlk header_pass) (\<lambda>n (index, stats).
    io_bind (n, plan_range cfg index) (\<lambda>n (start, end_h).
    io_bind (n, disk_config F cfg) (\<lambda>n disk_cfg.
    io_bind (preflight_stage FL (pe_host E) w Q D X cfg disk_cfg n) (\<lambda>n orphans.
    io_bind (n, map_err RunUtxo (store_open A (pc_utxo cfg))) (\<lambda>n st.
    let heights = map (\<lambda>i. start + of_nat i) [0..<unat (end_h - start)];
        recorder = recorder_new (pe_host E) w disk_cfg
    in (n, run_stages H F (pc_blocks_dir cfg) index orphans (consumer_env E cfg end_h) start (order heights)
             st (w, recorder)))))))"

text \<open>\<open>inspect_block\<close>: one block, by height.\<close>

definition inspect_block :: "digests \<Rightarrow> fs \<Rightarrow> path \<Rightarrow> chain_index \<Rightarrow> u32 \<Rightarrow> run_error + hash32 \<times> full_block" where
  "inspect_block H F dir index height =
    (if unat height < length (by_height index) then
       let loc = by_height index ! unat height in
       res_bind (map_err RunBlk (blk_open F (blk_path dir (l_file_id loc)) (l_file_id loc))) (\<lambda>bf.
       res_bind (map_err RunBlk (block_bytes bf loc)) (\<lambda>bytes.
       if length bytes < 80 then Inl (HeaderSlicePanic (length bytes))
       else
         let header_raw = take 80 bytes; hash = dsha256 H header_raw in
         res_bind (map_err RunTx (parse_block_full H bytes height hash (header_parse header_raw)))
           (\<lambda>b. Inr (hash, b))))
     else Inl (HeightPanic height))"

section \<open>The workers without their cache\<close>

definition parse_direct :: "digests \<Rightarrow> fs \<Rightarrow> path \<Rightarrow> chain_index \<Rightarrow> hash32 list option \<Rightarrow> u32 \<Rightarrow> run_error + work_item" where
  "parse_direct H F dir index orphans height =
    (if unat height < length (by_height index)
     then res_bind (map_err RunBlk (read_direct F dir (by_height index ! unat height))) (parse_bytes H orphans height)
     else Inl (HeightPanic height))"

lemma parse_height_direct:
  assumes "quiet F dir c"
  shows "\<exists>c'. parse_height H F dir index orphans h c = (c', parse_direct H F dir index orphans h) \<and> quiet F dir c'"
proof (cases "unat h < length (by_height index)")
  case True
  let ?loc = "by_height index ! unat h"
  obtain c' r where c': "cache_block_bytes F dir ?loc c = (c', r)" by fastforce
  then have "read_direct F dir ?loc = r" "quiet F dir c'"
    using cache_block_bytes_direct [OF assms, of ?loc] by simp_all
  then show ?thesis using True c' by (cases r) (auto simp: parse_height_def parse_direct_def)
qed (use assms in \<open>auto simp: parse_height_def parse_direct_def\<close>)

lemma parse_stage_items:
  assumes "quiet F dir c" and "\<forall>h\<in>set hs. parse_direct H F dir index orphans h = Inr (item h)"
  shows "parse_stage H F dir index orphans hs c = (map item hs, None)"
  using assms
proof (induction hs arbitrary: c)
  case (Cons h hs)
  obtain c' where "parse_height H F dir index orphans h c = (c', Inr (item h))" "quiet F dir c'"
    using parse_height_direct [OF Cons.prems(1), of H index orphans h] Cons.prems(2) by auto
  then show ?case using Cons by simp
qed simp

lemma plan_range_order: "plan_range cfg index = Inr (start, end_h) \<Longrightarrow> start < end_h"
proof -
  assume p: "plan_range cfg index = Inr (start, end_h)"
  obtain tip a b where "tip_height index = Some tip" "a = min (pc_start cfg) tip"
    "b = min (case pc_end cfg of Some x \<Rightarrow> x | None \<Rightarrow> tip + 1) (tip + 1)"
    using p by (cases "tip_height index") (auto simp: plan_range_def)
  with p have "(if b \<le> a then Inl (EmptyRange a b) else Inr (a, b)) = Inr (start, end_h)"
    by (simp only: plan_range_def Let_def option.case)
  then show ?thesis by (auto split: if_splits)
qed

lemma plan_range_known:
  assumes "plan_range cfg index = Inr (start, end_h)" and "length (by_height index) < 2 ^ 32"
  shows "unat end_h \<le> length (by_height index)"
proof -
  let ?n = "length (by_height index)"
  have ne: "by_height index \<noteq> []" and le: "end_h \<le> of_nat (?n - 1) + 1"
    using assms(1) by (auto simp: plan_range_def tip_height_def Let_def split: option.splits if_splits)
  have "of_nat (?n - 1) + 1 = (of_nat ?n :: u32)" using ne by (cases "by_height index") simp_all
  then show ?thesis using le assms(2) by (simp add: word_le_nat_alt unat_of_nat_less)
qed

text \<open>The outcome of a run over blocks that all read and parse.\<close>

lemma bulk_parse_seq:
  assumes "plan_range cfg index = Inr (start, end_h)" and "disk_config F cfg = Inr dc"
    and "preflight_stage FL (pe_host E) w Q D X cfg dc n = (n', Inr orphans)"
    and "store_open A (pc_utxo cfg) = Inr st"
    and "length bs = unat (end_h - start)"
    and "\<forall>i<length bs. parse_direct H F (pc_blocks_dir cfg) index orphans (start + of_nat i)
           = Inr (Block (start + of_nat i) (bs ! i))"
    and "\<forall>hs. set (order hs) = set hs"
  shows "run_parse FL H F Q D X E order (Inr (index, stats)) A w cfg n = (n',
    res_bind (map_err RunPipe (consumer_init (consumer_env E cfg end_h) start st (w, recorder_new (pe_host E) w dc)))
      (\<lambda>s0. case seq_blocks (consumer_env E cfg end_h) bs (cs_core s0) of (c, r) \<Rightarrow>
         res_bind (map_err RunPipe r) (\<lambda>_. Inr c)))"
proof -
  let ?E = "consumer_env E cfg end_h" and ?host = "(w, recorder_new (pe_host E) w dc)"
  let ?hs = "map (\<lambda>i. start + of_nat i) [0..<unat (end_h - start)]"
  have lt: "start < end_h" by (rule plan_range_order [OF assms(1)])
  then have len: "unat start + length bs = unat (pe_end ?E)"
    using assms(5) unat_sub [of start end_h] by (simp add: consumer_env_def word_le_nat_alt word_less_nat_alt)
  then have ne: "bs \<noteq> []" using lt by (auto simp: consumer_env_def word_less_nat_alt)
  have inj: "start + of_nat i = start + of_nat j \<longleftrightarrow> i = j" if "i < length bs" "j < length bs" for i j
    using height_inject [of "pe_end ?E" start "length bs" i j] len that by (simp add: heights_ok_def)
  define item where "item h = Block h (bs ! unat (h - start))" for h
  have item: "item (start + of_nat i) = Block (start + of_nat i) (bs ! i)" if i: "i < length bs" for i
  proof -
    have "unat (end_h - start) < 2 ^ 32" using unsigned_less [of "end_h - start"] by simp
    then show ?thesis using i assms(5) by (simp add: item_def unat_of_nat_less)
  qed
  have "\<forall>h\<in>set (order ?hs). parse_direct H F (pc_blocks_dir cfg) index orphans h = Inr (item h)"
    using assms(5-7) item by auto
  from parse_stage_items [OF quiet_new this]
  have stage: "parse_stage H F (pc_blocks_dir cfg) index orphans (order ?hs) file_cache_new = (map item (order ?hs), None)" .
  have "set (map item (order ?hs)) = {Block (start + of_nat i) (bs ! i) | i. i < length bs}"
    using assms(5,7) item by (auto simp: image_iff) (metis atLeastLessThan_iff zero_le)
  from consume_any_items [OF len ne this, of st ?host] stage show ?thesis
    by (simp add: run_parse_def assms(1-4) run_stages_def Let_def split: prod.splits)
      (cases "consumer_init ?E start st ?host"; simp)
qed

section \<open>Properties\<close>


text \<open>Two empty blocks in one file, parsed in reverse order.\<close>

definition ex_payload :: bytes where
  "ex_payload = ser_block ex_header []"

definition ex_blocks :: "(u32 \<times> bytes) list" where
  "ex_blocks = [(BLOCK_MAGIC, ex_payload), (BLOCK_MAGIC, ex_payload)]"

definition ex_index :: chain_index where
  "ex_index = \<lparr>by_height = map br_location (frame_records pad_digests 0 0 ex_blocks), hash_to_height = []\<rparr>"

definition ex_stats :: chain_build_stats where
  "ex_stats = \<lparr>cbs_total_records = 2, cbs_unique_blocks = 2, cbs_orphans = 0, cbs_files_scanned = 1,
     cbs_tip_height = 1, cbs_tip_hash = Hash32_ZERO\<rparr>"

definition ex_config :: parse_config where
  "ex_config = \<lparr>pc_blocks_dir = [''blocks''], pc_out = [''out''], pc_utxo = [''data'', ''utxo''], pc_start = 0,
     pc_end = None, pc_blocks_per_part = 1000, pc_threads = None, pc_rpc_url = None, pc_rpc_cookie = None,
     pc_skip_disk_check = True, pc_checkpoint_file = None, pc_network = Some Mainnet, pc_orphan_blocks = None\<rparr>"

lemma ex_header_ok: "header_ok ex_header"
  by (simp add: header_ok_def ex_header_def)

lemma length_ex_payload: "length ex_payload = 81"
  using length_header_bytes [OF ex_header_ok]
  by (simp add: ex_payload_def ser_block_def compact_size_def BLOCK_HEADER_LEN_def)

lemma ex_parse_bytes:
  "\<exists>b. parse_bytes pad_digests None h ex_payload = Inr (Block h b) \<and> fb_txs b = [] \<and> fb_inputs b = []
    \<and> fb_outputs b = [] \<and> op_ok (PushBlock ((fb_block_row b)\<lparr>b_total_fee := 0\<rparr>))"
proof -
  let ?hdr = "header_bytes ex_header"
  have "take 80 ex_payload = ?hdr"
    using length_header_bytes [OF ex_header_ok] by (simp add: ex_payload_def ser_block_def BLOCK_HEADER_LEN_def)
  moreover have "header_parse ?hdr = ex_header" using parse_header_bytes [OF ex_header_ok, of "[]"] by simp
  moreover note parse_block_ser [OF ex_header_ok, of "[]" pad_digests "[]" h "dsha256 pad_digests ?hdr"]
  moreover have "length (dsha256 pad_digests ?hdr) = 32" by (simp add: dsha256_def pad_digests_def)
  moreover have "length (h_prev_hash ex_header) = 32" "length (h_merkle_root ex_header) = 32"
    using ex_header_ok by (simp_all add: header_ok_def)
  moreover have "\<not> length (ser_block ex_header []) < 80" using length_ex_payload by (simp add: ex_payload_def)
  moreover have "block_rows pad_digests h 0 [] = []" by (simp add: block_rows_def)
  ultimately show ?thesis by (simp add: parse_bytes_def ex_payload_def Let_def)
qed

lemma ex_read:
  assumes "i < 2"
  shows "read_direct (chain_fs ex_blocks) dir (by_height ex_index ! i) = Inr ex_payload"
proof -
  have ok: "list_all frame_ok ex_blocks" "ex_blocks \<noteq> []"
    by (simp_all add: ex_blocks_def frame_ok_def is_known_network_magic_def BLOCK_HEADER_LEN_def length_ex_payload)
  have xk: "read_xor_key (chain_fs ex_blocks) p = None" for p
    by (simp add: read_xor_key_def chain_fs_def split: option.splits)
  have "fs_mmap (chain_fs ex_blocks) p = Inr (on_disk (read_xor_key (chain_fs ex_blocks) p) (concat (map frame ex_blocks) @ []))" for p
    by (simp add: xk on_disk_def) (simp add: chain_fs_def)
  moreover have "no_record []" by (simp add: no_record_def)
  ultimately obtain f where f: "blk_open (chain_fs ex_blocks) (blk_path dir 0) 0 = Inr f" "blk_data f = concat (map frame ex_blocks)"
    using open_exact [OF _ ok] by metis
  have "length (blk_data f) < 2 ^ 64" by (simp add: f ex_blocks_def length_frame length_ex_payload)
  then have "map (\<lambda>rec. block_bytes f (br_location rec)) (frame_records pad_digests 0 0 ex_blocks) = map (Inr \<circ> snd) ex_blocks"
    using block_bytes_frames [OF ok(1), of f "[]" "[]" pad_digests 0] f(2) by simp
  then have "block_bytes f (by_height ex_index ! i) = Inr ex_payload"
    using assms by (auto simp: ex_index_def ex_blocks_def less_2_cases_iff)
  moreover have "l_file_id (by_height ex_index ! i) = 0"
    using assms by (auto simp: ex_index_def ex_blocks_def less_2_cases_iff frame_record_def)
  ultimately show ?thesis using f by (simp add: read_direct_def)
qed

lemma ex_store_open: "store_open (map_admin (\<lambda>_. Map.empty)) (pc_utxo ex_config) = Inr ex_store"
  by (simp add: store_open_def open_with_def map_admin_def ex_store_def ex_config_def split: prod.splits)


end
