(* ===== verification/Cli_Backpressure.thy ===== *)
theory Cli_Backpressure
  imports Cli_Pipeline "HOL-Library.Multiset"
begin

text \<open>
  The backpressure protocol between the parse workers of \<open>run_parse\<close> and the ordered consumer of
  \<open>bidx-cli/src/pipeline.rs\<close>. A worker that has been given a height waits while the reorder buffer
  holds more than \<open>REORDER_HIGH\<close> blocks and its height is not the one the consumer waits for; then it
  parses the block and sends it over a channel of \<open>CHANNEL_DEPTH\<close> messages. The consumer receives one
  message, moves past skipped heights, drains the buffer and receives again.

  The state keeps the heights where the code keeps them: \<open>bp_todo\<close> (not yet handed to a worker by
  the thread pool, in any order the pool likes), \<open>bp_waiting\<close> and \<open>bp_passed\<close> (held by a worker in
  its wait loop or behind it), \<open>bp_chan\<close>, the consumer's \<open>bp_buffer\<close> and \<open>bp_skipped\<close>, and
  \<open>bp_lost\<close> (its worker has returned an error). \<open>bp_depth\<close> and \<open>bp_next\<close> are the two shared atomics.
  A pass through the wait loop reads one of them at a time; whichever read lets the worker go, the
  step \<open>wk_pass\<close> is taken at that read. Heights are natural numbers: they stay in the range of
  the run. \<open>bp_work\<close> is the normal operation, \<open>bp_step\<close> adds spinning, failures and the watchdog.
\<close>

section \<open>State\<close>

datatype bp_msg = MBlock nat | MSkip nat

fun msg_height :: "bp_msg \<Rightarrow> nat" where
  "msg_height (MBlock h) = h"
| "msg_height (MSkip h) = h"

datatype cons_pc = CRecv | CSkip | CDrain | CApply | CDone

record bp_sys =
  bp_todo :: "nat multiset"
  bp_waiting :: "nat multiset"
  bp_passed :: "nat multiset"
  bp_lost :: "nat multiset"
  bp_chan :: "bp_msg list"
  bp_buffer :: "nat multiset"
  bp_skipped :: "nat multiset"
  bp_depth :: nat
  bp_next :: nat
  bp_cpc :: cons_pc
  bp_tripped :: bool

definition bp_init :: "nat \<Rightarrow> nat \<Rightarrow> bp_sys" where
  "bp_init start end_h = \<lparr>bp_todo = mset [start..<end_h], bp_waiting = {#}, bp_passed = {#}, bp_lost = {#},
     bp_chan = [], bp_buffer = {#}, bp_skipped = {#}, bp_depth = 0, bp_next = start, bp_cpc = CRecv,
     bp_tripped = False\<rparr>"

text \<open>The condition of the wait loop.\<close>

definition parked :: "bp_sys \<Rightarrow> nat \<Rightarrow> bool" where
  "parked s h \<longleftrightarrow> REORDER_HIGH < bp_depth s \<and> bp_next s \<noteq> h"

definition worker_msg :: "(nat \<Rightarrow> bool) \<Rightarrow> nat \<Rightarrow> bp_msg" where
  "worker_msg orphan h = (if orphan h then MSkip h else MBlock h)"

text \<open>Moving on to the next height; the consumer returns at the end of the range.\<close>

definition bp_advance :: "nat \<Rightarrow> cons_pc \<Rightarrow> bp_sys \<Rightarrow> bp_sys" where
  "bp_advance end_h pc s =
    s\<lparr>bp_next := bp_next s + 1, bp_cpc := (if end_h \<le> bp_next s + 1 then CDone else pc)\<rparr>"

section \<open>Steps\<close>

inductive bp_work :: "nat \<Rightarrow> (nat \<Rightarrow> bool) \<Rightarrow> nat \<Rightarrow> bp_sys \<Rightarrow> bp_sys \<Rightarrow> bool"
  for threads orphan end_h where
  wk_take: "h \<in># bp_todo s \<Longrightarrow> size (bp_waiting s) + size (bp_passed s) < threads \<Longrightarrow>
     bp_work threads orphan end_h s (s\<lparr>bp_todo := bp_todo s - {#h#}, bp_waiting := add_mset h (bp_waiting s)\<rparr>)"
| wk_pass: "h \<in># bp_waiting s \<Longrightarrow> \<not> parked s h \<Longrightarrow>
     bp_work threads orphan end_h s
       (s\<lparr>bp_waiting := bp_waiting s - {#h#}, bp_passed := add_mset h (bp_passed s)\<rparr>)"
| wk_send: "h \<in># bp_passed s \<Longrightarrow> length (bp_chan s) < CHANNEL_DEPTH \<Longrightarrow> bp_cpc s \<noteq> CDone \<Longrightarrow>
     bp_work threads orphan end_h s
       (s\<lparr>bp_passed := bp_passed s - {#h#}, bp_chan := bp_chan s @ [worker_msg orphan h]\<rparr>)"
| cs_block: "bp_cpc s = CRecv \<Longrightarrow> bp_chan s = MBlock h # ms \<Longrightarrow>
     bp_work threads orphan end_h s (s\<lparr>bp_chan := ms, bp_buffer := add_mset h (bp_buffer s),
       bp_depth := bp_depth s + 1, bp_cpc := CSkip\<rparr>)"
| cs_marker: "bp_cpc s = CRecv \<Longrightarrow> bp_chan s = MSkip h # ms \<Longrightarrow>
     bp_work threads orphan end_h s (s\<lparr>bp_chan := ms, bp_skipped := add_mset h (bp_skipped s), bp_cpc := CSkip\<rparr>)"
| cs_skip: "bp_cpc s = CSkip \<Longrightarrow> bp_next s \<in># bp_skipped s \<Longrightarrow>
     bp_work threads orphan end_h s (bp_advance end_h CSkip (s\<lparr>bp_skipped := bp_skipped s - {#bp_next s#}\<rparr>))"
| cs_skipped: "bp_cpc s = CSkip \<Longrightarrow> bp_next s \<notin># bp_skipped s \<Longrightarrow>
     bp_work threads orphan end_h s (s\<lparr>bp_cpc := CDrain\<rparr>)"
| cs_take: "bp_cpc s = CDrain \<Longrightarrow> bp_next s \<in># bp_buffer s \<Longrightarrow> \<not> bp_tripped s \<Longrightarrow>
     bp_work threads orphan end_h s (s\<lparr>bp_buffer := bp_buffer s - {#bp_next s#},
       bp_depth := bp_depth s - 1, bp_cpc := CApply\<rparr>)"
| cs_drained: "bp_cpc s = CDrain \<Longrightarrow> bp_next s \<notin># bp_buffer s \<Longrightarrow>
     bp_work threads orphan end_h s (s\<lparr>bp_cpc := CRecv\<rparr>)"
| cs_apply: "bp_cpc s = CApply \<Longrightarrow> bp_work threads orphan end_h s (bp_advance end_h CDrain s)"
| cs_closed: "bp_cpc s = CRecv \<Longrightarrow> bp_chan s = [] \<Longrightarrow> bp_todo s = {#} \<Longrightarrow> bp_waiting s = {#} \<Longrightarrow>
     bp_passed s = {#} \<Longrightarrow> bp_work threads orphan end_h s (s\<lparr>bp_cpc := CDone\<rparr>)"

inductive bp_step :: "nat \<Rightarrow> (nat \<Rightarrow> bool) \<Rightarrow> nat \<Rightarrow> bp_sys \<Rightarrow> bp_sys \<Rightarrow> bool"
  for threads orphan end_h where
  bp_normal: "bp_work threads orphan end_h s t \<Longrightarrow> bp_step threads orphan end_h s t"
| wk_spin: "h \<in># bp_waiting s \<Longrightarrow> parked s h \<Longrightarrow> \<not> bp_tripped s \<Longrightarrow> bp_step threads orphan end_h s s"
| wk_abort: "h \<in># bp_waiting s \<Longrightarrow> parked s h \<Longrightarrow> bp_tripped s \<Longrightarrow>
     bp_step threads orphan end_h s (s\<lparr>bp_waiting := bp_waiting s - {#h#}, bp_lost := add_mset h (bp_lost s)\<rparr>)"
| wk_fail: "h \<in># bp_passed s \<Longrightarrow>
     bp_step threads orphan end_h s (s\<lparr>bp_passed := bp_passed s - {#h#}, bp_lost := add_mset h (bp_lost s)\<rparr>)"
| cs_fail: "bp_cpc s \<in> {CSkip, CApply} \<Longrightarrow> bp_step threads orphan end_h s (s\<lparr>bp_cpc := CDone\<rparr>)"
| cs_trip: "bp_cpc s = CDrain \<Longrightarrow> bp_next s \<in># bp_buffer s \<Longrightarrow> bp_tripped s \<Longrightarrow>
     bp_step threads orphan end_h s (s\<lparr>bp_buffer := bp_buffer s - {#bp_next s#}, bp_cpc := CDone\<rparr>)"
| wd_trip: "bp_step threads orphan end_h s (s\<lparr>bp_tripped := True\<rparr>)"

inductive_cases bp_workE: "bp_work threads orphan end_h s t"
inductive_cases bp_stepE: "bp_step threads orphan end_h s t"

definition bp_reachable :: "nat \<Rightarrow> (nat \<Rightarrow> bool) \<Rightarrow> nat \<Rightarrow> nat \<Rightarrow> bp_sys \<Rightarrow> bool" where
  "bp_reachable threads orphan start end_h s \<longleftrightarrow> (bp_step threads orphan end_h)\<^sup>*\<^sup>* (bp_init start end_h) s"

section \<open>Where the heights are\<close>

definition in_flight_heights :: "bp_sys \<Rightarrow> nat multiset" where
  "in_flight_heights s = bp_passed s + mset (map msg_height (bp_chan s))"

definition places :: "bp_sys \<Rightarrow> nat multiset" where
  "places s = bp_todo s + bp_waiting s + in_flight_heights s + bp_buffer s + bp_skipped s"

definition once :: "bp_sys \<Rightarrow> bool" where
  "once s \<longleftrightarrow> (\<forall>h. count (places s) h \<le> 1) \<and> (bp_cpc s = CApply \<longrightarrow> bp_next s \<notin># places s)"

lemma msg_height_worker [simp]: "msg_height (worker_msg orphan h) = h"
  by (simp add: worker_msg_def)

lemmas bp_defs = places_def in_flight_heights_def bp_advance_def

lemma minus_member: "h \<in># M \<Longrightarrow> count (M - {#h#}) x + (if x = h then 1 else 0) = count M x"
  using count_greater_zero_iff [of M h] by (auto simp del: count_greater_zero_iff)

lemma work_places:
  assumes "bp_work T orphan e s t"
  shows "count (places t) x \<le> count (places s) x"
  using assms
  by cases (auto simp: bp_defs dest!: minus_member [of _ _ x] split: if_splits)

lemma step_places:
  assumes "bp_step T orphan e s t"
  shows "count (places t) x \<le> count (places s) x"
  using assms
proof cases
  case bp_normal
  then show ?thesis by (rule work_places)
qed (auto simp: bp_defs dest!: minus_member [of _ _ x] split: if_splits)

lemma step_once:
  assumes "bp_step T orphan e s t" and "once s"
  shows "once t"
proof -
  have "count (places t) h \<le> 1" for h
    using step_places [OF assms(1), of h] assms(2) unfolding once_def by (meson le_trans)
  moreover have "bp_next t \<notin># places t" if c: "bp_cpc t = CApply"
  proof (cases "bp_cpc s = CApply")
    case True
    then have "bp_next t = bp_next s" using assms(1) c
      by (auto elim!: bp_stepE bp_workE simp: bp_advance_def split: if_splits)
    then show ?thesis
      using True assms(2) step_places [OF assms(1), of "bp_next s"] by (auto simp: once_def not_in_iff)
  next
    case False
    then have "bp_next s \<in># bp_buffer s" "bp_next t = bp_next s" "bp_buffer t = bp_buffer s - {#bp_next s#}"
      "places s = add_mset (bp_next s) (places t)"
      using assms(1) c by (auto elim!: bp_stepE bp_workE simp: bp_defs split: if_splits)
    moreover have "count (places s) (bp_next s) \<le> 1" using assms(2) by (simp add: once_def)
    ultimately show ?thesis by (simp add: not_in_iff)
  qed
  ultimately show ?thesis by (simp add: once_def)
qed

section \<open>How full the reorder buffer gets\<close>

definition room_ok :: "nat \<Rightarrow> bp_sys \<Rightarrow> bool" where
  "room_ok threads s \<longleftrightarrow> size (bp_waiting s) + size (bp_passed s) \<le> threads
     \<and> length (bp_chan s) \<le> CHANNEL_DEPTH"

definition others :: "bp_sys \<Rightarrow> nat" where
  "others s = size (filter_mset (\<lambda>h. h \<noteq> bp_next s) (in_flight_heights s))"

definition depth_ok :: "nat \<Rightarrow> bp_sys \<Rightarrow> bool" where
  "depth_ok threads s \<longleftrightarrow>
     (bp_cpc s \<noteq> CDone \<longrightarrow> bp_depth s + others s
        \<le> REORDER_HIGH + CHANNEL_DEPTH + threads + (if bp_next s \<in># bp_buffer s then 1 else 0))
   \<and> bp_depth s \<le> REORDER_HIGH + CHANNEL_DEPTH + threads + 1"

lemma step_room:
  assumes "bp_step T orphan e s t" and "room_ok T s"
  shows "room_ok T t"
  using assms
  by (auto elim!: bp_stepE bp_workE simp: room_ok_def bp_advance_def dest!: size_Suc_Diff1)

lemma others_le: "room_ok T s \<Longrightarrow> others s \<le> CHANNEL_DEPTH + T"
proof -
  assume w: "room_ok T s"
  have "others s \<le> size (in_flight_heights s)" unfolding others_def by (rule size_filter_mset_lesseq)
  also have "\<dots> = size (bp_passed s) + length (bp_chan s)" by (simp add: in_flight_heights_def)
  finally show ?thesis using w by (simp add: room_ok_def)
qed

lemma others_mono:
  assumes "in_flight_heights t \<subseteq># in_flight_heights s" and "bp_next t = bp_next s"
  shows "others t \<le> others s"
  unfolding others_def assms(2) by (intro size_mset_mono multiset_filter_mono assms(1))

lemma others_all: "bp_next s \<notin># in_flight_heights s \<Longrightarrow> others s = size (in_flight_heights s)"
proof -
  assume "bp_next s \<notin># in_flight_heights s"
  then have "filter_mset (\<lambda>h. h \<noteq> bp_next s) (in_flight_heights s) = in_flight_heights s"
    by (intro filter_mset_eq_conv [THEN iffD2]) auto
  then show ?thesis by (simp add: others_def)
qed

lemma others_advance:
  assumes "bp_next s \<notin># in_flight_heights s"
  shows "others (bp_advance e pc s) \<le> others s"
  using size_filter_mset_lesseq [of _ "in_flight_heights s"]
  unfolding others_all [OF assms] by (simp add: others_def bp_advance_def in_flight_heights_def)

lemma once_apart:
  assumes "once s" and "h \<in># bp_skipped s \<or> h \<in># bp_buffer s"
  shows "h \<notin># in_flight_heights s" and "\<not> (h \<in># bp_skipped s \<and> h \<in># bp_buffer s)"
proof -
  have "count (places s) h \<le> 1" using assms(1) by (simp add: once_def)
  then have "count (in_flight_heights s) h + count (bp_buffer s) h + count (bp_skipped s) h \<le> 1"
    by (simp add: places_def)
  moreover have "1 \<le> count (bp_skipped s) h \<or> 1 \<le> count (bp_buffer s) h"
    using assms(2) by (simp add: Suc_le_eq)
  ultimately show "h \<notin># in_flight_heights s" "\<not> (h \<in># bp_skipped s \<and> h \<in># bp_buffer s)"
    by (auto simp: not_in_iff Suc_le_eq simp flip: count_greater_zero_iff)
qed

lemma once_buffer: "once s \<Longrightarrow> count (bp_buffer s) h \<le> 1"
proof -
  assume "once s"
  then have "count (places s) h \<le> 1" by (simp add: once_def)
  then show ?thesis by (simp add: places_def)
qed

lemma once_message:
  assumes "once s" and "bp_chan s = m # ms"
  shows "msg_height m \<notin># bp_buffer s"
    and "count (in_flight_heights s) (msg_height m) = 1"
proof -
  have "count (places s) (msg_height m) \<le> 1" using assms(1) by (simp add: once_def)
  then show "msg_height m \<notin># bp_buffer s" "count (in_flight_heights s) (msg_height m) = 1"
    by (auto simp: places_def in_flight_heights_def assms(2) not_in_iff)
qed

lemma work_depth:
  assumes "bp_work T orphan e s t" and "once s" "room_ok T s" "room_ok T t" "depth_ok T s"
  shows "depth_ok T t"
  using assms(1)
proof cases
  case (wk_take h)
  have "others t = others s" by (simp add: wk_take others_def in_flight_heights_def)
  then show ?thesis using assms(5) by (simp add: wk_take depth_ok_def)
next
  case (wk_pass h)
  show ?thesis
  proof (cases "bp_next s = h")
    case True
    have "others t = others s" by (simp add: wk_pass others_def in_flight_heights_def True)
    then show ?thesis using assms(5) by (simp add: wk_pass depth_ok_def)
  next
    case False
    then have "bp_depth t \<le> REORDER_HIGH" using wk_pass by (simp add: parked_def)
    then show ?thesis using others_le [OF assms(4)] by (simp add: depth_ok_def)
  qed
next
  case (wk_send h)
  have "in_flight_heights t = in_flight_heights s" using wk_send by (simp add: in_flight_heights_def)
  then have "others t = others s" using wk_send by (simp add: others_def)
  then show ?thesis using assms(5) by (simp add: wk_send depth_ok_def)
next
  case (cs_block h ms)
  have fl: "in_flight_heights s = add_mset h (in_flight_heights t)" using cs_block by (simp add: in_flight_heights_def)
  have nb: "h \<notin># bp_buffer s" using once_message [OF assms(2) cs_block(3)] by simp
  have "others s = others t + (if h = bp_next s then 0 else 1)" using cs_block fl by (simp add: others_def)
  then show ?thesis using assms(5) nb cs_block by (cases "h = bp_next s") (auto simp: depth_ok_def split: if_splits)
next
  case (cs_marker h ms)
  then have "others t \<le> others s" by (intro others_mono) (simp_all add: in_flight_heights_def)
  then show ?thesis using assms(5) cs_marker by (auto simp: depth_ok_def)
next
  case cs_skip
  note ap = once_apart [OF assms(2), of "bp_next s"]
  have "others t \<le> others s"
    unfolding cs_skip(1) using ap cs_skip by (intro order_trans [OF others_advance]) (simp_all add: others_def in_flight_heights_def)
  then show ?thesis using assms(5) cs_skip ap by (auto simp: depth_ok_def bp_advance_def split: if_splits)
next
  case cs_skipped
  then show ?thesis using assms(5) by (simp add: depth_ok_def others_def in_flight_heights_def)
next
  case cs_take
  have ot: "others t = others s" by (simp add: cs_take others_def in_flight_heights_def)
  have "bp_next s \<notin># bp_buffer s - {#bp_next s#}"
    using once_buffer [OF assms(2), of "bp_next s"] by (simp add: not_in_iff)
  then show ?thesis using assms(5) ot others_le [OF assms(3)] cs_take by (auto simp: depth_ok_def)
next
  case cs_drained
  then show ?thesis using assms(5) by (simp add: depth_ok_def others_def in_flight_heights_def)
next
  case cs_apply
  have "bp_next s \<notin># places s" using assms(2) cs_apply by (simp add: once_def)
  then have "others t \<le> others s" unfolding cs_apply(1) by (intro others_advance) (simp add: places_def)
  moreover have "bp_next s \<notin># bp_buffer s" using \<open>bp_next s \<notin># places s\<close> by (simp add: places_def)
  ultimately show ?thesis using assms(5) cs_apply by (auto simp: depth_ok_def bp_advance_def)
next
  case cs_closed
  then show ?thesis using assms(5) by (simp add: depth_ok_def)
qed

lemma step_depth:
  assumes "bp_step T orphan e s t" and "once s" "room_ok T s" "depth_ok T s"
  shows "depth_ok T t"
proof -
  have rt: "room_ok T t" by (rule step_room [OF assms(1,3)])
  from assms(1) show ?thesis
  proof cases
    case bp_normal
    then show ?thesis by (rule work_depth [OF _ assms(2,3) rt assms(4)])
  next
    case (wk_abort h)
    have "others t = others s" by (simp add: wk_abort others_def in_flight_heights_def)
    then show ?thesis using assms(4) by (simp add: wk_abort depth_ok_def)
  next
    case (wk_fail h)
    have "in_flight_heights t \<subseteq># in_flight_heights s" by (simp add: wk_fail in_flight_heights_def)
    then have "others t \<le> others s" by (rule others_mono) (simp add: wk_fail)
    then show ?thesis using assms(4) by (auto simp: wk_fail depth_ok_def)
  next
    case wd_trip
    have "others t = others s" by (simp add: wd_trip others_def in_flight_heights_def)
    then show ?thesis using assms(4) by (simp add: wd_trip depth_ok_def)
  qed (use assms(4) in \<open>auto simp: depth_ok_def\<close>)
qed

section \<open>Nothing gets lost unnoticed\<close>

text \<open>While the consumer runs, every height from the next one on is somewhere, or its worker failed.\<close>

definition kept :: "nat \<Rightarrow> bp_sys \<Rightarrow> bool" where
  "kept e s \<longleftrightarrow> bp_cpc s \<noteq> CDone \<longrightarrow> bp_next s < e
     \<and> (\<forall>h. bp_next s \<le> h \<and> h < e \<longrightarrow> h \<in># places s + bp_lost s \<or> bp_cpc s = CApply \<and> h = bp_next s)
     \<and> (bp_cpc s = CRecv \<longrightarrow> bp_next s \<notin># bp_buffer s)"

lemma work_conserves:
  assumes "bp_work T orphan e s t" and "h \<noteq> bp_next s \<or> bp_cpc t \<notin> {CApply, CDone} \<and> bp_next t = bp_next s"
  shows "count (places t + bp_lost t) h = count (places s + bp_lost s) h"
  using assms
  by cases (auto simp: bp_defs dest!: minus_member [of _ _ h] split: if_splits)

lemma step_conserves:
  assumes "bp_step T orphan e s t" and "h \<noteq> bp_next s \<or> bp_cpc t \<notin> {CApply, CDone} \<and> bp_next t = bp_next s"
  shows "count (places t + bp_lost t) h = count (places s + bp_lost s) h"
  using assms(1)
proof cases
  case bp_normal
  then show ?thesis by (rule work_conserves) (rule assms(2))
qed (use assms(2) in \<open>auto simp: bp_defs dest!: minus_member [of _ _ h] split: if_splits\<close>)

lemma step_next:
  "bp_step T orphan e s t \<Longrightarrow> bp_next t = bp_next s \<or> bp_next t = bp_next s + 1 \<and> (bp_cpc t \<noteq> CDone \<longrightarrow> bp_next t < e)"
  by (auto elim!: bp_stepE bp_workE simp: bp_advance_def split: if_splits)

lemma step_running: "bp_step T orphan e s t \<Longrightarrow> bp_cpc t \<noteq> CDone \<Longrightarrow> bp_cpc s \<noteq> CDone"
  by (auto elim!: bp_stepE bp_workE simp: bp_advance_def split: if_splits)

lemma step_leaves_apply:
  "bp_step T orphan e s t \<Longrightarrow> bp_cpc s = CApply \<Longrightarrow> bp_cpc t \<noteq> CDone \<Longrightarrow>
    bp_next t = bp_next s \<and> bp_cpc t = CApply \<or> bp_next t = bp_next s + 1"
  by (auto elim!: bp_stepE bp_workE simp: bp_advance_def split: if_splits)

lemma step_receiving:
  "bp_step T orphan e s t \<Longrightarrow> bp_cpc t = CRecv \<Longrightarrow> (bp_cpc s = CRecv \<longrightarrow> bp_next s \<notin># bp_buffer s) \<Longrightarrow>
    bp_next t \<notin># bp_buffer t"
  by (auto elim!: bp_stepE bp_workE simp: bp_advance_def split: if_splits)

lemma step_kept:
  assumes "bp_step T orphan e s t" and "kept e s"
  shows "kept e t"
  unfolding kept_def
proof (intro impI conjI allI)
  assume run: "bp_cpc t \<noteq> CDone"
  have rs: "bp_cpc s \<noteq> CDone" by (rule step_running [OF assms(1) run])
  then have k: "bp_next s < e" "\<And>h. bp_next s \<le> h \<Longrightarrow> h < e \<Longrightarrow>
      h \<in># places s + bp_lost s \<or> bp_cpc s = CApply \<and> h = bp_next s"
      "bp_cpc s = CRecv \<Longrightarrow> bp_next s \<notin># bp_buffer s"
    using assms(2) by (auto simp: kept_def)
  show "bp_next t < e" using step_next [OF assms(1)] run k(1) by auto
  show "bp_next t \<notin># bp_buffer t" if "bp_cpc t = CRecv" using step_receiving [OF assms(1) that] k(3) by blast
  fix h assume h: "bp_next t \<le> h \<and> h < e"
  have ge: "bp_next s \<le> h" using h step_next [OF assms(1)] by auto
  show "h \<in># places t + bp_lost t \<or> bp_cpc t = CApply \<and> h = bp_next t"
  proof (cases "h = bp_next s")
    case False
    then have "h \<in># places s + bp_lost s" using k(2) [OF ge] h by blast
    then have "0 < count (places t + bp_lost t) h"
      unfolding step_conserves [OF assms(1) disjI1 [OF False]] by (simp only: count_greater_zero_iff)
    then show ?thesis unfolding count_greater_zero_iff by (rule disjI1)
  next
    case True
    then have nx: "bp_next t = bp_next s" using h step_next [OF assms(1)] by auto
    show ?thesis
    proof (cases "bp_cpc t = CApply")
      case False
      then have "bp_cpc s \<noteq> CApply" using step_leaves_apply [OF assms(1) _ run] nx by auto
      then have "h \<in># places s + bp_lost s" using k(2) [OF ge] h by blast
      moreover have "count (places t + bp_lost t) h = count (places s + bp_lost s) h"
        by (rule step_conserves [OF assms(1)]) (use False run nx in simp)
      ultimately show ?thesis by (metis count_greater_zero_iff)
    qed (use True nx in simp)
  qed
qed

section \<open>Reachable states\<close>

definition bp_inv :: "nat \<Rightarrow> nat \<Rightarrow> bp_sys \<Rightarrow> bool" where
  "bp_inv threads e s \<longleftrightarrow> once s \<and> room_ok threads s \<and> depth_ok threads s \<and> kept e s"

lemma init_inv: "start < e \<Longrightarrow> bp_inv T e (bp_init start e)"
proof -
  assume "start < e"
  moreover have "count (mset [start..<e]) h \<le> 1" for h
    using distinct_count_atmost_1 [of "[start..<e]"] by simp
  ultimately show ?thesis
    by (simp add: bp_inv_def once_def room_ok_def depth_ok_def kept_def bp_init_def bp_defs others_def)
qed

lemma reachable_inv:
  assumes "bp_reachable T orphan start e s" and "start < e"
  shows "bp_inv T e s"
  using assms(1) unfolding bp_reachable_def
proof (induction rule: rtranclp_induct)
  case base
  show ?case by (rule init_inv [OF assms(2)])
next
  case (step s t)
  then show ?case
    using step_once step_room step_depth step_kept unfolding bp_inv_def by blast
qed

text \<open>Without orphans no message is a skip marker.\<close>

lemma reachable_no_markers:
  assumes "bp_reachable T (\<lambda>_. False) start e s"
  shows "bp_skipped s = {#}" and "list_all (\<lambda>m. \<exists>h. m = MBlock h) (bp_chan s)"
proof -
  have "bp_skipped s = {#} \<and> list_all (\<lambda>m. \<exists>h. m = MBlock h) (bp_chan s)"
    using assms unfolding bp_reachable_def
  proof (induction rule: rtranclp_induct)
    case base
    show ?case by (simp add: bp_init_def)
  next
    case (step s t)
    then show ?case by (auto elim!: bp_stepE bp_workE simp: bp_advance_def worker_msg_def)
  qed
  then show "bp_skipped s = {#}" "list_all (\<lambda>m. \<exists>h. m = MBlock h) (bp_chan s)" by auto
qed

section \<open>Progress\<close>

fun pc_weight :: "cons_pc \<Rightarrow> nat" where
  "pc_weight CDone = 0"
| "pc_weight CRecv = 1"
| "pc_weight CDrain = 2"
| "pc_weight CSkip = 3"
| "pc_weight CApply = 3"

definition work_left :: "bp_sys \<Rightarrow> nat" where
  "work_left s = 8 * size (bp_todo s) + 7 * size (bp_waiting s) + 6 * size (bp_passed s) + 5 * length (bp_chan s)
     + 2 * size (bp_buffer s) + size (bp_skipped s) + pc_weight (bp_cpc s)"

lemma work_decreases: "bp_work T orphan e s t \<Longrightarrow> work_left t < work_left s"
  by (erule bp_workE) (auto simp: work_left_def bp_advance_def dest!: size_Suc_Diff1)

lemma recv_progress:
  assumes "bp_cpc s = CRecv" and "kept e s" and "bp_skipped s = {#}"
    and "bp_next s \<notin># bp_todo s" and "bp_next s \<notin># bp_lost s"
  shows "\<exists>t. bp_work T orphan e s t"
proof (cases "bp_chan s")
  case (Cons m ms)
  then show ?thesis
    using assms(1) bp_work.cs_block bp_work.cs_marker by (cases m) blast+
next
  case Nil
  show ?thesis
  proof (cases "bp_passed s = {#}")
    case False
    then obtain h where "h \<in># bp_passed s" by blast
    then show ?thesis using bp_work.wk_send [of h s] assms(1) Nil by (force simp: CHANNEL_DEPTH_def)
  next
    case True
    have "bp_next s < e" "\<And>h. bp_next s \<le> h \<Longrightarrow> h < e \<Longrightarrow> h \<in># places s + bp_lost s" "bp_next s \<notin># bp_buffer s"
      using assms(1,2) by (auto simp: kept_def)
    then have "bp_next s \<in># bp_waiting s"
      using assms(3-5) True Nil by (auto simp: places_def in_flight_heights_def)
    moreover have "\<not> parked s (bp_next s)" by (simp add: parked_def)
    ultimately show ?thesis using bp_work.wk_pass by blast
  qed
qed

lemma work_progress:
  assumes "bp_reachable T (\<lambda>_. False) start e s" and "start < e"
    and "bp_cpc s \<noteq> CDone" and "\<not> bp_tripped s" and "bp_next s \<notin># bp_todo s" and "bp_next s \<notin># bp_lost s"
  shows "\<exists>t. bp_work T (\<lambda>_. False) e s t"
proof (cases "bp_cpc s")
  case CRecv
  then show ?thesis
    using recv_progress reachable_inv [OF assms(1,2)] reachable_no_markers [OF assms(1)] assms(5,6)
    unfolding bp_inv_def by blast
next
  case CSkip
  then show ?thesis using bp_work.cs_skip bp_work.cs_skipped by blast
next
  case CDrain
  then show ?thesis using bp_work.cs_take bp_work.cs_drained assms(4) by blast
next
  case CApply
  then show ?thesis using bp_work.cs_apply by blast
qed (use assms(3) in simp)

section \<open>Stalls\<close>

text \<open>The consumer has returned, or the height it waits for is nowhere any more.\<close>

definition stalled :: "bp_sys \<Rightarrow> bool" where
  "stalled s \<longleftrightarrow> REORDER_HIGH < bp_depth s
     \<and> (bp_cpc s = CDone \<or> bp_cpc s \<noteq> CApply \<and> bp_next s \<notin># places s)"

lemma stalled_step:
  assumes "stalled s" and "bp_step T orphan e s t"
  shows "stalled t" and "bp_next t = bp_next s"
proof -
  have "bp_next s \<notin># places s \<Longrightarrow> bp_next s \<notin># places t"
    using step_places [OF assms(2), of "bp_next s"] by (simp add: not_in_iff)
  moreover have "bp_next s \<notin># places s \<Longrightarrow> bp_next s \<notin># bp_buffer s \<and> bp_next s \<notin># bp_skipped s"
    by (simp add: places_def)
  ultimately show "stalled t" "bp_next t = bp_next s"
    using assms by (auto elim!: bp_stepE bp_workE simp: stalled_def bp_advance_def)
qed

lemma stalled_waits:
  assumes "stalled s" and "bp_step T orphan e s t" and "\<not> bp_tripped s"
    and "h \<in># bp_waiting s" and "h \<noteq> bp_next s"
  shows "h \<in># bp_waiting t"
proof -
  have "parked s h" using assms(1,5) by (simp add: stalled_def parked_def)
  then show ?thesis
    using assms(2-4) by (auto elim!: bp_stepE bp_workE simp: bp_advance_def in_diff_count split: if_splits)
qed

section \<open>A slow first block\<close>

text \<open>
  Runs in which the worker that holds height 0 is slow: \<open>run_at e k w p ms B S d n pc\<close> has the heights
  from \<open>k\<close> on still to hand out.
\<close>

definition run_at :: "nat \<Rightarrow> nat \<Rightarrow> nat multiset \<Rightarrow> nat multiset \<Rightarrow> bp_msg list \<Rightarrow> nat multiset \<Rightarrow> nat multiset
    \<Rightarrow> nat \<Rightarrow> nat \<Rightarrow> cons_pc \<Rightarrow> bp_sys" where
  "run_at e k w p ms B S d n pc = \<lparr>bp_todo = mset [k..<e], bp_waiting = w, bp_passed = p, bp_lost = {#},
     bp_chan = ms, bp_buffer = B, bp_skipped = S, bp_depth = d, bp_next = n, bp_cpc = pc, bp_tripped = False\<rparr>"

abbreviation bp_steps :: "nat \<Rightarrow> (nat \<Rightarrow> bool) \<Rightarrow> nat \<Rightarrow> bp_sys \<Rightarrow> bp_sys \<Rightarrow> bool" where
  "bp_steps threads orphan e \<equiv> (bp_step threads orphan e)\<^sup>*\<^sup>*"

lemma then_step: "bp_steps T orphan e s t \<Longrightarrow> bp_work T orphan e t u \<Longrightarrow> bp_steps T orphan e s u"
  by (meson bp_normal rtranclp.rtrancl_into_rtrancl)

lemma run_take:
  assumes "k < e" and "size w + size p < T"
  shows "bp_work T orphan e (run_at e k w p ms B S d n pc) (run_at e (Suc k) (add_mset k w) p ms B S d n pc)"
  using bp_work.wk_take [of k "run_at e k w p ms B S d n pc" T orphan e] assms
  by (simp add: run_at_def upt_conv_Cons)

lemma run_pass:
  assumes "d \<le> REORDER_HIGH \<or> n = h"
  shows "bp_work T orphan e (run_at e k (add_mset h w) p ms B S d n pc) (run_at e k w (add_mset h p) ms B S d n pc)"
  using bp_work.wk_pass [of h "run_at e k (add_mset h w) p ms B S d n pc" T orphan e] assms
  by (auto simp: run_at_def parked_def)

lemma run_send:
  assumes "length ms < CHANNEL_DEPTH" and "pc \<noteq> CDone"
  shows "bp_work T orphan e (run_at e k w (add_mset h p) ms B S d n pc)
    (run_at e k w p (ms @ [worker_msg orphan h]) B S d n pc)"
  using bp_work.wk_send [of h "run_at e k w (add_mset h p) ms B S d n pc" T orphan e] assms
  by (simp add: run_at_def)

text \<open>While height 0 is being parsed, another worker sends the heights from 1 on.\<close>

lemma run_fill:
  assumes "2 \<le> T" and "n \<le> CHANNEL_DEPTH" and "Suc n \<le> e"
  shows "bp_steps T orphan e (bp_init 0 e)
    (run_at e (Suc n) {#} {#0#} (map (worker_msg orphan) [1..<Suc n]) {#} {#} 0 0 CRecv)"
  using assms(2,3)
proof (induction n)
  case 0
  have "bp_steps T orphan e (bp_init 0 e) (run_at e 0 {#} {#} [] {#} {#} 0 0 CRecv)"
    by (simp add: run_at_def bp_init_def)
  then have "bp_steps T orphan e (bp_init 0 e) (run_at e (Suc 0) {#0#} {#} [] {#} {#} 0 0 CRecv)"
    by (rule then_step) (rule run_take, use 0 assms(1) in simp_all)
  then have "bp_steps T orphan e (bp_init 0 e) (run_at e (Suc 0) {#} {#0#} [] {#} {#} 0 0 CRecv)"
    by (rule then_step) (rule run_pass, simp)
  then show ?case by simp
next
  case (Suc n)
  let ?ms = "map (worker_msg orphan) [1..<Suc n]"
  have "bp_steps T orphan e (bp_init 0 e) (run_at e (Suc n) {#} {#0#} ?ms {#} {#} 0 0 CRecv)"
    using Suc by simp
  then have "bp_steps T orphan e (bp_init 0 e) (run_at e (Suc (Suc n)) {#Suc n#} {#0#} ?ms {#} {#} 0 0 CRecv)"
    by (rule then_step) (rule run_take, use Suc assms(1) in simp_all)
  then have "bp_steps T orphan e (bp_init 0 e) (run_at e (Suc (Suc n)) {#} {#Suc n, 0#} ?ms {#} {#} 0 0 CRecv)"
    by (rule then_step) (rule run_pass, simp)
  then have "bp_steps T orphan e (bp_init 0 e)
      (run_at e (Suc (Suc n)) {#} {#0#} (?ms @ [worker_msg orphan (Suc n)]) {#} {#} 0 0 CRecv)"
    by (rule then_step) (rule run_send, use Suc in simp_all)
  then show ?case by simp
qed

text \<open>The consumer receives them all and can apply none.\<close>

lemma run_idle:
  assumes "bp_steps T orphan e s (run_at e k w p ms B S d n CSkip)" and "n \<notin># B" and "n \<notin># S"
  shows "bp_steps T orphan e s (run_at e k w p ms B S d n CRecv)"
proof -
  have "bp_steps T orphan e s (run_at e k w p ms B S d n CDrain)"
    by (rule then_step [OF assms(1)])
      (use bp_work.cs_skipped [of "run_at e k w p ms B S d n CSkip"] assms(3) in \<open>simp add: run_at_def\<close>)
  then show ?thesis
    by (rule then_step)
      (use bp_work.cs_drained [of "run_at e k w p ms B S d n CDrain"] assms(2) in \<open>simp add: run_at_def\<close>)
qed

fun block_heights :: "bp_msg list \<Rightarrow> nat list" where
  "block_heights [] = []"
| "block_heights (MBlock h # ms) = h # block_heights ms"
| "block_heights (MSkip h # ms) = block_heights ms"

fun marker_heights :: "bp_msg list \<Rightarrow> nat list" where
  "marker_heights [] = []"
| "marker_heights (MBlock h # ms) = marker_heights ms"
| "marker_heights (MSkip h # ms) = h # marker_heights ms"

lemma run_receive:
  assumes "0 \<notin> msg_height ` set ms" and "0 \<notin># B" and "0 \<notin># S"
    and "bp_steps T orphan e s (run_at e k w p ms B S d 0 CRecv)"
  shows "bp_steps T orphan e s (run_at e k w p [] (B + mset (block_heights ms)) (S + mset (marker_heights ms))
     (d + length (block_heights ms)) 0 CRecv)"
  using assms
proof (induction ms arbitrary: B S d)
  case Nil
  then show ?case by simp
next
  case (Cons m ms)
  show ?case
  proof (cases m)
    case (MBlock h)
    have "bp_steps T orphan e s (run_at e k w p ms (add_mset h B) S (Suc d) 0 CSkip)"
      by (rule then_step [OF Cons.prems(4)])
        (use bp_work.cs_block [of "run_at e k w p (m # ms) B S d 0 CRecv" h ms] MBlock in \<open>simp add: run_at_def\<close>)
    then have "bp_steps T orphan e s (run_at e k w p ms (add_mset h B) S (Suc d) 0 CRecv)"
      by (rule run_idle) (use Cons.prems(1-3) MBlock in auto)
    then show ?thesis
      using Cons.IH [of "add_mset h B" S "Suc d"] Cons.prems(1-3) MBlock by simp
  next
    case (MSkip h)
    have "bp_steps T orphan e s (run_at e k w p ms B (add_mset h S) d 0 CSkip)"
      by (rule then_step [OF Cons.prems(4)])
        (use bp_work.cs_marker [of "run_at e k w p (m # ms) B S d 0 CRecv" h ms] MSkip in \<open>simp add: run_at_def\<close>)
    then have "bp_steps T orphan e s (run_at e k w p ms B (add_mset h S) d 0 CRecv)"
      by (rule run_idle) (use Cons.prems(1-3) MSkip in auto)
    then show ?thesis
      using Cons.IH [of B "add_mset h S" d] Cons.prems(1-3) MSkip by simp
  qed
qed

lemma sent_heights [simp]:
  "block_heights (map (worker_msg orphan) hs) = filter (\<lambda>h. \<not> orphan h) hs"
  "marker_heights (map (worker_msg orphan) hs) = filter orphan hs"
  by (induction hs) (simp_all add: worker_msg_def)

lemma run_buffered:
  assumes "2 \<le> T" and "n \<le> CHANNEL_DEPTH" and "Suc n \<le> e"
  shows "bp_steps T orphan e (bp_init 0 e) (run_at e (Suc n) {#} {#0#} []
    (mset (filter (\<lambda>h. \<not> orphan h) [1..<Suc n])) (mset (filter orphan [1..<Suc n]))
    (length (filter (\<lambda>h. \<not> orphan h) [1..<Suc n])) 0 CRecv)"
  using run_receive [OF _ _ _ run_fill [OF assms]]
  by (simp add: image_image del: upt_Suc mset_upt mset_filter)

text \<open>A marker for height 1 that is received before the block at height 0.\<close>

definition late_blocks :: "nat list" where
  "late_blocks = [2..<35]"

lemma run_early_marker:
  "bp_steps 2 (\<lambda>h. h = 1) 100 (bp_init 0 100) (run_at 100 35 {#} {#0#} [] (mset late_blocks) {#1#} 33 0 CRecv)"
proof -
  have "filter (\<lambda>h. h \<noteq> 1) [1..<Suc 34] = late_blocks" "filter (\<lambda>h. h = 1) [1..<Suc 34] = [1]"
    "length late_blocks = 33" "Suc 34 = 35"
    by (simp_all add: upt_rec late_blocks_def)
  then show ?thesis
    using run_buffered [of 2 34 100 "\<lambda>h. h = 1"] by (simp only: CHANNEL_DEPTH_def) simp
qed

lemma run_first_block:
  assumes "bp_steps T orphan e s (run_at e k w {#0#} [] B S d 0 CRecv)" and "\<not> orphan 0" and "1 < e"
    and "0 \<notin># B" and "0 \<notin># S" and "1 \<notin># B"
  shows "bp_steps T orphan e s (run_at e k w {#} [] B S d 1 CRecv)"
proof -
  have "bp_steps T orphan e s (run_at e k w {#} [MBlock 0] B S d 0 CRecv)"
    by (rule then_step [OF assms(1)])
      (use run_send [of "[]" CRecv T orphan e k w 0 "{#}" B S d 0] assms(2) in \<open>simp add: CHANNEL_DEPTH_def worker_msg_def\<close>)
  then have "bp_steps T orphan e s (run_at e k w {#} [] (add_mset 0 B) S (Suc d) 0 CSkip)"
    by (rule then_step)
      (use bp_work.cs_block [of "run_at e k w {#} [MBlock 0] B S d 0 CRecv" 0 "[]"] in \<open>simp add: run_at_def\<close>)
  then have "bp_steps T orphan e s (run_at e k w {#} [] (add_mset 0 B) S (Suc d) 0 CDrain)"
    by (rule then_step)
      (use bp_work.cs_skipped [of "run_at e k w {#} [] (add_mset 0 B) S (Suc d) 0 CSkip"] assms(5) in \<open>simp add: run_at_def\<close>)
  then have "bp_steps T orphan e s (run_at e k w {#} [] B S d 0 CApply)"
    by (rule then_step)
      (use bp_work.cs_take [of "run_at e k w {#} [] (add_mset 0 B) S (Suc d) 0 CDrain"] in \<open>simp add: run_at_def\<close>)
  then have "bp_steps T orphan e s (run_at e k w {#} [] B S d 1 CDrain)"
    by (rule then_step)
      (use bp_work.cs_apply [of "run_at e k w {#} [] B S d 0 CApply" T orphan e] assms(3)
        in \<open>simp add: run_at_def bp_advance_def\<close>)
  then show ?thesis
    by (rule then_step)
      (use bp_work.cs_drained [of "run_at e k w {#} [] B S d 1 CDrain"] assms(6) in \<open>simp add: run_at_def\<close>)
qed

lemma run_deadlocked:
  "bp_steps 2 (\<lambda>h. h = 1) 100 (bp_init 0 100) (run_at 100 37 {#36, 35#} {#} [] (mset late_blocks) {#1#} 33 1 CRecv)"
proof -
  let ?steps = "bp_steps 2 (\<lambda>h. h = 1) 100 (bp_init 0 100)"
  have "?steps (run_at 100 36 {#35#} {#0#} [] (mset late_blocks) {#1#} 33 0 CRecv)"
    by (rule then_step [OF run_early_marker])
      (use run_take [of 35 100 "{#}" "{#0#}" 2 "\<lambda>h. h = 1" "[]" "mset late_blocks" "{#1#}" 33 0 CRecv] in simp)
  then have "?steps (run_at 100 36 {#35#} {#} [] (mset late_blocks) {#1#} 33 1 CRecv)"
    by (rule run_first_block) (simp_all add: late_blocks_def)
  then show ?thesis
    by (rule then_step)
      (use run_take [of 36 100 "{#35#}" "{#}" 2 "\<lambda>h. h = 1" "[]" "mset late_blocks" "{#1#}" 33 1 CRecv] in simp)
qed

section \<open>Properties\<close>



text \<open>C14. The wait loop does not deadlock a run without orphans: normal operation always ends (every
  step of workers and consumer decreases a measure), and as long as the consumer runs, the watchdog
  is quiet, and the height the consumer waits for has been handed to a worker that has not failed,
  some worker or the consumer can move.\<close>
theorem backpressure_progress:
  assumes "bp_reachable threads (\<lambda>_. False) start e s" and "start < e"
    and "bp_cpc s \<noteq> CDone" and "\<not> bp_tripped s" and "bp_next s \<notin># bp_todo s" and "bp_next s \<notin># bp_lost s"
  shows "wfP (\<lambda>t u. bp_work threads orphan e u t) \<and> (\<exists>t. bp_work threads (\<lambda>_. False) e s t)"
proof -
  have "wfP (\<lambda>t u. bp_work threads orphan e u t)"
    by (rule wfp_if_convertible_to_nat [of _ work_left]) (rule work_decreases)
  then show ?thesis using work_progress [OF assms] by blast
qed

theorem backpressure_progress_witness:
  "\<exists>s t. bp_reachable 2 (\<lambda>_. False) 0 3 s \<and> bp_next s \<notin># bp_todo s \<and> bp_work 2 (\<lambda>_. False) 3 s t"
proof -
  let ?s = "run_at 3 1 {#} {#0#} [] {#} {#} 0 0 CRecv"
  have r: "bp_reachable 2 (\<lambda>_. False) 0 3 ?s"
    using run_fill [of 2 0 3 "\<lambda>_. False"] by (simp add: bp_reachable_def CHANNEL_DEPTH_def)
  have "bp_next ?s \<notin># bp_todo ?s" "bp_cpc ?s \<noteq> CDone" "\<not> bp_tripped ?s" "bp_next ?s \<notin># bp_lost ?s"
    by (simp_all add: run_at_def)
  then show ?thesis using backpressure_progress [OF r] r by auto
qed

text \<open>C16. A failure can leave the workers waiting for ever: once more than \<open>REORDER_HIGH\<close> blocks are
  buffered and either the consumer has returned with an error, or the worker that held the height
  the consumer waits for has failed (a block that does not parse), a worker in its wait loop at any
  other height is still in it after any number of further steps, until the memory watchdog
  trips. The thread pool then never returns, and the error is never reported.\<close>
theorem failure_leaves_workers_waiting:
  assumes "(bp_step threads orphan e)\<^sup>*\<^sup>* s t" and "stalled s"
    and "h \<in># bp_waiting s" and "h \<noteq> bp_next s" and "\<not> bp_tripped t"
  shows "h \<in># bp_waiting t \<and> parked t h"
proof -
  have "stalled t \<and> bp_next t = bp_next s \<and> (\<not> bp_tripped t \<longrightarrow> h \<in># bp_waiting t)"
    using assms(1)
  proof (induction rule: rtranclp_induct)
    case base
    then show ?case using assms(2,3) by simp
  next
    case (step t u)
    have "bp_tripped t \<Longrightarrow> bp_tripped u" using step(2) by (auto elim!: bp_stepE bp_workE simp: bp_advance_def)
    then show ?case using step stalled_step stalled_waits assms(4) by metis
  qed
  then show ?thesis using assms(4,5) by (simp add: stalled_def parked_def)
qed

theorem failure_leaves_workers_waiting_witness:
  "\<exists>s. bp_reachable 2 (\<lambda>_. False) 0 100 s \<and> stalled s \<and> bp_cpc s = CRecv \<and> 34 \<in># bp_waiting s \<and> parked s 34"
proof -
  let ?a = "run_at 100 35 {#34#} {#0#} [] (mset [1..<34]) {#} 33 0 CRecv"
  let ?s = "?a\<lparr>bp_passed := {#}, bp_lost := {#0#}\<rparr>"
  have "bp_steps 2 (\<lambda>_. False) 100 (bp_init 0 100) (run_at 100 34 {#} {#0#} [] (mset [1..<34]) {#} 33 0 CRecv)"
    using run_buffered [of 2 33 100 "\<lambda>_. False"] by (simp add: CHANNEL_DEPTH_def del: upt_Suc mset_upt)
  then have "bp_steps 2 (\<lambda>_. False) 100 (bp_init 0 100) ?a"
    by (rule then_step)
      (use run_take [of 34 100 "{#}" "{#0#}" 2 "\<lambda>_. False" "[]" "mset [1..<34]" "{#}" 33 0 CRecv] in simp)
  moreover have "bp_step 2 (\<lambda>_. False) 100 ?a ?s"
    using bp_step.wk_fail [of 0 ?a 2 "\<lambda>_. False" 100] by (simp add: run_at_def)
  ultimately have r: "bp_reachable 2 (\<lambda>_. False) 0 100 ?s" unfolding bp_reachable_def by (rule rtranclp.rtrancl_into_rtrancl)
  have st: "stalled ?s" by (simp add: stalled_def run_at_def REORDER_HIGH_def bp_defs)
  have w: "34 \<in># bp_waiting ?s" "bp_cpc ?s = CRecv" "34 \<noteq> bp_next ?s" "\<not> bp_tripped ?s"
    by (simp_all add: run_at_def)
  show ?thesis
    using failure_leaves_workers_waiting [OF rtranclp.rtrancl_refl st w(1,3,4)] r st w by blast
qed

text \<open>C15. An early skip marker can deadlock a run with an orphan, although nothing fails: with two
  threads and height 1 an orphan, a state is reachable in which the consumer waits for a message
  with the marker of its next height already in its set of skipped heights (it only looks there
  after a message), the channel is empty, and both workers wait for the buffer to drain. The only
  steps are another turn of the wait loop and the memory watchdog.\<close>
theorem early_marker_deadlock:
  "\<exists>s. bp_reachable 2 (\<lambda>h. h = 1) 0 100 s \<and> bp_cpc s = CRecv \<and> bp_next s \<in># bp_skipped s
    \<and> bp_lost s = {#} \<and> \<not> bp_tripped s
    \<and> {t. bp_step 2 (\<lambda>h. h = 1) 100 s t} \<subseteq> {s, s\<lparr>bp_tripped := True\<rparr>}"
proof -
  let ?s = "run_at 100 37 {#36, 35#} {#} [] (mset late_blocks) {#1#} 33 1 CRecv"
  have "t = ?s \<or> t = ?s\<lparr>bp_tripped := True\<rparr>" if "bp_step 2 (\<lambda>h. h = 1) 100 ?s t" for t
    using that
    by (elim bp_stepE bp_workE) (auto simp: run_at_def parked_def REORDER_HIGH_def)
  then have "{t. bp_step 2 (\<lambda>h. h = 1) 100 ?s t} \<subseteq> {?s, ?s\<lparr>bp_tripped := True\<rparr>}" by blast
  moreover have "bp_reachable 2 (\<lambda>h. h = 1) 0 100 ?s"
    unfolding bp_reachable_def by (rule run_deadlocked)
  moreover have "bp_cpc ?s = CRecv" "bp_next ?s \<in># bp_skipped ?s" "bp_lost ?s = {#}" "\<not> bp_tripped ?s"
    by (simp_all add: run_at_def)
  ultimately show ?thesis by blast
qed

end
