(* ===== verification/Live_Tracker.thy ===== *)
theory Live_Tracker
  imports Live_Node Store_Correct Parser_Tx
begin

text \<open>
  \<open>bidx-live/src/tracker.rs\<close>: the tracker that follows the node's best chain. Its state is the
  outside world behind the RPC transport, the UTXO store and the state \<open>'s\<close> of the event callback;
  the environment holds the parameters of the components it calls, the configuration and the
  callback itself. \<open>catch_up\<close> is the reorganisation loop followed by the forward loop. The two
  endless loops of \<open>live_loop\<close> are modelled by their finite runs: the rounds triggered by a list of
  received notifications, or a number of polls; \<open>Inr ()\<close> then means that the loop is still running.
  The \<open>debug_assert_eq!\<close> on the block hash is not part of a release build.
\<close>

section \<open>State\<close>

datatype tracker_error =
    TrRpc rpc_error
  | TrUtxo utxo_error
  | TrZmq zmq_error
  | TrParse tx_parse_error
  | ReorgTooDeep u32
  | TrIndexPanic nat

datatype tracker_event =
    Applied u32 hash32 "spend_row list"
  | Disconnected u32 hash32
  | ReorgStart u32
  | CaughtUp u32

definition max_reorg_depth_default :: u32 where
  "max_reorg_depth_default = 100"

record ('n, 'db, 's) tracker_env =
  te_transport :: "'n transport"
  te_serde :: serde
  te_hex :: hex_crate
  te_digests :: digests
  te_rocks :: "'db rocks"
  te_iter :: hm_iter
  te_max_reorg_depth :: u32
  te_on_event :: "tracker_event \<Rightarrow> full_block option \<Rightarrow> 's \<Rightarrow> 's"

record ('n, 'db, 's) tracker =
  tr_node :: 'n
  tr_utxo :: "'db utxo_store"
  tr_sink :: 's

definition emit ::
    "('n, 'db, 's) tracker_env \<Rightarrow> tracker_event \<Rightarrow> full_block option \<Rightarrow> ('n, 'db, 's) tracker \<Rightarrow> ('n, 'db, 's) tracker" where
  "emit E ev b s = s\<lparr>tr_sink := te_on_event E ev b (tr_sink s)\<rparr>"

definition with_node ::
    "('n \<Rightarrow> ('n, rpc_error, 'a) io) \<Rightarrow> ('n, 'db, 's) tracker \<Rightarrow> (('n, 'db, 's) tracker, tracker_error, 'a) io" where
  "with_node f s = (case f (tr_node s) of (n, r) \<Rightarrow> (s\<lparr>tr_node := n\<rparr>, map_err TrRpc r))"

definition with_store ::
    "('db utxo_store \<Rightarrow> utxo_error + 'db utxo_store) \<Rightarrow> ('n, 'db, 's) tracker
      \<Rightarrow> (('n, 'db, 's) tracker, tracker_error, unit) io" where
  "with_store f s =
    (case f (tr_utxo s) of Inl e \<Rightarrow> (s, Inl (TrUtxo e)) | Inr st \<Rightarrow> (s\<lparr>tr_utxo := st\<rparr>, Inr ()))"

abbreviation node_hash ::
    "('n, 'db, 's) tracker_env \<Rightarrow> u32 \<Rightarrow> 'n \<Rightarrow> ('n, rpc_error, hash32) io" where
  "node_hash E h \<equiv> get_block_hash (te_transport E) (te_serde E) (te_hex E) h"

section \<open>Catching up\<close>

lemma unat_pred_less: "h \<noteq> 0 \<Longrightarrow> unat (h - 1) < unat h" for h :: u32
proof -
  assume "h \<noteq> 0"
  then have "unat h \<noteq> 0" by (simp add: unat_eq_zero)
  then show ?thesis using \<open>h \<noteq> 0\<close> by (simp add: unat_minus_one)
qed

text \<open>Loop 1: disconnect until the node has our tip.\<close>

function reorg_loop ::
    "('n, 'db, 's) tracker_env \<Rightarrow> tip_state \<Rightarrow> u32 \<Rightarrow> ('n, 'db, 's) tracker
      \<Rightarrow> (('n, 'db, 's) tracker, tracker_error, tip_state) io" where
  "reorg_loop E loc disconnects s =
    (case node_hash E (tip_st_height loc) (tr_node s) of
       (n, r) \<Rightarrow>
         let s = s\<lparr>tr_node := n\<rparr>;
             node_hash_at_local = (case r of Inr h \<Rightarrow> h | Inl _ \<Rightarrow> Hash32_ZERO)
         in
         if node_hash_at_local = tip_st_hash loc \<and> node_hash_at_local \<noteq> Hash32_ZERO then (s, Inr loc)
         else if tip_st_height loc = 0 then (s, Inr loc)
         else if te_max_reorg_depth E \<le> disconnects then (s, Inl (ReorgTooDeep disconnects))
         else
           let s = (if disconnects = 0 then emit E (ReorgStart 0) None s else s) in
           io_bind (with_store (disconnect_block (te_rocks E) (tip_st_height loc)) s) (\<lambda>s _.
           let s = emit E (Disconnected (tip_st_height loc) (tip_st_hash loc)) None s;
               prev_height = tip_st_height loc - 1
           in io_bind (with_node (node_hash E prev_height) s) (\<lambda>s prev_hash.
           let loc' = \<lparr>tip_st_height = prev_height, tip_st_hash = prev_hash\<rparr> in
           io_bind (with_store (set_tip (te_rocks E) loc') s) (\<lambda>s _.
             reorg_loop E loc' (disconnects + 1) s))))"
  by auto
termination
  by (relation "measure (\<lambda>(E, loc, d, s). unat (tip_st_height loc))") (auto simp: unat_pred_less)

declare reorg_loop.simps [simp del]

definition parse_header :: "bytes \<Rightarrow> tracker_error + block_header \<times> bytes" where
  "parse_header raw =
    (if length raw < 80 then Inl (TrRpc (BadResponse ''block payload too short''))
     else let hdr = take 80 raw in Inr (header_parse hdr, hdr))"

text \<open>The fees written into the rows: every transaction but the first counts.\<close>

fun fill_fees :: "u64 list \<Rightarrow> nat \<Rightarrow> tx_row list \<Rightarrow> u64 \<Rightarrow> tracker_error + tx_row list \<times> u64" where
  "fill_fees fees i [] total_fee = Inr ([], total_fee)"
| "fill_fees fees i (tx # txs) total_fee =
    (if i < length fees then
       let tx' = tx\<lparr>t_fee := fees ! i\<rparr>;
           total_fee' = (if i \<noteq> 0 then saturating_add total_fee (fees ! i) else total_fee)
       in res_bind (fill_fees fees (i + 1) txs total_fee') (\<lambda>(rest, t). Inr (tx' # rest, t))
     else Inl (TrIndexPanic i))"

definition store_apply ::
    "('n, 'db, 's) tracker_env \<Rightarrow> u32 \<Rightarrow> full_block \<Rightarrow> ('n, 'db, 's) tracker
      \<Rightarrow> (('n, 'db, 's) tracker, tracker_error, spend_result) io" where
  "store_apply E height block s =
    (case apply_block (te_rocks E) (te_iter E) height (fb_txs block) (fb_inputs block) (fb_outputs block) (tr_utxo s) of
       Inl e \<Rightarrow> (s, Inl (TrUtxo e))
     | Inr (res, st) \<Rightarrow> (s\<lparr>tr_utxo := st\<rparr>, Inr res))"

text \<open>The body of loop 2.\<close>

definition apply_next ::
    "('n, 'db, 's) tracker_env \<Rightarrow> tip_state \<Rightarrow> ('n, 'db, 's) tracker
      \<Rightarrow> (('n, 'db, 's) tracker, tracker_error, tip_state) io" where
  "apply_next E loc s =
    (let next_height = tip_st_height loc + 1 in
     io_bind (with_node (node_hash E next_height) s) (\<lambda>s hash.
     io_bind (with_node (get_block_raw (te_transport E) (te_serde E) (te_hex E) hash) s) (\<lambda>s raw.
     io_bind (s, parse_header raw) (\<lambda>s (header, hdr_raw).
     io_bind (s, map_err TrParse (parse_block_full (te_digests E) raw next_height hash header)) (\<lambda>s block.
     io_bind (store_apply E next_height block s) (\<lambda>s res.
     io_bind (s, fill_fees (sr_fees res) 0 (fb_txs block) 0) (\<lambda>s (txs, total_fee).
     let block = block\<lparr>fb_txs := txs, fb_block_row := (fb_block_row block)\<lparr>b_total_fee := total_fee\<rparr>\<rparr>;
         new_tip = \<lparr>tip_st_height = next_height, tip_st_hash = hash\<rparr>
     in io_bind (with_store (set_tip (te_rocks E) new_tip) s) (\<lambda>s _.
       (emit E (Applied next_height hash (sr_spends res)) (Some block) s, Inr new_tip)))))))))"

lemma apply_next_height:
  "apply_next E loc s = (s', Inr t) \<Longrightarrow> tip_st_height t = tip_st_height loc + 1"
  by (auto simp: apply_next_def Let_def io_bind_Inr_iff)

function forward_loop ::
    "('n, 'db, 's) tracker_env \<Rightarrow> u32 \<Rightarrow> tip_state \<Rightarrow> ('n, 'db, 's) tracker
      \<Rightarrow> (('n, 'db, 's) tracker, tracker_error, tip_state) io" where
  "forward_loop E node_tip loc s =
    (if tip_st_height loc < node_tip
     then io_bind (apply_next E loc s) (\<lambda>s new_tip. forward_loop E node_tip new_tip s)
     else (s, Inr loc))"
  by auto
termination
proof (relation "measure (\<lambda>(E, n, loc, s). unat n - unat (tip_st_height loc))", simp, goal_cases)
  case (1 E node_tip loc s s' t)
  have "unat (tip_st_height loc) < unat node_tip" using 1(1) by (simp add: word_less_nat_alt)
  moreover have "unat node_tip < 2 ^ 32" using unsigned_less [of node_tip] by simp
  ultimately have "unat (tip_st_height t) = unat (tip_st_height loc) + 1"
    using apply_next_height [OF 1(2)] by (simp add: unat_word_ariths)
  then show ?case using \<open>unat (tip_st_height loc) < unat node_tip\<close> by simp
qed

declare forward_loop.simps [simp del]

definition catch_up ::
    "('n, 'db, 's) tracker_env \<Rightarrow> ('n, 'db, 's) tracker \<Rightarrow> (('n, 'db, 's) tracker, tracker_error, unit) io" where
  "catch_up E s =
    io_bind (with_node (get_block_count (te_transport E) (te_serde E)) s) (\<lambda>s node_tip_height.
    io_bind (s, map_err TrUtxo (store_tip (te_rocks E) (tr_utxo s))) (\<lambda>s stored.
    case stored of
      None \<Rightarrow>
        io_bind (with_node (node_hash E node_tip_height) s) (\<lambda>s h.
        io_bind (with_store (set_tip (te_rocks E) \<lparr>tip_st_height = node_tip_height, tip_st_hash = h\<rparr>) s) (\<lambda>s _.
          (emit E (CaughtUp node_tip_height) None s, Inr ())))
    | Some loc \<Rightarrow>
        io_bind (reorg_loop E loc 0 s) (\<lambda>s loc.
        io_bind (forward_loop E node_tip_height loc s) (\<lambda>s loc.
          (emit E (CaughtUp (tip_st_height loc)) None s, Inr ())))))"

section \<open>Following the node\<close>

text \<open>The poll loop: \<open>n\<close> rounds.\<close>

fun poll_loop ::
    "('n, 'db, 's) tracker_env \<Rightarrow> nat \<Rightarrow> ('n, 'db, 's) tracker \<Rightarrow> (('n, 'db, 's) tracker, tracker_error, unit) io" where
  "poll_loop E 0 s = (s, Inr ())"
| "poll_loop E (Suc n) s = io_bind (catch_up E s) (\<lambda>s _. poll_loop E n s)"

text \<open>The ZMQ loop: one round per result of \<open>next_block_hash\<close>.\<close>

fun zmq_loop ::
    "('n, 'db, 's) tracker_env \<Rightarrow> (zmq_error + hash32) list \<Rightarrow> ('n, 'db, 's) tracker
      \<Rightarrow> (('n, 'db, 's) tracker, tracker_error, unit) io" where
  "zmq_loop E [] s = (s, Inr ())"
| "zmq_loop E (m # ms) s =
    (case m of
       Inl e \<Rightarrow> zmq_loop E ms s
     | Inr _ \<Rightarrow>
       (case catch_up E s of
          (s', Inr _) \<Rightarrow> zmq_loop E ms s'
        | (s', Inl (ReorgTooDeep d)) \<Rightarrow> (s', Inl (ReorgTooDeep d))
        | (s', Inl _) \<Rightarrow> zmq_loop E ms s'))"

definition tracker_run ::
    "('n, 'db, 's) tracker_env \<Rightarrow> (zmq_error + hash32) list + nat \<Rightarrow> ('n, 'db, 's) tracker
      \<Rightarrow> (('n, 'db, 's) tracker, tracker_error, unit) io" where
  "tracker_run E rounds s =
    io_bind (catch_up E s) (\<lambda>s _. case rounds of Inl ms \<Rightarrow> zmq_loop E ms s | Inr n \<Rightarrow> poll_loop E n s)"

section \<open>On a node with a fixed best chain\<close>

text \<open>What the tracker relies on: a node that serves a chain, a database that does not fail.\<close>

locale tracked =
  fixes E :: "('n, 'db, 's) tracker_env" and chain_of :: "'n \<Rightarrow> chain" and view :: "'db \<Rightarrow> db_view"
  assumes serves: "node_serves (te_transport E) (te_serde E) (te_hex E) chain_of"
    and rocks: "rocks_total (te_rocks E) view"
    and iter: "iterates (te_iter E)"

sublocale tracked \<subseteq> nd: node_serves "te_transport E" "te_serde E" "te_hex E" chain_of
  by (rule serves)

context tracked
begin

definition chain_s :: "('n, 'db, 's) tracker \<Rightarrow> chain" where
  "chain_s s = chain_of (tr_node s)"

lemma with_node_hash:
  "chain_ok (chain_s s) \<Longrightarrow> unat h < length (chain_s s) \<Longrightarrow>
    with_node (node_hash E h) s = (s, Inr (fst (chain_s s ! unat h)))"
  by (simp add: with_node_def chain_s_def nd.hash_call)

lemma with_node_hash_err:
  "chain_ok (chain_s s) \<Longrightarrow> length (chain_s s) \<le> unat h \<Longrightarrow> \<exists>e. with_node (node_hash E h) s = (s, Inl (TrRpc e))"
  using nd.hash_call_err [of "tr_node s" h] by (auto simp: with_node_def chain_s_def)

lemma with_node_raw:
  "chain_ok (chain_s s) \<Longrightarrow> i < length (chain_s s) \<Longrightarrow>
    with_node (get_block_raw (te_transport E) (te_serde E) (te_hex E) (fst (chain_s s ! i))) s
      = (s, Inr (snd (chain_s s ! i)))"
  by (simp add: with_node_def chain_s_def nd.raw_call)

lemma with_node_count:
  "chain_ok (chain_s s) \<Longrightarrow>
    with_node (get_block_count (te_transport E) (te_serde E)) s = (s, Inr (of_nat (length (chain_s s) - 1)))"
  by (simp add: with_node_def chain_s_def nd.count_call)

lemma set_tip_step:
  assumes "length (tip_st_hash t) = 32"
  shows "\<exists>st. with_store (set_tip (te_rocks E) t) s = (s\<lparr>tr_utxo := st\<rparr>, Inr ())
    \<and> store_tip (te_rocks E) st = Inr (Some t) \<and> st_recent st = st_recent (tr_utxo s)
    \<and> view (st_db st) CF_DEFAULT = view (st_db (tr_utxo s)) CF_DEFAULT
    \<and> view (st_db st) CF_UNDO = view (st_db (tr_utxo s)) CF_UNDO"
  using set_tip_total [OF rocks assms, of "tr_utxo s"] by (auto simp: with_store_def)

lemma store_tip_meta:
  "view (st_db st') CF_META = view (st_db st) CF_META \<Longrightarrow> store_tip (te_rocks E) st' = store_tip (te_rocks E) st"
  by (simp add: store_tip_def rocks_total.get_view [OF rocks])

lemma store_apply_step:
  assumes "st_recent (tr_utxo s) = None" "store_apply E h b s = (s', r)"
  shows "tr_node s' = tr_node s \<and> tr_sink s' = tr_sink s \<and> st_recent (tr_utxo s') = None
    \<and> store_tip (te_rocks E) (tr_utxo s') = store_tip (te_rocks E) (tr_utxo s)"
proof (cases "apply_block (te_rocks E) (te_iter E) h (fb_txs b) (fb_inputs b) (fb_outputs b) (tr_utxo s)")
  case (Inl e)
  then show ?thesis using assms by (auto simp: store_apply_def)
next
  case (Inr p)
  then obtain res st where a: "apply_block (te_rocks E) (te_iter E) h (fb_txs b) (fb_inputs b) (fb_outputs b)
      (tr_utxo s) = Inr (res, st)" by (cases p) auto
  have snd: "rocks_sound (te_rocks E) view" using rocks by (simp add: rocks_total_def)
  have coh: "coherent (utxos (view (st_db (tr_utxo s)))) (st_recent (tr_utxo s))"
    using assms(1) by (simp add: coherent_def)
  have "view (st_db st) CF_META = view (st_db (tr_utxo s)) CF_META"
    by (rule apply_block_view(2) [OF snd iter coh a])
  moreover have "st_recent st = None" by (rule apply_block_result(6) [OF snd iter coh a assms(1)])
  moreover have "s' = s\<lparr>tr_utxo := st\<rparr>" using assms(2) a by (simp add: store_apply_def)
  ultimately show ?thesis using store_tip_meta [of st "tr_utxo s"] by simp
qed

text \<open>The tip of the chain prefix of a height.\<close>

definition tip_at :: "chain \<Rightarrow> nat \<Rightarrow> tip_state" where
  "tip_at ch i = \<lparr>tip_st_height = of_nat i, tip_st_hash = fst (ch ! i)\<rparr>"

lemma unat_tip_at: "chain_ok ch \<Longrightarrow> i < length ch \<Longrightarrow> unat (tip_st_height (tip_at ch i)) = i"
  by (simp add: tip_at_def chain_ok_def unat_of_nat_less)

definition ready :: "('n, 'db, 's) tracker \<Rightarrow> bool" where
  "ready s \<longleftrightarrow> chain_ok (chain_s s) \<and> st_recent (tr_utxo s) = None"

lemma apply_next_chain:
  assumes ok: "ready s" and i: "Suc i < length (chain_s s)"
    and tip: "store_tip (te_rocks E) (tr_utxo s) = Inr (Some (tip_at (chain_s s) i))"
    and run: "apply_next E (tip_at (chain_s s) i) s = (s', r)"
  shows "tr_node s' = tr_node s \<and> ready s'
    \<and> (case r of
         Inl e \<Rightarrow> tr_sink s' = tr_sink s \<and> store_tip (te_rocks E) (tr_utxo s') = Inr (Some (tip_at (chain_s s) i))
       | Inr t \<Rightarrow> t = tip_at (chain_s s) (Suc i) \<and> store_tip (te_rocks E) (tr_utxo s') = Inr (Some t)
           \<and> (\<exists>sp b. tr_sink s' = te_on_event E (Applied (of_nat (Suc i)) (fst (chain_s s ! Suc i)) sp) (Some b) (tr_sink s)))"
proof -
  let ?ch = "chain_s s"
  let ?hash = "fst (?ch ! Suc i)" and ?raw = "snd (?ch ! Suc i)" and ?h = "of_nat (Suc i) :: u32"
  have ck: "chain_ok ?ch" and rc: "st_recent (tr_utxo s) = None" using ok by (auto simp: ready_def)
  have h: "tip_st_height (tip_at ?ch i) + 1 = ?h" by (simp add: tip_at_def)
  have uh: "unat ?h = Suc i"
    using unat_tip_at [OF ck i] by (simp add: tip_at_def)
  have nh: "with_node (node_hash E ?h) s = (s, Inr ?hash)"
    using with_node_hash [OF ck, of ?h] i by (simp only: uh)
  have nr: "with_node (get_block_raw (te_transport E) (te_serde E) (te_hex E) ?hash) s = (s, Inr ?raw)"
    by (rule with_node_raw [OF ck i])
  have len: "length ?hash = 32" using ck i by (simp add: chain_ok_def)
  have keep: "tr_node s = tr_node s \<and> ready s \<and> tr_sink s = tr_sink s" using ok by simp
  show ?thesis
  proof (cases "parse_header ?raw")
    case (Inl e)
    then have "(s', r) = (s, Inl e)"
      using run by (simp add: apply_next_def h nh nr Let_def del: of_nat_Suc)
    then show ?thesis using keep tip by simp
  next
    case (Inr hd)
    obtain header hdr_raw where hd: "hd = (header, hdr_raw)" by fastforce
    show ?thesis
    proof (cases "parse_block_full (te_digests E) ?raw ?h ?hash header")
      case (Inl e)
      then have "(s', r) = (s, Inl (TrParse e))"
        using run Inr hd by (simp add: apply_next_def h nh nr Let_def del: of_nat_Suc)
      then show ?thesis using keep tip by simp
    next
      case blk: (Inr block)
      obtain s1 r1 where s1: "store_apply E ?h block s = (s1, r1)" by fastforce
      note st1 = store_apply_step [OF rc s1]
      have rd1: "ready s1" using st1 ok by (simp add: ready_def chain_s_def)
      have rest: "(s', r) = io_bind (s1, r1) (\<lambda>s res.
         io_bind (s, fill_fees (sr_fees res) 0 (fb_txs block) 0) (\<lambda>s (txs, total_fee).
         let block = block\<lparr>fb_txs := txs, fb_block_row := (fb_block_row block)\<lparr>b_total_fee := total_fee\<rparr>\<rparr>;
             new_tip = \<lparr>tip_st_height = ?h, tip_st_hash = ?hash\<rparr>
         in io_bind (with_store (set_tip (te_rocks E) new_tip) s) (\<lambda>s _.
           (emit E (Applied ?h ?hash (sr_spends res)) (Some block) s, Inr new_tip))))"
        using run Inr hd blk s1 by (simp add: apply_next_def h nh nr Let_def del: of_nat_Suc)
      show ?thesis
      proof (cases r1)
        case (Inl e)
        then show ?thesis using rest st1 rd1 tip by simp
      next
        case res: (Inr res)
        show ?thesis
        proof (cases "fill_fees (sr_fees res) 0 (fb_txs block) 0")
          case (Inl e)
          then show ?thesis using rest st1 rd1 tip res by simp
        next
          case (Inr tf)
          obtain txs total_fee where tf: "tf = (txs, total_fee)" by fastforce
          let ?t = "tip_at ?ch (Suc i)"
          have t: "?t = \<lparr>tip_st_height = ?h, tip_st_hash = ?hash\<rparr>" by (simp add: tip_at_def)
          obtain st where st: "with_store (set_tip (te_rocks E) ?t) s1 = (s1\<lparr>tr_utxo := st\<rparr>, Inr ())"
              "store_tip (te_rocks E) st = Inr (Some ?t)" "st_recent st = st_recent (tr_utxo s1)"
            using set_tip_step [of ?t s1] len by (auto simp: tip_at_def)
          let ?b = "block\<lparr>fb_txs := txs, fb_block_row := (fb_block_row block)\<lparr>b_total_fee := total_fee\<rparr>\<rparr>"
          have "(s', r) = (emit E (Applied ?h ?hash (sr_spends res)) (Some ?b) (s1\<lparr>tr_utxo := st\<rparr>), Inr ?t)"
            using rest st(1) unfolding t res by (simp add: Inr tf Let_def del: of_nat_Suc)
          then show ?thesis
            using st(2,3) st1 rd1 by (auto simp: emit_def ready_def chain_s_def simp del: of_nat_Suc)
        qed
      qed
    qed
  qed
qed

lemma ready_frame: "tr_node s' = tr_node s \<Longrightarrow> chain_s s' = chain_s s"
  by (simp add: chain_s_def)

text \<open>What the forward loop leaves when it starts at height \<open>i\<close>: it has applied the blocks up to
  height \<open>k\<close>, the callback has seen them in order, and the stored tip is block \<open>k\<close>.\<close>

definition fwd_post ::
    "chain \<Rightarrow> (tracker_event \<Rightarrow> 's \<Rightarrow> 's) \<Rightarrow> nat \<Rightarrow> ('n, 'db, 's) tracker \<Rightarrow> nat
      \<Rightarrow> (('n, 'db, 's) tracker, tracker_error, tip_state) io \<Rightarrow> spend_row list list \<Rightarrow> bool" where
  "fwd_post ch logf i s k m sps \<longleftrightarrow> i \<le> k \<and> k < length ch \<and> tr_node (fst m) = tr_node s \<and> ready (fst m)
    \<and> store_tip (te_rocks E) (tr_utxo (fst m)) = Inr (Some (tip_at ch k))
    \<and> length sps = k - i
    \<and> tr_sink (fst m) = fold logf (map2 (\<lambda>j sp. Applied (of_nat j) (fst (ch ! j)) sp) [Suc i..<Suc k] sps) (tr_sink s)
    \<and> (case snd m of
         Inr t \<Rightarrow> k = length ch - 1 \<and> t = tip_at ch k
       | Inl e \<Rightarrow> Suc k < length ch \<and> (\<exists>s1 s2. apply_next E (tip_at ch k) s1 = (s2, Inl e)))"

lemma forward_chain:
  assumes "ready s" "i < length (chain_s s)"
    "store_tip (te_rocks E) (tr_utxo s) = Inr (Some (tip_at (chain_s s) i))"
    "\<And>e b x. te_on_event E e b x = logf e x"
  shows "\<exists>k sps. fwd_post (chain_s s) logf i s k
      (forward_loop E (of_nat (length (chain_s s) - 1)) (tip_at (chain_s s) i) s) sps"
  using assms
proof (induction "length (chain_s s) - i" arbitrary: i s rule: less_induct)
  case less
  let ?ch = "chain_s s" and ?n = "of_nat (length (chain_s s) - 1) :: u32"
  have ck: "chain_ok ?ch" using less.prems(1) by (simp add: ready_def)
  have un: "unat ?n = length ?ch - 1" using ck by (intro unat_of_nat_less) (auto simp: chain_ok_def)
  have lt: "tip_st_height (tip_at ?ch i) < ?n \<longleftrightarrow> Suc i < length ?ch"
    unfolding word_less_nat_alt un unat_tip_at [OF ck less.prems(2)] by linarith
  show ?case
  proof (cases "Suc i < length ?ch")
    case False
    then have "i = length ?ch - 1" using less.prems(2) by linarith
    moreover have "forward_loop E ?n (tip_at ?ch i) s = (s, Inr (tip_at ?ch i))"
      using False lt by (subst forward_loop.simps) simp
    ultimately show ?thesis
      using less.prems by (intro exI [of _ i] exI [of _ "[]"]) (simp add: fwd_post_def)
  next
    case True
    obtain s1 r1 where a: "apply_next E (tip_at ?ch i) s = (s1, r1)" by fastforce
    note st = apply_next_chain [OF less.prems(1) True less.prems(3) a]
    have f: "forward_loop E ?n (tip_at ?ch i) s = io_bind (s1, r1) (\<lambda>s t. forward_loop E ?n t s)"
      using True lt a by (subst forward_loop.simps) simp
    show ?thesis
    proof (cases r1)
      case (Inl e)
      then show ?thesis
        using st f a less.prems(2) True
        by (intro exI [of _ i] exI [of _ "[]"]) (auto simp: fwd_post_def)
    next
      case (Inr t)
      have t: "t = tip_at ?ch (Suc i)" and tip: "store_tip (te_rocks E) (tr_utxo s1) = Inr (Some t)"
        and nd: "tr_node s1 = tr_node s" and rd: "ready s1"
        and ev: "\<exists>sp. tr_sink s1 = logf (Applied (of_nat (Suc i)) (fst (?ch ! Suc i)) sp) (tr_sink s)"
        using st Inr less.prems(4) by auto
      have ch: "chain_s s1 = ?ch" by (rule ready_frame [OF nd])
      obtain sp where sp: "tr_sink s1 = logf (Applied (of_nat (Suc i)) (fst (?ch ! Suc i)) sp) (tr_sink s)"
        using ev by blast
      have tip': "store_tip (te_rocks E) (tr_utxo s1) = Inr (Some (tip_at (chain_s s1) (Suc i)))"
        using tip by (simp add: t ch)
      have dec: "length (chain_s s1) - Suc i < length ?ch - i" using True by (simp add: ch)
      have i1: "Suc i < length (chain_s s1)" using True by (simp add: ch)
      let ?m = "forward_loop E ?n (tip_at ?ch (Suc i)) s1"
      obtain k sps where post: "fwd_post ?ch logf (Suc i) s1 k ?m sps"
        using less.hyps [OF dec rd i1 tip' less.prems(4)] unfolding ch by blast
      define m where "m = ?m"
      have post: "fwd_post ?ch logf (Suc i) s1 k m sps" unfolding m_def by (rule post)
      have k: "Suc i \<le> k" using post by (simp add: fwd_post_def)
      have up: "[Suc i..<Suc k] = Suc i # [Suc (Suc i)..<Suc k]" using k by (simp add: upt_conv_Cons)
      have "k - i = Suc (k - Suc i)" using k by simp
      then have "fwd_post ?ch logf i s k m (sp # sps)"
        using post nd sp unfolding fwd_post_def up by (simp del: upt_Suc of_nat_Suc)
      moreover have "forward_loop E ?n (tip_at ?ch i) s = m" using f unfolding Inr t m_def by simp
      ultimately show ?thesis by metis
    qed
  qed
qed

lemma reorg_on_chain:
  assumes "chain_ok (chain_s s)" "i < length (chain_s s)"
  shows "reorg_loop E (tip_at (chain_s s) i) d s = (s, Inr (tip_at (chain_s s) i))"
proof -
  let ?ch = "chain_s s"
  have "node_hash E (tip_st_height (tip_at ?ch i)) (tr_node s) = (tr_node s, Inr (fst (?ch ! i)))"
    using nd.hash_call [of "tr_node s" "tip_st_height (tip_at ?ch i)"] unat_tip_at [OF assms] assms
    by (simp add: chain_s_def)
  moreover have "fst (?ch ! i) \<noteq> Hash32_ZERO" using assms by (simp add: chain_ok_def)
  ultimately show ?thesis by (subst reorg_loop.simps) (simp add: tip_at_def)
qed

text \<open>A tip the node does not have: one block is disconnected, then the stored tip is the node's.\<close>

lemma reorg_off_chain:
  assumes ok: "chain_ok (chain_s s)" and i: "Suc i < length (chain_s s) \<or> Suc i = length (chain_s s)"
    and loc: "unat (tip_st_height loc) = Suc i" "Suc i < length (chain_s s) \<Longrightarrow> tip_st_hash loc \<noteq> fst (chain_s s ! Suc i)"
    and depth: "te_max_reorg_depth E \<noteq> 0"
  shows "reorg_loop E loc 0 s =
    io_bind (with_store (disconnect_block (te_rocks E) (tip_st_height loc)) (emit E (ReorgStart 0) None s)) (\<lambda>t _.
    io_bind (with_store (set_tip (te_rocks E) (tip_at (chain_s s) i))
        (emit E (Disconnected (tip_st_height loc) (tip_st_hash loc)) None t)) (\<lambda>t _.
      (t, Inr (tip_at (chain_s s) i))))"
proof -
  let ?ch = "chain_s s"
  have i': "i < length ?ch" using i by linarith
  obtain r where r: "node_hash E (tip_st_height loc) (tr_node s) = (tr_node s, r)"
      "case r of Inr h \<Rightarrow> h \<noteq> tip_st_hash loc | Inl _ \<Rightarrow> True"
  proof (cases "Suc i < length ?ch")
    case True
    then show thesis
      using that nd.hash_call [of "tr_node s" "tip_st_height loc"] ok loc by (auto simp: chain_s_def)
  next
    case False
    then show thesis
      using that nd.hash_call_err [of "tr_node s" "tip_st_height loc"] ok loc(1) by (auto simp: chain_s_def)
  qed
  have nz: "tip_st_height loc \<noteq> 0" using loc(1) by auto
  have hp: "tip_st_height loc - 1 = of_nat i"
  proof -
    have "tip_st_height loc = of_nat (unat (tip_st_height loc))" by simp
    then show ?thesis unfolding loc(1) by simp
  qed
  define nh where "nh = (case r of Inr h \<Rightarrow> h | Inl _ \<Rightarrow> Hash32_ZERO)"
  have nomatch: "\<not> (nh = tip_st_hash loc \<and> nh \<noteq> Hash32_ZERO)"
    using r(2) by (auto simp: nh_def split: sum.splits)
  have d0: "\<not> te_max_reorg_depth E \<le> 0" using depth by simp
  have same: "s\<lparr>tr_node := tr_node s\<rparr> = s" by simp
  have step: "reorg_loop E loc 0 s =
    io_bind (with_store (disconnect_block (te_rocks E) (tip_st_height loc)) (emit E (ReorgStart 0) None s)) (\<lambda>t _.
    io_bind (with_node (node_hash E (of_nat i)) (emit E (Disconnected (tip_st_height loc) (tip_st_hash loc)) None t)) (\<lambda>t h.
    io_bind (with_store (set_tip (te_rocks E) \<lparr>tip_st_height = of_nat i, tip_st_hash = h\<rparr>) t) (\<lambda>t _.
      reorg_loop E \<lparr>tip_st_height = of_nat i, tip_st_hash = h\<rparr> 1 t)))"
    by (subst reorg_loop.simps)
      (simp only: r(1) prod.case Let_def nh_def [symmetric] if_not_P [OF nomatch] if_not_P [OF nz]
        if_not_P [OF d0] hp add_0 simp_thms if_True same)
  have tail: "io_bind (with_node (node_hash E (of_nat i)) t) (\<lambda>s h.
       io_bind (with_store (set_tip (te_rocks E) \<lparr>tip_st_height = of_nat i, tip_st_hash = h\<rparr>) s) (\<lambda>s _.
         reorg_loop E \<lparr>tip_st_height = of_nat i, tip_st_hash = h\<rparr> 1 s))
     = io_bind (with_store (set_tip (te_rocks E) (tip_at ?ch i)) t) (\<lambda>s _. (s, Inr (tip_at ?ch i)))"
    if t: "tr_node t = tr_node s" for t
  proof -
    have ch: "chain_s t = ?ch" using t by (simp add: chain_s_def)
    have "with_node (node_hash E (of_nat i)) t = (t, Inr (fst (?ch ! i)))"
      using with_node_hash [of t "of_nat i"] unat_tip_at [OF ok i'] ok i' by (simp add: ch tip_at_def)
    moreover obtain st where "with_store (set_tip (te_rocks E) (tip_at ?ch i)) t = (t\<lparr>tr_utxo := st\<rparr>, Inr ())"
      using set_tip_step [of "tip_at ?ch i" t] ok i' by (auto simp: tip_at_def chain_ok_def)
    moreover have "reorg_loop E (tip_at ?ch i) 1 (t\<lparr>tr_utxo := st\<rparr>) = (t\<lparr>tr_utxo := st\<rparr>, Inr (tip_at ?ch i))"
      using reorg_on_chain [of "t\<lparr>tr_utxo := st\<rparr>" i 1] ok i' t by (simp add: chain_s_def)
    ultimately show ?thesis by (simp add: tip_at_def)
  qed
  obtain n1 r1 where dc: "with_store (disconnect_block (te_rocks E) (tip_st_height loc)) (emit E (ReorgStart 0) None s) = (n1, r1)"
    by fastforce
  have "tr_node n1 = tr_node s"
    using dc by (auto simp: with_store_def emit_def split: sum.splits)
  then have ch: "chain_s n1 = ?ch" and tl: "tr_node (emit E (Disconnected (tip_st_height loc) (tip_st_hash loc)) None n1) = tr_node s"
    by (simp_all add: chain_s_def emit_def)
  show ?thesis unfolding step dc by (cases r1) (simp_all add: tail [OF tl])
qed

end

section \<open>Disconnecting consumes the undo record\<close>

fun op_cf :: "batch_op \<Rightarrow> cf" where
  "op_cf (BPut c k v) = c"
| "op_cf (BDelete c k) = c"

lemma apply_ops_frame: "\<forall>x\<in>set ops. op_cf x \<noteq> c \<Longrightarrow> apply_ops ops m c = m c"
proof (induction ops arbitrary: m)
  case Nil
  then show ?case by simp
next
  case (Cons x ops)
  then show ?case by (cases x) auto
qed

lemma disconnect_consumes:
  assumes "rocks_total R view" "disconnect_block R h st = Inr st'"
  shows "view (st_db st') CF_META = view (st_db st) CF_META" "view (st_db st') CF_UNDO (undo_key h) = None"
proof -
  have snd: "rocks_sound R view" using assms(1) by (simp add: rocks_total_def)
  from assms(2) obtain raw undo db' where
    "view (st_db st) CF_UNDO (undo_key h) = Some raw" "block_undo_decode raw = Some undo"
    and w: "r_write R (st_db st) (map (\<lambda>(key, val). BPut CF_DEFAULT key (utxo_value_encode val)) (undo_spent undo)
          @ map (BDelete CF_DEFAULT) (undo_created undo) @ [BDelete CF_UNDO (undo_key h)])
        (write_options_default\<lparr>wo_sync := True\<rparr>) = Inr db'" "st' = st\<lparr>st_db := db'\<rparr>"
    by (auto simp: disconnect_block_def rocks_total.get_view [OF assms(1)] res_simps Let_def)
  note v = rocks_sound.write_sound [OF snd w(1)]
  have v': "view (st_db st') = apply_ops (map (\<lambda>(key, val). BPut CF_DEFAULT key (utxo_value_encode val)) (undo_spent undo)
          @ map (BDelete CF_DEFAULT) (undo_created undo) @ [BDelete CF_UNDO (undo_key h)]) (view (st_db st))"
    by (simp add: w(2) v)
  show "view (st_db st') CF_META = view (st_db st) CF_META"
    unfolding v' by (rule apply_ops_frame) auto
  show "view (st_db st') CF_UNDO (undo_key h) = None"
    by (simp add: w(2) v)
qed

lemma disconnect_twice:
  assumes "rocks_total R view" "disconnect_block R h st = Inr st'"
  shows "disconnect_block R h st' = Inl (NoUndo h)"
  using disconnect_consumes(2) [OF assms]
  by (simp add: disconnect_block_def rocks_total.get_view [OF assms(1)])

section \<open>Properties\<close>

fun applied_point :: "tracker_event \<Rightarrow> (u32 \<times> hash32) option" where
  "applied_point (Applied h x sp) = Some (h, x)"
| "applied_point _ = None"

abbreviation chain_tip_at :: "chain \<Rightarrow> nat \<Rightarrow> tip_state" where
  "chain_tip_at ch i \<equiv> \<lparr>tip_st_height = of_nat i, tip_st_hash = fst (ch ! i)\<rparr>"

lemma fold_log: "fold (\<lambda>e l. l @ [e]) evs l = l @ evs"
  by (induction evs arbitrary: l) auto

lemma applied_points:
  "length sps = length js \<Longrightarrow>
    map applied_point (map2 (\<lambda>j sp. Applied (f j) (g j) sp) js sps) = map (\<lambda>j. Some (f j, g j)) js"
  by (induction js sps rule: list_induct2') auto


text \<open>C18. A reorganisation undoes one block: when the node no longer has the stored tip at its
  height (or is one block shorter), \<open>catch_up\<close> disconnects the tip block and then records the
  node's own block at the height below as the stored tip, so the next comparison always
  succeeds. Whatever block the store really holds at that height, it is never compared and never
  disconnected: after a reorganisation deeper than one block the store keeps the stale blocks and
  applies the new branch on top of them.\<close>
theorem reorg_undoes_one_block:
  assumes "node_serves (te_transport E) (te_serde E) (te_hex E) chain_of"
    and "rocks_total (te_rocks E) view" and "iterates (te_iter E)"
    and "te_max_reorg_depth E \<noteq> 0"
    and "ch = chain_of (tr_node s)" and "chain_ok ch"
    and "store_tip (te_rocks E) (tr_utxo s) = Inr (Some loc)"
    and "unat (tip_st_height loc) = Suc i" and "Suc i \<le> length ch"
    and "Suc i < length ch \<longrightarrow> tip_st_hash loc \<noteq> fst (ch ! Suc i)"
    and "disconnect_block (te_rocks E) (tip_st_height loc) (tr_utxo s) = Inr st1"
  shows "\<exists>st2. set_tip (te_rocks E) (chain_tip_at ch i) st1 = Inr st2
    \<and> catch_up E s =
        io_bind (forward_loop E (of_nat (length ch - 1)) (chain_tip_at ch i)
          (emit E (Disconnected (tip_st_height loc) (tip_st_hash loc)) None
            (emit E (ReorgStart 0) None s)\<lparr>tr_utxo := st2\<rparr>))
        (\<lambda>s tip. (emit E (CaughtUp (tip_st_height tip)) None s, Inr ()))"
proof -
  have tr: "tracked E chain_of view" by (rule tracked.intro [OF assms(1-3)])
  note ta = tracked.tip_at_def [OF tr]
  have cs: "tracked.chain_s chain_of s = ch" by (simp add: tracked.chain_s_def [OF tr] assms(5))
  have len: "length (fst (ch ! i)) = 32" using assms(6,9) by (simp add: chain_ok_def)
  obtain st2 where st2: "set_tip (te_rocks E) (chain_tip_at ch i) st1 = Inr st2"
    using set_tip_total [OF assms(2), of "chain_tip_at ch i" st1] len by auto
  have ro: "reorg_loop E loc 0 s =
    io_bind (with_store (disconnect_block (te_rocks E) (tip_st_height loc)) (emit E (ReorgStart 0) None s)) (\<lambda>t _.
    io_bind (with_store (set_tip (te_rocks E) (chain_tip_at ch i))
        (emit E (Disconnected (tip_st_height loc) (tip_st_hash loc)) None t)) (\<lambda>t _.
      (t, Inr (chain_tip_at ch i))))"
    using tracked.reorg_off_chain [OF tr, of s i loc] assms(4,6,8-10) unfolding cs ta by linarith
  have "reorg_loop E loc 0 s = (emit E (Disconnected (tip_st_height loc) (tip_st_hash loc)) None
      (emit E (ReorgStart 0) None s)\<lparr>tr_utxo := st2\<rparr>, Inr (chain_tip_at ch i))"
    unfolding ro by (simp add: with_store_def emit_def assms(11) st2)
  then have "catch_up E s =
        io_bind (forward_loop E (of_nat (length ch - 1)) (chain_tip_at ch i)
          (emit E (Disconnected (tip_st_height loc) (tip_st_hash loc)) None
            (emit E (ReorgStart 0) None s)\<lparr>tr_utxo := st2\<rparr>))
        (\<lambda>s tip. (emit E (CaughtUp (tip_st_height tip)) None s, Inr ()))"
    using tracked.with_node_count [OF tr, of s] assms(6,7) cs by (simp add: catch_up_def)
  with st2 show ?thesis by blast
qed


section \<open>A tracker on in-memory components\<close>

definition ex_tracker_env :: "(chain, db_view, tracker_event list) tracker_env" where
  "ex_tracker_env = \<lparr>te_transport = json_node std_hex, te_serde = std_serde, te_hex = std_hex,
     te_digests = pad_digests, te_rocks = map_rocks, te_iter = (\<lambda>xs. xs),
     te_max_reorg_depth = max_reorg_depth_default, te_on_event = (\<lambda>e b l. l @ [e])\<rparr>"

interpretation tx: tracked ex_tracker_env "\<lambda>ch. ch" "\<lambda>db. db"
  by (rule tracked.intro) (simp_all add: ex_tracker_env_def jn.node_serves_axioms mr.rocks_total_axioms iterates_id)

definition ex_chain :: chain where
  "ex_chain = [(replicate 32 1, zeros 81), (replicate 32 2, zeros 81)]"

lemma ex_chain_ok: "chain_ok ex_chain"
proof -
  have "replicate 32 (1 :: byte) ! 0 \<noteq> replicate 32 2 ! 0" "replicate 32 (1 :: byte) ! 0 \<noteq> Hash32_ZERO ! 0"
    "replicate 32 (2 :: byte) ! 0 \<noteq> Hash32_ZERO ! 0"
    by (simp_all add: Hash32_ZERO_def)
  then have "replicate 32 (1 :: byte) \<noteq> replicate 32 2" "replicate 32 (1 :: byte) \<noteq> Hash32_ZERO"
    "replicate 32 (2 :: byte) \<noteq> Hash32_ZERO" by metis+
  then show ?thesis by (simp add: chain_ok_def ex_chain_def)
qed

text \<open>A store with a given tip and one applied block at its height.\<close>

lemma ex_tip_store:
  fixes h :: u32
  assumes "length x = 32"
  shows "\<exists>st st1. store_tip map_rocks st = Inr (Some \<lparr>tip_st_height = h, tip_st_hash = x\<rparr>)
    \<and> st_recent st = None \<and> disconnect_block map_rocks h st = Inr st1"
proof -
  let ?t = "\<lparr>tip_st_height = h, tip_st_hash = x\<rparr>"
  let ?st0 = "mem_store True None (\<lambda>_. Map.empty)"
  obtain st1 where st1: "set_tip map_rocks ?t ?st0 = Inr st1" "store_tip map_rocks st1 = Inr (Some ?t)"
      "st_recent st1 = None" "st_undo_enabled st1" "st_db st1 CF_DEFAULT = Map.empty"
    using set_tip_total [OF mr.rocks_total_axioms, of ?t ?st0] assms by (auto simp: mem_store_def)
  obtain res st2 where st2: "apply_block map_rocks (\<lambda>xs. xs) h [] [] [] st1 = Inr (res, st2)"
    using apply_block_total [OF mr.rocks_total_axioms, of "[]" "[]" "[]" "\<lambda>xs. xs" h st1]
    by (auto simp: indices_ok_def)
  have coh: "coherent (utxos (st_db st1)) (st_recent st1)" using st1(3) by (simp add: coherent_def)
  have snd: "rocks_sound map_rocks (\<lambda>db. db)" using mr.rocks_total_axioms by (simp add: rocks_total_def)
  have "st_db st2 CF_META = st_db st1 CF_META"
    by (rule apply_block_view(2) [OF snd iterates_id coh st2])
  then have "store_tip map_rocks st2 = Inr (Some ?t)"
    using st1(2) by (simp add: store_tip_def mr.get_view)
  moreover have "st_recent st2 = None" by (rule apply_block_result(6) [OF snd iterates_id coh st2 st1(3)])
  moreover have "\<exists>st3. disconnect_block map_rocks h st2 = Inr st3"
    using disconnect_restores [OF mr.rocks_total_axioms iterates_id st1(4,3) _ _ st2]
    by (auto simp: rows_ok_def fresh_outputs_def)
  ultimately show ?thesis by blast
qed


theorem reorg_undoes_one_block_witness:
  "\<exists>s st1 st2. disconnect_block map_rocks 1 (tr_utxo s) = Inr st1
    \<and> set_tip map_rocks (chain_tip_at ex_chain 0) st1 = Inr st2
    \<and> catch_up ex_tracker_env s =
        io_bind (forward_loop ex_tracker_env 1 (chain_tip_at ex_chain 0)
          (emit ex_tracker_env (Disconnected 1 (replicate 32 3)) None
            (emit ex_tracker_env (ReorgStart 0) None s)\<lparr>tr_utxo := st2\<rparr>))
        (\<lambda>s tip. (emit ex_tracker_env (CaughtUp (tip_st_height tip)) None s, Inr ()))"
proof -
  let ?loc = "\<lparr>tip_st_height = 1, tip_st_hash = replicate 32 3\<rparr> :: tip_state"
  obtain st st1 where st: "store_tip map_rocks st = Inr (Some ?loc)" "disconnect_block map_rocks 1 st = Inr st1"
    using ex_tip_store [of "replicate 32 3" 1] by auto
  let ?s = "\<lparr>tr_node = ex_chain, tr_utxo = st, tr_sink = []\<rparr> :: (chain, db_view, tracker_event list) tracker"
  have "replicate 32 (3 :: byte) ! 0 \<noteq> replicate 32 2 ! 0" by simp
  then have ne: "replicate 32 (3 :: byte) \<noteq> replicate 32 2" by metis
  have ch: "length ex_chain = 2" "fst (ex_chain ! Suc 0) = replicate 32 2" by (simp_all add: ex_chain_def)
  have env: "te_rocks ex_tracker_env = map_rocks" "te_max_reorg_depth ex_tracker_env \<noteq> 0"
    by (simp_all add: ex_tracker_env_def max_reorg_depth_default_def)
  have "\<exists>st2. set_tip map_rocks (chain_tip_at ex_chain 0) st1 = Inr st2
    \<and> catch_up ex_tracker_env ?s =
        io_bind (forward_loop ex_tracker_env 1 (chain_tip_at ex_chain 0)
          (emit ex_tracker_env (Disconnected 1 (replicate 32 3)) None
            (emit ex_tracker_env (ReorgStart 0) None ?s)\<lparr>tr_utxo := st2\<rparr>))
        (\<lambda>s tip. (emit ex_tracker_env (CaughtUp (tip_st_height tip)) None s, Inr ()))"
    using reorg_undoes_one_block [OF tx.serves tx.rocks tx.iter env(2), of ex_chain ?s ?loc 0 st1]
      ex_chain_ok st ne ch by (simp add: env(1))
  with st(2) show ?thesis by (intro exI [of _ ?s]) simp
qed


end
