(* ===== verification/Cli_Live.thy ===== *)
theory Cli_Live
  imports Cli_Pipeline Live_Tracker Live_Http Store_Open
begin

text \<open>
  \<open>bidx-cli/src/live.rs\<close>: the live command. \<open>LiveSink\<close> writes the applied blocks to Parquet part files
  of \<open>LIVE_BLOCKS_PER_PART\<close> heights; \<open>run_live\<close> prepares the disk guard and runs the tracker with a
  callback that feeds the sink and the checkpoint recorder.

  \<open>ls_disk\<close> is what lies in the output directory: the closed files of each part. Creating the
  writers of a part truncates its files (\<open>File::create\<close>), so it removes the part from \<open>ls_disk\<close> until
  the writers are closed. The callback logs a failed write and goes on; what a Parquet writer
  does after a failed write is outside the model, which stops there with \<open>LvWriteFailed\<close>. A failed
  rotation and the \<open>expect\<close> on the missing sink are modelled.
\<close>

section \<open>The rotating sink\<close>

definition LIVE_BLOCKS_PER_PART :: u32 where
  "LIVE_BLOCKS_PER_PART = 1000"

record ('w, 'fl) live_sink =
  ls_dir :: path
  ls_part :: u32
  ls_sink :: "'w parquet_sink option"
  ls_disk :: "u32 \<rightharpoonup> 'fl sink_files"

datatype live_error = LsRotate sink_error | LsPush sink_error | LsNoSink

definition live_create ::
    "('w, 'fl) arrow \<Rightarrow> path \<Rightarrow> u32 \<Rightarrow> (u32 \<rightharpoonup> 'fl sink_files) \<Rightarrow> sink_error + ('w, 'fl) live_sink" where
  "live_create A dir start_part disk =
    res_bind (sink_create A dir start_part sink_config_default) (\<lambda>sink.
      Inr \<lparr>ls_dir = dir, ls_part = start_part, ls_sink = Some sink, ls_disk = disk(start_part := None)\<rparr>)"

text \<open>The old sink is taken out before it is finished; the part number changes last.\<close>

definition close_part :: "('w, 'fl) arrow \<Rightarrow> ('w, 'fl) live_sink \<Rightarrow> (('w, 'fl) live_sink, live_error, unit) io" where
  "close_part A s =
    (case ls_sink s of
       None \<Rightarrow> (s, Inr ())
     | Some sk \<Rightarrow>
       let s = s\<lparr>ls_sink := None\<rparr> in
       (case sink_finish A sk of
          Inl e \<Rightarrow> (s, Inl (LsRotate e))
        | Inr fl \<Rightarrow> (s\<lparr>ls_disk := (ls_disk s)(sk_part sk \<mapsto> fl)\<rparr>, Inr ())))"

definition rotate_if_needed ::
    "('w, 'fl) arrow \<Rightarrow> u32 \<Rightarrow> ('w, 'fl) live_sink \<Rightarrow> (('w, 'fl) live_sink, live_error, unit) io" where
  "rotate_if_needed A height s =
    (let wanted = height div LIVE_BLOCKS_PER_PART in
     if wanted \<noteq> ls_part s then
       io_bind (close_part A s) (\<lambda>s _.
         case sink_create A (ls_dir s) wanted sink_config_default of
           Inl e \<Rightarrow> (s, Inl (LsRotate e))
         | Inr sink \<Rightarrow>
             (s\<lparr>ls_sink := Some sink, ls_part := wanted, ls_disk := (ls_disk s)(wanted := None)\<rparr>, Inr ()))
     else (s, Inr ()))"

definition write_block ::
    "('w, 'fl) arrow \<Rightarrow> full_block \<Rightarrow> spend_row list \<Rightarrow> ('w, 'fl) live_sink
      \<Rightarrow> (('w, 'fl) live_sink, live_error, unit) io" where
  "write_block A block spends s =
    io_bind (rotate_if_needed A (b_height (fb_block_row block)) s) (\<lambda>s _.
      case ls_sink s of
        None \<Rightarrow> (s, Inl LsNoSink)
      | Some sk \<Rightarrow>
        (case push_rows A block spends sk of
           Inl e \<Rightarrow> (s, Inl (LsPush e))
         | Inr sk' \<Rightarrow> (s\<lparr>ls_sink := Some sk'\<rparr>, Inr ())))"

section \<open>The live command\<close>

record live_config =
  lc_rpc_url :: string
  lc_cookie :: "path option"
  lc_rpc_user :: "string option"
  lc_rpc_password :: "string option"
  lc_zmq :: "string option"
  lc_utxo :: path
  lc_out :: "path option"
  lc_max_reorg_depth :: u32
  lc_blocks_dir :: "path option"
  lc_network :: "network option"
  lc_skip_disk_check :: bool
  lc_checkpoint_file :: "path option"

datatype live_status = LvRunning | LvPanicked | LvWriteFailed sink_error

record ('w, 'fl, 'h) live_state =
  lv_sink :: "('w, 'fl) live_sink option"
  lv_host :: "'h \<times> disk_recorder"
  lv_status :: live_status

text \<open>The event callback. Errors of a rotation and of the recorder are logged and dropped.\<close>

definition sink_applied ::
    "('w, 'fl) arrow \<Rightarrow> full_block option \<Rightarrow> spend_row list \<Rightarrow> ('w, 'fl, 'h) live_state \<Rightarrow> ('w, 'fl, 'h) live_state" where
  "sink_applied A block spends v =
    (case (lv_sink v, block) of
       (Some s, Some b) \<Rightarrow>
         (case write_block A b spends s of
            (s, Inr _) \<Rightarrow> v\<lparr>lv_sink := Some s\<rparr>
          | (s, Inl (LsRotate e)) \<Rightarrow> v\<lparr>lv_sink := Some s\<rparr>
          | (s, Inl LsNoSink) \<Rightarrow> v\<lparr>lv_sink := Some s, lv_status := LvPanicked\<rparr>
          | (s, Inl (LsPush e)) \<Rightarrow> v\<lparr>lv_sink := Some s, lv_status := LvWriteFailed e\<rparr>)
     | _ \<Rightarrow> v)"

fun live_event ::
    "('w, 'fl) arrow \<Rightarrow> 'h host \<Rightarrow> tracker_event \<Rightarrow> full_block option \<Rightarrow> ('w, 'fl, 'h) live_state
      \<Rightarrow> ('w, 'fl, 'h) live_state" where
  "live_event A H (Applied height hash spends) block v =
    (if lv_status v \<noteq> LvRunning then v
     else
       let v = sink_applied A block spends v in
       if lv_status v \<noteq> LvRunning then v
       else v\<lparr>lv_host := fst (on_block_applied H height (lv_host v))\<rparr>)"
| "live_event A H (Disconnected height hash) block v = v"
| "live_event A H (ReorgStart depth) block v = v"
| "live_event A H (CaughtUp height) block v = v"

definition live_disk_config :: "fs \<Rightarrow> live_config \<Rightarrow> disk_guard_config" where
  "live_disk_config F cfg =
    (let net = (case lc_network cfg of Some net \<Rightarrow> net
          | None \<Rightarrow> (case Option.bind (lc_blocks_dir cfg) (detect_from_blocks_dir F) of Some net \<Rightarrow> net | None \<Rightarrow> Mainnet));
         parent_of_utxo = (case parent (lc_utxo cfg) of Some p \<Rightarrow> p | None \<Rightarrow> [''.''])
     in \<lparr>checkpoint_file = (case lc_checkpoint_file cfg of Some p \<Rightarrow> p
            | None \<Rightarrow> parent_of_utxo @ [DEFAULT_CHECKPOINT_FILE_NAME]),
         dg_network = net, index_root = parent_of_utxo,
         tracked_dirs = lc_utxo cfg # (case lc_out cfg of Some out \<Rightarrow> [out] | None \<Rightarrow> [])\<rparr>)"

datatype live_run_error =
    LrRpc rpc_error | LrZmq zmq_error | LrUtxo utxo_error | LrGuard guard_error | LrSink sink_error | LrTracker tracker_error

definition live_preflight ::
    "'f f64 \<Rightarrow> 'h host \<Rightarrow> 'h \<Rightarrow> 'n transport \<Rightarrow> serde \<Rightarrow> 'db rocks \<Rightarrow> 'db utxo_store \<Rightarrow> live_config
      \<Rightarrow> disk_guard_config \<Rightarrow> 'n \<Rightarrow> ('n, live_run_error, unit) io" where
  "live_preflight FL H w T D R st cfg disk_cfg n =
    (if lc_skip_disk_check cfg then (n, Inr ())
     else io_bind (case get_block_count T D n of (n, r) \<Rightarrow> (n, map_err LrRpc r)) (\<lambda>n node_tip.
       io_bind (n, map_err LrUtxo (store_tip R st)) (\<lambda>n stored.
       let cps = read_checkpoints H w (checkpoint_file disk_cfg) (dg_network disk_cfg);
           local_tip_ckpt = (if cps = [] then 0 else cp_height (last cps));
           local_tip_utxo = (case stored of Some t \<Rightarrow> tip_st_height t | None \<Rightarrow> 0);
           local_tip = max local_tip_ckpt local_tip_utxo
       in io_bind (n, map_err LrGuard (run_pre_flight FL H w disk_cfg node_tip local_tip MIN_FREE_BYTES))
            (\<lambda>n _. (n, Inr ())))))"

definition start_part_of :: "tip_state option \<Rightarrow> u32" where
  "start_part_of stored =
    (case stored of Some t \<Rightarrow> (tip_st_height t + 1) div LIVE_BLOCKS_PER_PART | None \<Rightarrow> 0)"

definition live_sink_start ::
    "('w, 'fl) arrow \<Rightarrow> live_config \<Rightarrow> tip_state option \<Rightarrow> (u32 \<rightharpoonup> 'fl sink_files) \<Rightarrow> sink_error + ('w, 'fl) live_sink option" where
  "live_sink_start A cfg stored disk =
    (case lc_out cfg of
       None \<Rightarrow> Inr None
     | Some d \<Rightarrow> res_bind (live_create A d (start_part_of stored) disk) (\<lambda>s. Inr (Some s)))"

text \<open>
  The whole command. The outside world (crates, host, output directory) and the number of rounds of the
  tracker's endless loop are arguments; the rounds are notifications with an endpoint and polls without.
\<close>

definition live_rounds :: "'k zmq_crate \<Rightarrow> live_config \<Rightarrow> nat \<Rightarrow> zmq_error + ((zmq_error + hash32) list + nat)" where
  "live_rounds Z cfg rounds =
    (case lc_zmq cfg of
       Some ep \<Rightarrow> res_bind (zmq_connect Z \<lparr>hashblock_endpoint = ep\<rparr>) (\<lambda>sock. Inr (Inl (block_hashes Z rounds sock)))
     | None \<Rightarrow> Inr (Inr rounds))"

definition run_live ::
    "'f f64 \<Rightarrow> fs \<Rightarrow> 'h host \<Rightarrow> ('w, 'fl) arrow \<Rightarrow> ('n, 'c, 'r) http_crate \<Rightarrow> 'k zmq_crate \<Rightarrow> 'db rocks_admin
      \<Rightarrow> ('n, 'db, ('w, 'fl, 'h) live_state) tracker_env \<Rightarrow> nat \<Rightarrow> (u32 \<rightharpoonup> 'fl sink_files) \<Rightarrow> 'h \<Rightarrow> live_config \<Rightarrow> 'n
      \<Rightarrow> live_run_error + ('n, 'db, ('w, 'fl, 'h) live_state) tracker \<times> tracker_error option" where
  "run_live FL F H A Q Z AD E rounds disk w cfg n =
    res_bind (map_err LrRpc (node_new Q (h_read H w)
      \<lparr>rpc_url = lc_rpc_url cfg, cookie_path = lc_cookie cfg, rpc_user = lc_rpc_user cfg,
       rpc_password = lc_rpc_password cfg\<rparr>)) (\<lambda>node.
    res_bind (map_err LrZmq (live_rounds Z cfg rounds)) (\<lambda>rounds.
    res_bind (map_err LrUtxo (open_live AD (lc_utxo cfg))) (\<lambda>st.
    let disk_cfg = live_disk_config F cfg in
    case live_preflight FL H w node (te_serde E) (te_rocks E) st cfg disk_cfg n of (n, pre) \<Rightarrow>
    res_bind pre (\<lambda>_.
    let recorder = recorder_new H w disk_cfg in
    res_bind (map_err LrUtxo (store_tip (te_rocks E) st)) (\<lambda>stored.
    res_bind (map_err LrSink (live_sink_start A cfg stored disk)) (\<lambda>sink.
    let E = E\<lparr>te_transport := node, te_max_reorg_depth := lc_max_reorg_depth cfg, te_on_event := live_event A H\<rparr>;
        s = \<lparr>tr_node = n, tr_utxo = st,
             tr_sink = \<lparr>lv_sink = sink, lv_host = (w, recorder), lv_status = LvRunning\<rparr>\<rparr>
    in case tracker_run E rounds s of
         (s, Inr _) \<Rightarrow> Inr (s, None)
       | (s, Inl e) \<Rightarrow> Inr (s, Some e)))))))"

section \<open>What the part files hold\<close>

text \<open>
  The abstract view of the sink: the part being written with the rows so far, and the rows of every
  closed part. Turning to another part closes the current one and starts the other from nothing.
\<close>

definition block_ops :: "full_block \<Rightarrow> spend_row list \<Rightarrow> sink_op list" where
  "block_ops b spends = PushBlock (fb_block_row b) # map PushTx (fb_txs b) @ map PushInput (fb_inputs b)
     @ map PushOutput (fb_outputs b) @ map PushSpend spends"

record part_log =
  pl_part :: u32
  pl_cur :: "sink_op list"
  pl_disk :: "u32 \<rightharpoonup> sink_op list"

definition part_of :: "full_block \<Rightarrow> u32" where
  "part_of b = b_height (fb_block_row b) div LIVE_BLOCKS_PER_PART"

definition turn_to :: "u32 \<Rightarrow> part_log \<Rightarrow> part_log" where
  "turn_to p l =
    (if p = pl_part l then l
     else \<lparr>pl_part = p, pl_cur = [], pl_disk = (pl_disk l)(pl_part l \<mapsto> pl_cur l, p := None)\<rparr>)"

definition log_block :: "full_block \<times> spend_row list \<Rightarrow> part_log \<Rightarrow> part_log" where
  "log_block x l = (let l = turn_to (part_of (fst x)) l in l\<lparr>pl_cur := pl_cur l @ block_ops (fst x) (snd x)\<rparr>)"

definition log_start :: "u32 \<Rightarrow> (u32 \<rightharpoonup> sink_op list) \<Rightarrow> part_log" where
  "log_start p D = \<lparr>pl_part = p, pl_cur = [], pl_disk = D(p := None)\<rparr>"

definition log_closed :: "part_log \<Rightarrow> u32 \<rightharpoonup> sink_op list" where
  "log_closed l = (pl_disk l)(pl_part l \<mapsto> pl_cur l)"

definition files_hold :: "('fl \<Rightarrow> cell list list) \<Rightarrow> 'fl sink_files \<Rightarrow> sink_op list \<Rightarrow> bool" where
  "files_hold contents fl ops \<longleftrightarrow> contents (fl_blocks fl) = blocks_of ops \<and> contents (fl_txs fl) = txs_of ops
     \<and> contents (fl_inputs fl) = inputs_of ops \<and> contents (fl_outputs fl) = outputs_of ops
     \<and> contents (fl_spends fl) = spends_of ops"

definition rows_fit :: "full_block \<times> spend_row list \<Rightarrow> bool" where
  "rows_fit x \<longleftrightarrow> (\<forall>op\<in>set (block_ops (fst x) (snd x)). op_ok op)"

fun write_all ::
    "('w, 'fl) arrow \<Rightarrow> (full_block \<times> spend_row list) list \<Rightarrow> ('w, 'fl) live_sink \<Rightarrow> (('w, 'fl) live_sink, live_error, unit) io" where
  "write_all A [] s = (s, Inr ())"
| "write_all A (x # xs) s = io_bind (write_block A (fst x) (snd x) s) (\<lambda>s _. write_all A xs s)"

lemma res_fold_append_fun: "res_fold f (xs @ ys) = (\<lambda>s. res_bind (res_fold f xs s) (res_fold f ys))"
  by (rule ext) (rule res_fold_append)

lemma res_fold_map: "res_fold f (map g xs) = res_fold (\<lambda>x. f (g x)) xs"
proof (rule ext)
  fix s
  show "res_fold f (map g xs) s = res_fold (\<lambda>x. f (g x)) xs s"
    by (induction xs arbitrary: s) (auto intro: res_bind_cong)
qed

lemma push_rows_fold: "push_rows A b spends sk = res_fold (sink_step A) (block_ops b spends) sk"
proof -
  have "(\<lambda>x. sink_step A (PushTx x)) = push_tx A" "(\<lambda>x. sink_step A (PushInput x)) = push_input A"
    "(\<lambda>x. sink_step A (PushOutput x)) = push_output A" "(\<lambda>x. sink_step A (PushSpend x)) = push_spend A"
    by (simp_all add: fun_eq_iff)
  then show ?thesis by (simp add: push_rows_def block_ops_def res_fold_append_fun res_fold_map)
qed

lemma sink_step_part: "sink_step A x s = Inr s' \<Longrightarrow> sk_part s' = sk_part s"
  by (cases x) (auto simp: push_as_row res_simps)

lemma sink_steps_part: "res_fold (sink_step A) xs s = Inr s' \<Longrightarrow> sk_part s' = sk_part s"
  by (erule res_fold_invariant) (auto dest: sink_step_part)

lemma sink_create_part: "sink_create A dir p cfg = Inr s \<Longrightarrow> sk_part s = p"
  by (auto simp: sink_create_def res_simps)

context arrow_total
begin

definition live_rep :: "part_log \<Rightarrow> ('a, 'b) live_sink \<Rightarrow> bool" where
  "live_rep l s \<longleftrightarrow> ls_part s = pl_part l
     \<and> (\<exists>sk. ls_sink s = Some sk \<and> sk_part sk = pl_part l \<and> sink_rep sink_config_default (pl_cur l) sk)
     \<and> (\<forall>p. rel_option (files_hold contents) (ls_disk s p) (pl_disk l p))"

lemma live_create_rep:
  assumes "\<forall>p. rel_option (files_hold contents) (disk p) (D p)"
  shows "\<exists>s. live_create A dir p0 disk = Inr s \<and> live_rep (log_start p0 D) s"
proof -
  obtain sk where sk: "sink_create A dir p0 sink_config_default = Inr sk" using create_total' by blast
  then show ?thesis
    using assms create_rep [OF sk] sink_create_part [OF sk]
    by (auto simp: live_create_def live_rep_def log_start_def)
qed

lemma close_part_rep:
  assumes "live_rep l s"
  shows "\<exists>s'. close_part A s = (s', Inr ()) \<and> ls_sink s' = None \<and> ls_dir s' = ls_dir s \<and> ls_part s' = ls_part s
    \<and> (\<forall>p. rel_option (files_hold contents) (ls_disk s' p) (log_closed l p))"
proof -
  obtain sk where sk: "ls_sink s = Some sk" "sk_part sk = pl_part l" "sink_rep sink_config_default (pl_cur l) sk"
    using assms by (auto simp: live_rep_def)
  obtain fl where fl: "sink_finish A sk = Inr fl" using finish_total [OF sk(3)] by blast
  have "files_hold contents fl (pl_cur l)" using finish_rep [OF fl sk(3)] by (simp add: files_hold_def)
  then show ?thesis
    using assms sk fl by (simp add: close_part_def log_closed_def live_rep_def)
qed

lemma rotate_rep:
  assumes "live_rep l s"
  shows "\<exists>s'. rotate_if_needed A h s = (s', Inr ()) \<and> live_rep (turn_to (h div LIVE_BLOCKS_PER_PART) l) s'"
proof (cases "h div LIVE_BLOCKS_PER_PART = pl_part l")
  case True
  then show ?thesis using assms by (simp add: rotate_if_needed_def turn_to_def live_rep_def Let_def)
next
  case False
  obtain s1 where s1: "close_part A s = (s1, Inr ())"
      "\<forall>p. rel_option (files_hold contents) (ls_disk s1 p) (log_closed l p)"
    using close_part_rep [OF assms] by blast
  obtain sk where sk: "sink_create A (ls_dir s1) (h div LIVE_BLOCKS_PER_PART) sink_config_default = Inr sk"
    using create_total' by blast
  have "ls_part s = pl_part l" using assms by (simp add: live_rep_def)
  then show ?thesis
    using False s1 sk create_rep [OF sk] sink_create_part [OF sk]
    by (simp add: rotate_if_needed_def turn_to_def live_rep_def Let_def log_closed_def)
qed

lemma write_block_rep:
  assumes "live_rep l s" and "rows_fit x"
  shows "\<exists>s'. write_block A (fst x) (snd x) s = (s', Inr ()) \<and> live_rep (log_block x l) s'"
proof -
  let ?l = "turn_to (part_of (fst x)) l"
  obtain s1 where s1: "rotate_if_needed A (b_height (fb_block_row (fst x))) s = (s1, Inr ())" "live_rep ?l s1"
    using rotate_rep [OF assms(1)] by (auto simp: part_of_def)
  then obtain sk where sk: "ls_sink s1 = Some sk" "sk_part sk = pl_part ?l" "sink_rep sink_config_default (pl_cur ?l) sk"
    by (auto simp: live_rep_def)
  have ok: "\<forall>op\<in>set (block_ops (fst x) (snd x)). op_ok op" using assms(2) by (simp add: rows_fit_def)
  obtain sk' where sk': "res_fold (sink_step A) (block_ops (fst x) (snd x)) sk = Inr sk'"
    using run_total [OF sk(3) ok] by blast
  then show ?thesis
    using s1 sk run_rep [OF sk' sk(3) ok] sink_steps_part [OF sk']
    by (simp add: write_block_def push_rows_fold log_block_def live_rep_def Let_def)
qed

lemma write_all_rep:
  "live_rep l s \<Longrightarrow> \<forall>x\<in>set xs. rows_fit x \<Longrightarrow> \<exists>s'. write_all A xs s = (s', Inr ()) \<and> live_rep (fold log_block xs l) s'"
proof (induction xs arbitrary: l s)
  case (Cons x xs)
  obtain s1 where "write_block A (fst x) (snd x) s = (s1, Inr ())" "live_rep (log_block x l) s1"
    using write_block_rep [OF Cons.prems(1), of x] Cons.prems(2) by auto
  then show ?case using Cons.IH [of "log_block x l" s1] Cons.prems(2) by simp
qed simp

lemma live_run_rep:
  assumes "\<forall>p. rel_option (files_hold contents) (disk p) (D p)" and "\<forall>x\<in>set xs. rows_fit x"
  shows "\<exists>s0 s s'. live_create A dir p0 disk = Inr s0 \<and> write_all A xs s0 = (s, Inr ()) \<and> close_part A s = (s', Inr ())
    \<and> (\<forall>p. rel_option (files_hold contents) (ls_disk s' p) (log_closed (fold log_block xs (log_start p0 D)) p))"
proof -
  obtain s0 where s0: "live_create A dir p0 disk = Inr s0" "live_rep (log_start p0 D) s0"
    using live_create_rep [OF assms(1)] by blast
  obtain s where s: "write_all A xs s0 = (s, Inr ())" "live_rep (fold log_block xs (log_start p0 D)) s"
    using write_all_rep [OF s0(2) assms(2)] by blast
  show ?thesis using s0 s close_part_rep [OF s(2)] by blast
qed

end

text \<open>Blocks that come part by part.\<close>

definition ops_of_part :: "u32 \<Rightarrow> (full_block \<times> spend_row list) list \<Rightarrow> sink_op list" where
  "ops_of_part p xs = concat (map (\<lambda>x. block_ops (fst x) (snd x)) (filter (\<lambda>x. part_of (fst x) = p) xs))"

definition logged :: "u32 \<Rightarrow> (u32 \<rightharpoonup> sink_op list) \<Rightarrow> (full_block \<times> spend_row list) list \<Rightarrow> u32 \<rightharpoonup> sink_op list" where
  "logged p0 D xs p = (if p = p0 \<or> (\<exists>x\<in>set xs. part_of (fst x) = p) then Some (ops_of_part p xs) else D p)"

definition in_order :: "u32 \<Rightarrow> (u32 \<rightharpoonup> sink_op list) \<Rightarrow> (full_block \<times> spend_row list) list \<Rightarrow> part_log \<Rightarrow> bool" where
  "in_order p0 D xs l \<longleftrightarrow> (\<forall>x\<in>set xs. part_of (fst x) \<le> pl_part l) \<and> p0 \<le> pl_part l
     \<and> (pl_part l = p0 \<or> (\<exists>x\<in>set xs. part_of (fst x) = pl_part l))
     \<and> pl_cur l = ops_of_part (pl_part l) xs
     \<and> (\<forall>p. p \<noteq> pl_part l \<longrightarrow> pl_disk l p = logged p0 D xs p)"

lemma in_order_start: "in_order p0 D [] (log_start p0 D)"
  by (simp add: in_order_def log_start_def ops_of_part_def logged_def)

lemma in_order_step:
  assumes "in_order p0 D xs l" and "\<forall>y\<in>set xs. part_of (fst y) \<le> part_of (fst x)" and "p0 \<le> part_of (fst x)"
  shows "in_order p0 D (xs @ [x]) (log_block x l)"
proof (cases "part_of (fst x) = pl_part l")
  case True
  then show ?thesis
    using assms(1) by (auto simp: in_order_def log_block_def turn_to_def Let_def ops_of_part_def logged_def)
next
  case False
  have "pl_part l \<le> part_of (fst x)" using assms by (auto simp: in_order_def)
  then have lt: "pl_part l < part_of (fst x)" using False by simp
  then have "\<forall>y\<in>set xs. part_of (fst y) \<noteq> part_of (fst x)" using assms(1) by (auto simp: in_order_def)
  then have "ops_of_part (part_of (fst x)) xs = []" by (simp add: ops_of_part_def filter_empty_conv)
  then show ?thesis
    using assms False lt by (auto simp: in_order_def log_block_def turn_to_def Let_def ops_of_part_def logged_def)
qed

lemma log_in_order:
  assumes "sorted (map (\<lambda>x. part_of (fst x)) xs)" and "\<forall>x\<in>set xs. p0 \<le> part_of (fst x)"
  shows "log_closed (fold log_block xs (log_start p0 D)) = logged p0 D xs"
proof -
  have "in_order p0 D xs (fold log_block xs (log_start p0 D))"
    using assms
  proof (induction xs rule: rev_induct)
    case Nil
    then show ?case using in_order_start by simp
  next
    case (snoc x xs)
    then show ?case by (simp add: sorted_append in_order_step)
  qed
  then show ?thesis by (auto simp: log_closed_def in_order_def fun_eq_iff logged_def)
qed

section \<open>Properties\<close>

text \<open>C26. The Parquet parts of the live command. With writers that do not fail, for blocks whose part
  numbers never decrease and start at or above the start part: every part that was written holds,
  once closed, exactly the rows of its blocks in order, in all five tables, and the parts that were
  not touched keep what they held. The start part does not: whatever it held before is gone, so a
  restart in the middle of a part loses the rows already written to it.\<close>
theorem live_parts_exact:
  assumes "arrow_total A written contents" and "\<forall>p. rel_option (files_hold contents) (disk p) (D p)"
    and "\<forall>x\<in>set xs. rows_fit x" and "sorted (map (\<lambda>x. part_of (fst x)) xs)"
    and "\<forall>x\<in>set xs. p0 \<le> part_of (fst x)"
  shows "\<exists>s0 s s'. live_create A dir p0 disk = Inr s0 \<and> write_all A xs s0 = (s, Inr ()) \<and> close_part A s = (s', Inr ())
    \<and> (\<forall>p. rel_option (files_hold contents) (ls_disk s' p)
         (if p = p0 \<or> (\<exists>x\<in>set xs. part_of (fst x) = p) then Some (ops_of_part p xs) else D p))"
  using arrow_total.live_run_rep [OF assms(1-3), of dir p0]
  unfolding log_in_order [OF assms(4,5)] logged_def .

text \<open>C27. A reorganisation across a part boundary loses a whole part: after blocks in part \<open>p\<close> and
  then a block in part \<open>p + 1\<close>, a block back in part \<open>p\<close> reopens its files from nothing, and the
  closed part holds the rows of that last block alone.\<close>
theorem live_reorg_truncates_part:
  assumes "arrow_total A written contents" and "\<forall>x\<in>set (xs @ [y, z]). rows_fit x"
    and "\<forall>x\<in>set xs. part_of (fst x) = p" and "part_of (fst y) = p + 1" and "part_of (fst z) = p"
  shows "\<exists>s0 s s' fl. live_create A dir p (\<lambda>_. None) = Inr s0 \<and> write_all A (xs @ [y, z]) s0 = (s, Inr ())
    \<and> close_part A s = (s', Inr ()) \<and> ls_disk s' p = Some fl \<and> files_hold contents fl (block_ops (fst z) (snd z))"
proof -
  let ?l = "fold log_block xs (log_start p (\<lambda>_. None))"
  have ne: "p + 1 \<noteq> p" by simp
  have "pl_part ?l = p" using assms(3)
    by (induction xs rule: rev_induct) (simp_all add: log_start_def log_block_def turn_to_def Let_def)
  then have "log_closed (fold log_block (xs @ [y, z]) (log_start p (\<lambda>_. None))) p = Some (block_ops (fst z) (snd z))"
    using assms(4,5) ne by (auto simp: log_block_def turn_to_def Let_def log_closed_def)
  moreover have "\<forall>p. rel_option (files_hold contents) (None :: 'b sink_files option) (None :: sink_op list option)" by simp
  ultimately show ?thesis
    using arrow_total.live_run_rep [OF assms(1) _ assms(2), of "\<lambda>_. None" "\<lambda>_. None" dir p]
    by (auto simp: rel_option_iff split: option.splits) (metis option.rel_cases option.sel option.simps(3))
qed

definition ex_live_block :: "u32 \<Rightarrow> full_block \<times> spend_row list" where
  "ex_live_block h = (ex_empty_block\<lparr>fb_block_row := ex_block_row\<lparr>b_height := h\<rparr>\<rparr>, [])"

lemma ex_live_fits: "rows_fit (ex_live_block h)"
  by (simp add: rows_fit_def ex_live_block_def block_ops_def ex_empty_block_def ex_block_row_def)

lemma ex_live_part: "part_of (fst (ex_live_block h)) = h div 1000"
  by (simp add: part_of_def ex_live_block_def LIVE_BLOCKS_PER_PART_def)

lemma ex_live_blocks: "blocks_of (block_ops (fst (ex_live_block h)) (snd (ex_live_block h)))
    = [block_cells (ex_block_row\<lparr>b_height := h\<rparr>)]"
  by (simp add: blocks_of_def block_ops_def ex_live_block_def ex_empty_block_def)

theorem live_parts_exact_witness:
  "\<exists>s0 s s' fl. live_create list_arrow [''out''] 0 (\<lambda>_. None) = Inr s0
    \<and> write_all list_arrow [ex_live_block 998, ex_live_block 999, ex_live_block 1000] s0 = (s, Inr ())
    \<and> close_part list_arrow s = (s', Inr ()) \<and> ls_disk s' 0 = Some fl
    \<and> fl_blocks fl = [block_cells (ex_block_row\<lparr>b_height := 998\<rparr>), block_cells (ex_block_row\<lparr>b_height := 999\<rparr>)]"
proof -
  let ?xs = "[ex_live_block 998, ex_live_block 999, ex_live_block 1000]"
  have parts: "(998 :: u32) div 1000 = 0" "(999 :: u32) div 1000 = 0" "(1000 :: u32) div 1000 = 1" by code_simp+
  have fit: "\<forall>x\<in>set ?xs. rows_fit x" by (simp add: ex_live_fits)
  have srt: "sorted (map (\<lambda>x. part_of (fst x)) ?xs)" "\<forall>x\<in>set ?xs. 0 \<le> part_of (fst x)"
    by (simp_all add: ex_live_part parts)
  have none: "\<forall>p. rel_option (files_hold (\<lambda>fl. fl)) ((\<lambda>_. None) p) ((\<lambda>_. None) p)" by simp
  obtain s0 s s' where s: "live_create list_arrow [''out''] 0 (\<lambda>_. None) = Inr s0" "write_all list_arrow ?xs s0 = (s, Inr ())"
      "close_part list_arrow s = (s', Inr ())"
    and all: "\<forall>p. rel_option (files_hold (\<lambda>fl. fl)) (ls_disk s' p)
         (if p = 0 \<or> (\<exists>x\<in>set ?xs. part_of (fst x) = p) then Some (ops_of_part p ?xs) else None)"
    using live_parts_exact [OF la.arrow_total_axioms none fit srt, of "[''out'']"] by (elim exE conjE) (rule that)
  have d: "rel_option (files_hold (\<lambda>fl. fl)) (ls_disk s' 0) (Some (ops_of_part 0 ?xs))"
    using all [rule_format, of 0] by simp
  have "blocks_of (ops_of_part 0 ?xs) = blocks_of (block_ops (fst (ex_live_block 998)) (snd (ex_live_block 998)))
      @ blocks_of (block_ops (fst (ex_live_block 999)) (snd (ex_live_block 999)))"
    by (simp add: ops_of_part_def ex_live_part parts blocks_of_def)
  then show ?thesis using s d by (auto simp: option_rel_Some2 files_hold_def ex_live_blocks)
qed

theorem live_reorg_truncates_part_witness:
  "\<exists>s0 s s' fl. live_create list_arrow [''out''] 0 (\<lambda>_. None) = Inr s0
    \<and> write_all list_arrow [ex_live_block 998, ex_live_block 999, ex_live_block 1000, ex_live_block 999] s0 = (s, Inr ())
    \<and> close_part list_arrow s = (s', Inr ()) \<and> ls_disk s' 0 = Some fl
    \<and> fl_blocks fl = [block_cells (ex_block_row\<lparr>b_height := 999\<rparr>)]"
proof -
  have parts: "(998 :: u32) div 1000 = 0" "(999 :: u32) div 1000 = 0" "(1000 :: u32) div 1000 = 1" by code_simp+
  have fit: "\<forall>x\<in>set ([ex_live_block 998, ex_live_block 999] @ [ex_live_block 1000, ex_live_block 999]). rows_fit x"
    by (simp add: ex_live_fits)
  have at: "\<forall>x\<in>set [ex_live_block 998, ex_live_block 999]. part_of (fst x) = 0"
    "part_of (fst (ex_live_block 1000)) = 0 + 1" "part_of (fst (ex_live_block 999)) = 0"
    by (simp_all add: ex_live_part parts)
  have bl: "fl_blocks fl = [block_cells (ex_block_row\<lparr>b_height := 999\<rparr>)]"
    if "files_hold (\<lambda>fl. fl) fl (block_ops (fst (ex_live_block 999)) (snd (ex_live_block 999)))" for fl
    using that by (simp add: files_hold_def ex_live_blocks)
  have "[ex_live_block 998, ex_live_block 999] @ [ex_live_block 1000, ex_live_block 999]
    = [ex_live_block 998, ex_live_block 999, ex_live_block 1000, ex_live_block 999]" by simp
  then show ?thesis
    using live_reorg_truncates_part [OF la.arrow_total_axioms fit at, of "[''out'']"] bl by metis
qed

end
