(* ===== verification/Cli_Handover.thy ===== *)
theory Cli_Handover
  imports Cli_Parse Live_Tracker
begin

text \<open>
  From the bulk run to the live tracker: \<open>bidx parse\<close> fills the store that \<open>bidx live\<close> then follows
  the node with. The bulk run (\<open>run_parse\<close> in \<open>bidx-cli/src/pipeline.rs\<close>) never writes the tip that the
  tracker (\<open>catch_up\<close> in \<open>bidx-live/src/tracker.rs\<close>) starts from.
\<close>

section \<open>What a bulk run leaves in the store\<close>

text \<open>A store without a cache keeps being one, and its metadata is not touched.\<close>

definition keeps_meta :: "('db \<Rightarrow> db_view) \<Rightarrow> 'db utxo_store \<Rightarrow> 'db utxo_store \<Rightarrow> bool" where
  "keeps_meta view st st' \<longleftrightarrow> st_recent st = None \<longrightarrow>
     st_recent st' = None \<and> view (st_db st') CF_META = view (st_db st) CF_META"

lemma keeps_meta_refl [simp]: "keeps_meta view st st"
  by (simp add: keeps_meta_def)

lemma keeps_meta_trans: "keeps_meta view st st' \<Longrightarrow> keeps_meta view st' st'' \<Longrightarrow> keeps_meta view st st''"
  by (simp add: keeps_meta_def)

lemma apply_block_meta:
  assumes "rocks_sound R view" and "iterates it" and "apply_block R it h txs ins outs st = Inr (res, st')"
  shows "keeps_meta view st st'"
  unfolding keeps_meta_def
proof
  assume "st_recent st = None"
  then have "coherent (utxos (view (st_db st))) (st_recent st)" by (simp add: coherent_def)
  then show "st_recent st' = None \<and> view (st_db st') CF_META = view (st_db st) CF_META"
    using apply_block_view(2) [OF assms(1,2) _ assms(3)] apply_block_result(6) [OF assms(1,2) _ assms(3)]
      \<open>st_recent st = None\<close> by blast
qed

lemma finish_sink_utxo: "finish_sink E c = (c', r) \<Longrightarrow> k_utxo c' = k_utxo c"
  by (auto simp: finish_sink_def split: sum.splits)

lemma rotate_utxo: "rotate E c = (c', r) \<Longrightarrow> k_utxo c' = k_utxo c"
  by (cases "sink_create (pe_arrow E) (pe_out_dir E) (k_next c div pe_blocks_per_part E) sink_config_default")
    (auto simp: rotate_def Let_def io_bind_def dest!: finish_sink_utxo split: if_splits sum.splits prod.splits)

lemma advance_utxo: "advance E c = (c', r) \<Longrightarrow> k_utxo c' = k_utxo c"
  by (auto simp: advance_def Let_def split: sum.splits prod.splits)

lemma check_end_utxo: "check_end E c = (c', r) \<Longrightarrow> k_utxo c' = k_utxo c"
  by (auto simp: check_end_def io_bind_def dest!: finish_sink_utxo split: if_splits sum.splits prod.splits)

lemma advance_end_utxo: "io_bind (advance E c) (\<lambda>c _. check_end E c) = (c', r) \<Longrightarrow> k_utxo c' = k_utxo c"
  by (auto simp: io_bind_def dest!: advance_utxo check_end_utxo split: sum.splits prod.splits)

lemma index_block_meta:
  assumes "rocks_sound (pe_rocks E) view" and "iterates (pe_iter E)" and "index_block E b c = (c', r)"
  shows "keeps_meta view (k_utxo c) (k_utxo c')"
  using assms(3) by (auto simp: index_block_def Let_def split: sum.splits prod.splits
      dest: apply_block_meta [OF assms(1,2)])

lemma process_meta:
  assumes "rocks_sound (pe_rocks E) view" and "iterates (pe_iter E)" and "process E b c = (c', r)"
  shows "keeps_meta view (k_utxo c) (k_utxo c')"
proof -
  obtain c1 r1 where rot: "rotate E c = (c1, r1)" by fastforce
  obtain c2 r2 where idx: "index_block E b c1 = (c2, r2)" by fastforce
  have "c' = c \<or> c' = c1 \<or> c' = c2 \<or> (\<exists>r'. io_bind (advance E c2) (\<lambda>c _. check_end E c) = (c', r'))"
    using assms(3) rot idx by (auto simp: process_def io_bind_def split: if_splits sum.splits prod.splits)
  then have "k_utxo c' = k_utxo c \<or> k_utxo c' = k_utxo c2"
    using rotate_utxo [OF rot] advance_end_utxo by auto
  then show ?thesis using index_block_meta [OF assms(1,2) idx] rotate_utxo [OF rot] by auto
qed

lemma skip_loop_utxo: "skip_loop E s = (s', r) \<Longrightarrow> k_utxo (cs_core s') = k_utxo (cs_core s)"
proof (induction "length (cs_skipped s)" arbitrary: s rule: less_induct)
  case less
  let ?h = "k_next (cs_core s)"
  let ?s = "s\<lparr>cs_skipped := removeAll ?h (cs_skipped s)\<rparr>"
  obtain c r1 where a: "io_bind (advance E (cs_core s)) (\<lambda>c _. check_end E c) = (c, r1)" by fastforce
  consider "?h \<notin> set (cs_skipped s)" | "?h \<in> set (cs_skipped s)" "r1 = Inr False"
    | "?h \<in> set (cs_skipped s)" "r1 \<noteq> Inr False" by blast
  then show ?case
  proof cases
    case 1
    then show ?thesis using less.prems by (simp add: skip_not_next)
  next
    case 2
    then have "skip_loop E (?s\<lparr>cs_core := c\<rparr>) = (s', r)"
      using less.prems a by (subst (asm) skip_loop.simps) (simp add: Let_def)
    then show ?thesis
      using less.hyps [of "?s\<lparr>cs_core := c\<rparr>"] length_removeAll_less [OF 2(1)] advance_end_utxo [OF a] by simp
  next
    case 3
    then have "s' = ?s\<lparr>cs_core := c\<rparr>"
      using less.prems a by (subst (asm) skip_loop.simps) (auto simp: Let_def split: sum.splits bool.splits)
    then show ?thesis using advance_end_utxo [OF a] by simp
  qed
qed

lemma drain_loop_meta:
  assumes "rocks_sound (pe_rocks E) view" and "iterates (pe_iter E)"
  shows "drain_loop E s = (s', r) \<Longrightarrow> keeps_meta view (k_utxo (cs_core s)) (k_utxo (cs_core s'))"
proof (induction "card (dom (map_of (cs_buffer s)))" arbitrary: s rule: less_induct)
  case less
  let ?h = "k_next (cs_core s)"
  show ?case
  proof (cases "map_of (cs_buffer s) ?h")
    case None
    then show ?thesis using less.prems by (simp add: drain_not_next)
  next
    case (Some b)
    obtain c r1 where p: "process E b (cs_core s) = (c, r1)" by fastforce
    obtain s1 where s1: "cs_core s1 = c" "map_of (cs_buffer s1) = (map_of (cs_buffer s))(?h := None)"
      and dr: "drain_loop E s = (if r1 = Inr False then drain_loop E s1 else (s1, r1))"
      using drain_next [OF Some p] by blast
    have "card (dom (map_of (cs_buffer s1))) < card (dom (map_of (cs_buffer s)))"
      using Some s1(2) finite_dom_map_of [of "cs_buffer s"] by (auto intro!: psubset_card_mono)
    then have "keeps_meta view (k_utxo c) (k_utxo (cs_core s'))"
      using less.hyps [of s1] less.prems dr s1(1) by (auto split: if_splits)
    then show ?thesis using process_meta [OF assms p] keeps_meta_trans by blast
  qed
qed

lemma on_item_meta:
  assumes "rocks_sound (pe_rocks E) view" and "iterates (pe_iter E)" and "on_item E x s = (s', r)"
  shows "keeps_meta view (k_utxo (cs_core s)) (k_utxo (cs_core s'))"
proof -
  obtain s1 r1 where sk: "skip_loop E (receive x s) = (s1, r1)" by fastforce
  have "k_utxo (cs_core (receive x s)) = k_utxo (cs_core s)" by (cases x) simp_all
  then have u: "k_utxo (cs_core s1) = k_utxo (cs_core s)" using skip_loop_utxo [OF sk] by simp
  have "s' = s1 \<or> drain_loop E s1 = (s', r)"
    using assms(3) sk by (auto simp: on_item_def io_bind_def split: sum.splits if_splits)
  then show ?thesis using drain_loop_meta [OF assms(1,2)] u by fastforce
qed

lemma consume_loop_meta:
  assumes "rocks_sound (pe_rocks E) view" and "iterates (pe_iter E)"
  shows "consume_loop E xs s = (s', r) \<Longrightarrow> keeps_meta view (k_utxo (cs_core s)) (k_utxo (cs_core s'))"
proof (induction xs arbitrary: s)
  case Nil
  then show ?case
    by (cases "finish_sink E (cs_core s)")
      (auto simp: io_bind_def dest!: finish_sink_utxo split: sum.splits if_splits)
next
  case (Cons x xs)
  obtain s1 r1 where oi: "on_item E x s = (s1, r1)" by fastforce
  have "s' = s1 \<or> consume_loop E xs s1 = (s', r)"
    using Cons.prems oi by (auto simp: io_bind_def split: sum.splits if_splits)
  then show ?case using Cons.IH on_item_meta [OF assms oi] keeps_meta_trans by blast
qed

lemma consume_ordered_meta:
  assumes "rocks_sound (pe_rocks E) view" and "iterates (pe_iter E)"
    and "consume_ordered E start items st host = Inr (c, r)"
  shows "keeps_meta view st (k_utxo c)"
proof -
  obtain s0 s' where s0: "consumer_init E start st host = Inr s0"
    and run: "consume_loop E items s0 = (s', r)" "c = cs_core s'"
    using assms(3) by (cases "consumer_init E start st host") (auto simp: consume_ordered_def split: prod.splits)
  have "k_utxo (cs_core s0) = st"
    using s0 by (auto simp: consumer_init_def res_simps Let_def split: if_splits)
  then show ?thesis using consume_loop_meta [OF assms(1,2) run(1)] run(2) by simp
qed

lemma run_parse_meta:
  assumes "rocks_sound (pe_rocks E) view" and "iterates (pe_iter E)"
    and "run_parse FL H F Q D X E order header_pass A w cfg n = (n', Inr c)"
  shows "\<exists>st. store_open A (pc_utxo cfg) = Inr st \<and> keeps_meta view st (k_utxo c)"
proof -
  obtain index start end_h orphans hs st host where st: "store_open A (pc_utxo cfg) = Inr st"
    and "run_stages H F (pc_blocks_dir cfg) index orphans (consumer_env E cfg end_h) start hs st host = Inr c"
    using assms(3) by (auto simp: run_parse_def io_bind_Inr_iff Let_def res_simps)
  then obtain items r where "consume_ordered (consumer_env E cfg end_h) start items st host = Inr (c, r)"
    by (auto simp: run_stages_def res_simps split: prod.splits option.splits)
  then show ?thesis
    using consume_ordered_meta [of "consumer_env E cfg end_h"] assms(1,2) st by (auto simp: consumer_env_def)
qed

section \<open>Following the node after a bulk run\<close>

lemma catch_up_no_tip:
  assumes "node_serves (te_transport L) (te_serde L) (te_hex L) chain_of"
    and "rocks_total (te_rocks L) view" and "chain_ok ch" and "ch = chain_of (tr_node s)"
    and "view (st_db (tr_utxo s)) CF_META META_TIP_KEY = None"
  shows "\<exists>st'. catch_up L s = (s\<lparr>tr_utxo := st',
        tr_sink := te_on_event L (CaughtUp (of_nat (length ch - 1))) None (tr_sink s)\<rparr>, Inr ())
    \<and> store_tip (te_rocks L) st' = Inr (Some (chain_tip_at ch (length ch - 1)))
    \<and> view (st_db st') CF_DEFAULT = view (st_db (tr_utxo s)) CF_DEFAULT"
proof -
  define k where "k = length ch - 1"
  let ?t = "chain_tip_at ch k"
  have k: "k < length ch" and len: "length ch < 2 ^ 32" using assms(3) by (auto simp: chain_ok_def k_def)
  then have last: "unat (of_nat k :: u32) = k" by (simp add: unat_of_nat_less)
  have "fst (ch ! k) \<in> fst ` set ch" using k by simp
  then have "length (tip_st_hash ?t) = 32" using assms(3) by (auto simp: chain_ok_def)
  from set_tip_total [OF assms(2) this, of "tr_utxo s"]
  obtain st' where st': "set_tip (te_rocks L) ?t (tr_utxo s) = Inr st'"
    "store_tip (te_rocks L) st' = Inr (Some ?t)"
    "view (st_db st') CF_DEFAULT = view (st_db (tr_utxo s)) CF_DEFAULT" by blast
  have none: "store_tip (te_rocks L) (tr_utxo s) = Inr None"
    using assms(5) by (simp add: store_tip_def rocks_total.get_view [OF assms(2)])
  have cnt: "with_node (get_block_count (te_transport L) (te_serde L)) s = (s, Inr (of_nat (k)))"
    using node_serves.count_call [OF assms(1), of "tr_node s"] assms(3,4) by (simp add: with_node_def k_def)
  have hash: "with_node (node_hash L (of_nat (k))) s = (s, Inr (fst (ch ! (k))))"
    using node_serves.hash_call [OF assms(1), of "tr_node s" "of_nat (k)"] assms(3,4) last k
    by (simp add: with_node_def)
  have "catch_up L s = (s\<lparr>tr_utxo := st',
        tr_sink := te_on_event L (CaughtUp (of_nat (k))) None (tr_sink s)\<rparr>, Inr ())"
    by (simp add: catch_up_def cnt none hash with_store_def st'(1) emit_def)
  with st'(2,3) show ?thesis unfolding k_def by blast
qed

section \<open>Properties\<close>

text \<open>C11. After a bulk run on a store without a tip, the tracker skips every block between the end of the
  run and the node's tip: the run leaves no tip, whatever range it parsed, so the first \<open>catch_up\<close> succeeds
  by storing the node's tip as its own, applies no block and leaves the UTXO set as the bulk run did.\<close>
theorem live_after_parse_skips_blocks:
  assumes "node_serves (te_transport L) (te_serde L) (te_hex L) chain_of"
    and "rocks_total (pe_rocks E) view" and "te_rocks L = pe_rocks E" and "iterates (pe_iter E)"
    and "store_open A (pc_utxo cfg) = Inr st" and "view (st_db st) CF_META META_TIP_KEY = None"
    and "run_parse FL H F Q D X E order header_pass A w cfg n = (n', Inr c)"
    and "view (st_db (tr_utxo s)) = view (st_db (k_utxo c))"
    and "chain_ok ch" and "ch = chain_of (tr_node s)"
  shows "\<exists>st'. catch_up L s = (s\<lparr>tr_utxo := st',
        tr_sink := te_on_event L (CaughtUp (of_nat (length ch - 1))) None (tr_sink s)\<rparr>, Inr ())
    \<and> store_tip (te_rocks L) st' = Inr (Some (chain_tip_at ch (length ch - 1)))
    \<and> view (st_db st') CF_DEFAULT = view (st_db (k_utxo c)) CF_DEFAULT"
proof -
  have "rocks_sound (pe_rocks E) view" using assms(2) by (simp add: rocks_total_def)
  from run_parse_meta [OF this assms(4,7)] have "keeps_meta view st (k_utxo c)" using assms(5) by simp
  moreover have "st_recent st = None"
    using assms(5) by (auto simp: store_open_def open_with_def res_simps split: prod.splits)
  ultimately have "view (st_db (tr_utxo s)) CF_META META_TIP_KEY = None"
    using assms(6,8) by (simp add: keeps_meta_def)
  then show ?thesis
    using catch_up_no_tip [OF assms(1) _ assms(9,10), of view] assms(2,3,8) by simp
qed

text \<open>A bulk run over the first of two blocks of the node, then the tracker.\<close>

definition ex_one_config :: parse_config where
  "ex_one_config = ex_config\<lparr>pc_end := Some 1\<rparr>"

lemma ex_one_env: "consumer_env ex_env ex_one_config 1 = ex_env\<lparr>pe_end := 1\<rparr>"
  by (simp add: consumer_env_def ex_env_def ex_one_config_def ex_config_def)

lemma ex_one_open: "store_open (map_admin (\<lambda>_. Map.empty)) (pc_utxo ex_one_config) = Inr ex_store"
  using ex_store_open by (simp add: ex_one_config_def)

lemma ex_parse_one: "\<exists>n' c. run_parse real_f64 pad_digests (chain_fs ex_blocks) (json_http std_hex []) std_serde
    std_hex ex_env (\<lambda>hs. hs) (Inr (ex_index, ex_stats)) (map_admin (\<lambda>_. Map.empty)) Map.empty ex_one_config [] = (n', Inr c)"
proof -
  obtain b where b: "parse_bytes pad_digests None 0 ex_payload = Inr (Block 0 b)"
    and e: "fb_txs b = []" "fb_inputs b = []" "fb_outputs b = []"
    and row: "op_ok (PushBlock ((fb_block_row b)\<lparr>b_total_fee := 0\<rparr>))"
    using ex_parse_bytes by blast
  have two: "length (by_height ex_index) = 2" by (simp add: ex_index_def ex_blocks_def)
  then have "tip_height ex_index = Some 1" by (auto simp: tip_height_def)
  then have plan: "plan_range ex_one_config ex_index = Inr (0, 1)"
    by (simp add: plan_range_def ex_one_config_def ex_config_def)
  obtain dc where dc: "disk_config (chain_fs ex_blocks) ex_one_config = Inr dc"
    by (simp add: disk_config_def ex_one_config_def ex_config_def Let_def)
  have pre: "preflight_stage real_f64 (pe_host ex_env) Map.empty (json_http std_hex []) std_serde std_hex ex_one_config dc [] = ([], Inr None)"
    by (simp add: preflight_stage_def ex_one_config_def ex_config_def)
  have direct: "\<forall>i<length [b]. parse_direct pad_digests (chain_fs ex_blocks) (pc_blocks_dir ex_one_config) ex_index None (0 + of_nat i)
      = Inr (Block (0 + of_nat i) ([b] ! i))"
    using ex_read [of 0 "pc_blocks_dir ex_one_config"] two b by (simp add: parse_direct_def)
  let ?E = "ex_env\<lparr>pe_end := 1\<rparr>" and ?host = "(Map.empty, recorder_new (pe_host ex_env) Map.empty dc)"
  obtain s0 where s0: "consumer_init ?E 0 ex_store ?host = Inr s0"
    using ex_init_one by blast
  obtain c where "seq_blocks ?E [b] (cs_core s0) = (c, Inr ())" using ex_seq_one [OF e row s0] by blast
  then show ?thesis
    using bulk_parse_seq [OF plan dc pre ex_one_open _ direct, of "\<lambda>hs. hs" ex_stats] s0 by (simp add: ex_one_env)
qed

theorem live_after_parse_skips_blocks_witness:
  "\<exists>n' c s s'. run_parse real_f64 pad_digests (chain_fs ex_blocks) (json_http std_hex []) std_serde std_hex ex_env
      (\<lambda>hs. hs) (Inr (ex_index, ex_stats)) (map_admin (\<lambda>_. Map.empty)) Map.empty ex_one_config [] = (n', Inr c)
    \<and> catch_up ex_tracker_env s = (s', Inr ())
    \<and> store_tip map_rocks (tr_utxo s') = Inr (Some (chain_tip_at ex_chain 1))
    \<and> st_db (tr_utxo s') CF_DEFAULT = st_db (k_utxo c) CF_DEFAULT \<and> tr_sink s' = [CaughtUp 1]"
proof -
  obtain n' c where run: "run_parse real_f64 pad_digests (chain_fs ex_blocks) (json_http std_hex []) std_serde
      std_hex ex_env (\<lambda>hs. hs) (Inr (ex_index, ex_stats)) (map_admin (\<lambda>_. Map.empty)) Map.empty ex_one_config [] = (n', Inr c)"
    using ex_parse_one by blast
  let ?s = "\<lparr>tr_node = ex_chain, tr_utxo = mem_store True None (st_db (k_utxo c)), tr_sink = []\<rparr>
    :: (chain, db_view, tracker_event list) tracker"
  have env: "te_rocks ex_tracker_env = map_rocks" "te_on_event ex_tracker_env = (\<lambda>e b l. l @ [e])"
    "pe_rocks ex_env = map_rocks" "pe_iter ex_env = (\<lambda>m. m)"
    by (simp_all add: ex_tracker_env_def ex_env_def)
  have st: "st_db ex_store CF_META META_TIP_KEY = None" by (simp add: ex_store_def)
  have two: "length ex_chain - 1 = 1" by (simp add: ex_chain_def)
  have "\<exists>st'. catch_up ex_tracker_env ?s = (?s\<lparr>tr_utxo := st', tr_sink := [CaughtUp 1]\<rparr>, Inr ())
    \<and> store_tip map_rocks st' = Inr (Some (chain_tip_at ex_chain 1))
    \<and> st_db st' CF_DEFAULT = st_db (k_utxo c) CF_DEFAULT"
    using live_after_parse_skips_blocks [OF tx.serves _ _ _ ex_one_open _ run _ ex_chain_ok, of "\<lambda>db. db" ?s] st
    unfolding env two by (simp add: mr.rocks_total_axioms iterates_id mem_store_def)
  then show ?thesis using run by (metis (no_types, lifting) tracker.select_convs(2,3) tracker.update_convs(2,3))
qed

end
