(* ===== verification/Cli_Bulk.thy ===== *)
theory Cli_Bulk
  imports Cli_Parse Cli_Live
begin

text \<open>
  The bulk run against its specification. The specification knows no threads, buffers, batches, caches or
  encodings: the UTXO set is a partial map, a block extends it with its outputs and removes what its inputs
  name, the rows of a block are its parsed rows with the fees filled in and one row per resolved
  spend, and the rows of consecutive blocks of the same part are one set of files.
  \<open>run_parse\<close> is shown to complete and to leave exactly that, provided that no component below fails and
  that no block creates and spends an outpoint that was unspent before it.
\<close>

section \<open>The specification\<close>

type_synonym utxo_set = "bytes \<rightharpoonup> utxo_value"

definition block_spends :: "u32 \<Rightarrow> full_block \<Rightarrow> utxo_set \<Rightarrow> (input_row \<times> resolution) list" where
  "block_spends h b D = resolve (created h (fb_outputs b)) D (fb_inputs b)"

definition utxo_step :: "u32 \<Rightarrow> full_block \<Rightarrow> utxo_set \<Rightarrow> utxo_set" where
  "utxo_step h b D = (D ++ created h (fb_outputs b)) |` (- spent_keys (fb_inputs b))"

fun utxo_after :: "u32 \<Rightarrow> full_block list \<Rightarrow> utxo_set \<Rightarrow> utxo_set" where
  "utxo_after h [] D = D"
| "utxo_after h (b # bs) D = utxo_after (h + 1) bs (utxo_step h b D)"

fun missing_after :: "u32 \<Rightarrow> full_block list \<Rightarrow> utxo_set \<Rightarrow> nat" where
  "missing_after h [] D = 0"
| "missing_after h (b # bs) D = not_found (block_spends h b D) + missing_after (h + 1) bs (utxo_step h b D)"

fun spends_fit :: "u32 \<Rightarrow> full_block list \<Rightarrow> utxo_set \<Rightarrow> bool" where
  "spends_fit h [] D = True"
| "spends_fit h (b # bs) D =
    (no_respend D (fb_inputs b) (fb_outputs b) \<and> spends_fit (h + 1) bs (utxo_step h b D))"

text \<open>The fee of a transaction: what its inputs spend minus what its outputs create, at least zero.\<close>

definition tx_fee :: "u32 \<Rightarrow> full_block \<Rightarrow> utxo_set \<Rightarrow> nat \<Rightarrow> nat" where
  "tx_fee h b D i = min (spent_sum i (block_spends h b D)) (2 ^ 64 - 1) - output_sum i (fb_outputs b)"

definition is_coinbase_tx :: "full_block \<Rightarrow> nat \<Rightarrow> bool" where
  "is_coinbase_tx b i = (\<exists>inp\<in>set (fb_inputs b). unat (i_tx_index inp) = i \<and> i_is_coinbase inp)"

definition total_fees :: "u32 \<Rightarrow> full_block \<Rightarrow> utxo_set \<Rightarrow> nat" where
  "total_fees h b D = min (\<Sum>i\<leftarrow>filter (\<lambda>i. \<not> is_coinbase_tx b i) [0..<length (fb_txs b)]. tx_fee h b D i) (2 ^ 64 - 1)"

definition with_fees :: "u32 \<Rightarrow> full_block \<Rightarrow> utxo_set \<Rightarrow> full_block" where
  "with_fees h b D = b\<lparr>
     fb_txs := map2 (\<lambda>i tx. tx\<lparr>t_fee := of_nat (tx_fee h b D i)\<rparr>) [0..<length (fb_txs b)] (fb_txs b),
     fb_block_row := (fb_block_row b)\<lparr>b_total_fee := of_nat (total_fees h b D)\<rparr>\<rparr>"

definition spec_rows :: "u32 \<Rightarrow> full_block \<Rightarrow> utxo_set \<Rightarrow> sink_op list" where
  "spec_rows h b D = block_ops (with_fees h b D) (spend_rows h (block_spends h b D))"

fun part_rows :: "u32 \<Rightarrow> u32 \<Rightarrow> full_block list \<Rightarrow> utxo_set \<Rightarrow> (u32 \<times> sink_op list) list" where
  "part_rows per_part h [] D = []"
| "part_rows per_part h (b # bs) D =
    (h div per_part, spec_rows h b D) # part_rows per_part (h + 1) bs (utxo_step h b D)"

text \<open>Neighbours with the same part become one.\<close>

fun group_parts :: "('p \<times> 'a list) list \<Rightarrow> ('p \<times> 'a list) list" where
  "group_parts [] = []"
| "group_parts [x] = [x]"
| "group_parts ((p, xs) # (q, ys) # rest) =
    (if p = q then group_parts ((p, xs @ ys) # rest) else (p, xs) # group_parts ((q, ys) # rest))"

section \<open>Well-formed blocks\<close>

definition block_wf :: "full_block \<Rightarrow> bool" where
  "block_wf b \<longleftrightarrow> rows_ok (fb_inputs b) (fb_outputs b) \<and> indices_ok (fb_txs b) (fb_inputs b) (fb_outputs b)
     \<and> op_ok (PushBlock (fb_block_row b)) \<and> (\<forall>tx\<in>set (fb_txs b). length (t_txid tx) = 32)
     \<and> (\<forall>inp\<in>set (fb_inputs b). length (i_txid inp) = 32)"

lemma header_parse_lengths:
  "length raw = 80 \<Longrightarrow> length (h_prev_hash (header_parse raw)) = 32 \<and> length (h_merkle_root (header_parse raw)) = 32"
  by (simp add: header_parse_def Let_def)

lemma parsed_block_wf:
  assumes "digest_widths H" and "parse_bytes H orphans h bytes = Inr (Block h' b)"
  shows "block_wf b"
proof -
  let ?raw = "take 80 bytes"
  have len: "length ?raw = 80" and p: "parse_block_full H bytes h (dsha256 H ?raw) (header_parse ?raw) = Inr b"
    using assms(2) by (auto simp: parse_bytes_def Let_def res_simps split: if_splits)
  have "op_ok (PushBlock (fb_block_row b))"
    using p header_parse_lengths [OF len] digest_widths.length_dsha256 [OF assms(1)]
    by (auto simp: parse_block_full_def res_simps Let_def as_bytes_def split: if_splits)
  then show ?thesis
    using digest_widths.parsed_rows(1,2) [OF assms(1) p] digest_widths.parsed_txids [OF assms(1) p]
    by (simp add: block_wf_def)
qed

section \<open>Fees\<close>

lemma flag_inputs:
  "length (fold flag_input ins flags) = length flags"
  "i < length flags \<Longrightarrow> fold flag_input ins flags ! i \<longleftrightarrow>
     flags ! i \<or> (\<exists>inp\<in>set ins. unat (i_tx_index inp) = i \<and> i_is_coinbase inp)"
proof -
  show "length (fold flag_input ins flags) = length flags" for flags
    by (induction ins arbitrary: flags) (simp_all add: flag_input_def Let_def)
  show "i < length flags \<Longrightarrow> fold flag_input ins flags ! i \<longleftrightarrow>
     flags ! i \<or> (\<exists>inp\<in>set ins. unat (i_tx_index inp) = i \<and> i_is_coinbase inp)" for flags
  proof (induction ins arbitrary: flags)
    case (Cons inp ins)
    then show ?case
      using Cons.IH [of "flag_input inp flags"] by (auto simp: flag_input_def Let_def nth_list_update)
  qed simp
qed

lemma coinbase_flags_iff:
  "length (coinbase_flags b) = length (fb_txs b)"
  "i < length (fb_txs b) \<Longrightarrow> coinbase_flags b ! i \<longleftrightarrow> is_coinbase_tx b i"
  by (simp_all add: coinbase_flags_def flag_inputs is_coinbase_tx_def)

lemma enrich_txs_result:
  assumes "length fees = n" "length flags = n"
  shows "k + length txs = n \<Longrightarrow> \<exists>t. enrich_txs flags fees k txs acc =
      Inr (map2 (\<lambda>i tx. tx\<lparr>t_fee := fees ! i\<rparr>) [k..<n] txs, t)
    \<and> unat t = min (unat acc + (\<Sum>i\<leftarrow>filter (\<lambda>i. \<not> flags ! i) [k..<n]. unat (fees ! i))) (2 ^ 64 - 1)"
proof (induction txs arbitrary: k acc)
  case Nil
  have "unat acc < 2 ^ 64" using unsigned_less [of acc] by simp
  then show ?case using Nil by simp
next
  case (Cons tx txs)
  let ?acc = "if \<not> flags ! k then saturating_add acc (fees ! k) else acc"
  have k: "k < n" using Cons.prems by simp
  obtain t where t: "enrich_txs flags fees (k + 1) txs ?acc = Inr (map2 (\<lambda>i tx. tx\<lparr>t_fee := fees ! i\<rparr>) [k + 1..<n] txs, t)"
    "unat t = min (unat ?acc + (\<Sum>i\<leftarrow>filter (\<lambda>i. \<not> flags ! i) [k + 1..<n]. unat (fees ! i))) (2 ^ 64 - 1)"
    using Cons.IH [of "k + 1" ?acc] Cons.prems by auto
  have upt: "[k..<n] = k # [k + 1..<n]" using k by (simp add: upt_conv_Cons)
  have "unat ?acc = (if \<not> flags ! k then min (unat acc + unat (fees ! k)) (2 ^ 64 - 1) else unat acc)"
    by (simp add: unat_saturating_add)
  then show ?case using t k assms unfolding upt by (auto simp: Let_def)
qed

lemma enrich_block_result:
  assumes "length fees = length (fb_txs b)" and "\<forall>i<length (fb_txs b). unat (fees ! i) = tx_fee h b D i"
  shows "enrich_block b fees = Inr (with_fees h b D)"
proof -
  let ?n = "length (fb_txs b)" and ?flags = "coinbase_flags b"
  obtain t where t: "enrich_txs ?flags fees 0 (fb_txs b) 0 = Inr (map2 (\<lambda>i tx. tx\<lparr>t_fee := fees ! i\<rparr>) [0..<?n] (fb_txs b), t)"
    "unat t = min (\<Sum>i\<leftarrow>filter (\<lambda>i. \<not> ?flags ! i) [0..<?n]. unat (fees ! i)) (2 ^ 64 - 1)"
    using enrich_txs_result [OF assms(1) coinbase_flags_iff(1), of 0 "fb_txs b" 0] by auto
  have "map (\<lambda>i. unat (fees ! i)) (filter (\<lambda>i. \<not> ?flags ! i) [0..<?n])
      = map (tx_fee h b D) (filter (\<lambda>i. \<not> is_coinbase_tx b i) [0..<?n])"
    using assms(2) coinbase_flags_iff(2) [of _ b] by (auto intro!: map_cong filter_cong)
  then have "unat t = total_fees h b D" using t(2) by (simp add: total_fees_def)
  then have acc: "t = of_nat (total_fees h b D)" by (metis of_nat_unat unsigned_ucast_eq ucast_id)
  have "fees ! i = of_nat (tx_fee h b D i)" if "i < ?n" for i
    using assms(2) that by (metis of_nat_unat unsigned_ucast_eq ucast_id)
  then have "map2 (\<lambda>i tx. tx\<lparr>t_fee := fees ! i\<rparr>) [0..<?n] (fb_txs b)
      = map2 (\<lambda>i tx. tx\<lparr>t_fee := of_nat (tx_fee h b D i)\<rparr>) [0..<?n] (fb_txs b)"
    by (auto dest: set_zip_leftD)
  then show ?thesis by (simp add: enrich_block_def t(1) acc with_fees_def)
qed

section \<open>The rows of a block fit the tables\<close>

definition values_ok :: "utxo_set \<Rightarrow> bool" where
  "values_ok D \<longleftrightarrow> (\<forall>v\<in>ran D. utxo_value_ok v)"

lemma created_values_ok: "rows_ok ins outs \<Longrightarrow> values_ok (created h outs)"
  by (auto simp: values_ok_def ran_def rows_ok_def utxo_value_ok_def out_value_def dest!: created_Some)

lemma resolve_values_ok:
  "values_ok P \<Longrightarrow> values_ok D \<Longrightarrow> (inp, r) \<in> set (resolve P D ins) \<Longrightarrow>
    inp \<in> set ins \<and> (\<forall>v. spent_value r = Some v \<longrightarrow> utxo_value_ok v)"
proof (induction ins arbitrary: P)
  case (Cons i ins)
  have "values_ok (P(in_key i := None))" using Cons.prems(1) by (auto simp: values_ok_def ran_def)
  moreover have "utxo_value_ok v" if "spent_value (resolve1 P D k) = Some v" for v k
    using that Cons.prems(1,2) by (auto simp: resolve1_def values_ok_def ran_def split: option.splits)
  ultimately show ?case using Cons by (auto split: if_splits)
qed simp

lemma spend_rows_set:
  "row \<in> set (spend_rows h rs) \<Longrightarrow> \<exists>inp r v. (inp, r) \<in> set rs \<and> spent_value r = Some v \<and> row = spend_row_of h inp v"
  by (induction h rs rule: spend_rows.induct) (force split: option.splits)+

lemma spec_rows_fit:
  assumes "block_wf b" and "values_ok D"
  shows "\<forall>op\<in>set (spec_rows h b D). op_ok op"
proof -
  have rows: "rows_ok (fb_inputs b) (fb_outputs b)" using assms(1) by (simp add: block_wf_def)
  have "op_ok (PushSpend row)" if row: "row \<in> set (spend_rows h (block_spends h b D))" for row
  proof -
    obtain inp r v where "(inp, r) \<in> set (block_spends h b D)" "spent_value r = Some v" "row = spend_row_of h inp v"
      using spend_rows_set [OF row] by blast
    then show ?thesis
      using resolve_values_ok [OF created_values_ok [OF rows] assms(2), of inp r] assms(1)
      by (auto simp: block_spends_def block_wf_def rows_ok_def spend_row_of_def utxo_value_ok_def)
  qed
  moreover have "op_ok (PushTx tx)" if "tx \<in> set (fb_txs (with_fees h b D))" for tx
    using that assms(1) by (auto simp: with_fees_def block_wf_def set_zip)
  ultimately show ?thesis
    using assms(1) by (auto simp: spec_rows_def block_ops_def with_fees_def block_wf_def rows_ok_def dest: set_zip_rightD)
qed

section \<open>Components that do not fail\<close>

text \<open>A host on which directories are made and open files extended without an error.\<close>

locale host_writes = text_files +
  assumes mkdirs: "\<exists>w'. h_create_dir_all H w d = (w', Inr ())"
    and opens: "\<exists>w'. h_open_append H w p = (w', Inr ())"
    and appends: "view w p \<noteq> None \<Longrightarrow> \<exists>w'. h_append H w p t = (w', Inr ())"
    and step_nonzero: "checkpoint_step H \<noteq> 0"
begin

lemma writeln_total: "view w p \<noteq> None \<Longrightarrow> \<exists>w'. writeln H p l w = (w', Inr ()) \<and> view w' p \<noteq> None"
  using appends [of w p "l @ newline"] append_view by (fastforce simp: writeln_def)

lemma write_checkpoint_total:
  assumes "view w p \<noteq> None"
  shows "\<exists>w'. write_checkpoint H p new_file sec net cp w = (w', Inr ())"
proof -
  have "\<exists>w1. (if new_file then io_bind (writeln H p header_line1 w) (\<lambda>w _. writeln H p header_line2 w) else (w, Inr ()))
      = (w1, Inr ()) \<and> view w1 p \<noteq> None"
    using writeln_total [OF assms, of header_line1] writeln_total [of _ p header_line2] assms by fastforce
  then obtain w1 where w1: "(if new_file then io_bind (writeln H p header_line1 w) (\<lambda>w _. writeln H p header_line2 w)
      else (w, Inr ())) = (w1, Inr ())" "view w1 p \<noteq> None" by blast
  obtain w2 where w2: "(if \<not> sec then writeln H p (network_line net) w1 else (w1, Inr ())) = (w2, Inr ())" "view w2 p \<noteq> None"
    using writeln_total [OF w1(2), of "network_line net"] w1(2) by (cases sec) auto
  obtain w3 where "writeln H p (checkpoint_text cp) w2 = (w3, Inr ())"
    using writeln_total [OF w2(2), of "checkpoint_text cp"] by blast
  then show ?thesis unfolding write_checkpoint_def w1(1) io_bind_simps w2(1) by blast
qed

lemma append_total: "\<exists>w'. append_checkpoint H w p net cp = (w', Inr ())"
proof -
  obtain w1 where w1: "(case parent p of Some d \<Rightarrow> h_create_dir_all H w d | None \<Rightarrow> (w, Inr ())) = (w1, Inr ())"
    using mkdirs by (cases "parent p") auto
  obtain w2 where w2: "h_open_append H w1 p = (w2, Inr ())" using opens by blast
  then have "view w2 p \<noteq> None" using open_view by simp
  from write_checkpoint_total [OF this] w1 w2 show ?thesis by (simp add: append_checkpoint_def Let_def)
qed

lemma record_total: "\<exists>s' x. on_block_applied H h s = (s', Inr x)"
proof -
  obtain w r where s: "s = (w, r)" by fastforce
  obtain w' where "append_checkpoint H w (checkpoint_file (dr_cfg r)) (dg_network (dr_cfg r))
      \<lparr>cp_height = h, cp_total_bytes = current_total_bytes H w (dr_cfg r)\<rparr> = (w', Inr ())"
    using append_total by blast
  then show ?thesis using step_nonzero by (auto simp: s on_block_applied_def Let_def)
qed

end

interpretation mhw: host_writes map_host "\<lambda>w. w"
  by unfold_locales (auto simp: map_host_def checkpoint_step_def CHECKPOINT_HEIGHT_STEP_def)

section \<open>One block\<close>

definition part_holds :: "('fl \<Rightarrow> cell list list) \<Rightarrow> u32 \<times> 'fl sink_files \<Rightarrow> u32 \<times> sink_op list \<Rightarrow> bool" where
  "part_holds contents f x \<longleftrightarrow> fst f = fst x \<and> files_hold contents (snd f) (snd x)"

locale bulk_env =
  fixes E :: "('db, 'w, 'fl, 'h) pipe_env" and view :: "'db \<Rightarrow> db_view"
    and written :: "'w \<Rightarrow> cell list list" and contents :: "'fl \<Rightarrow> cell list list" and files :: "'h \<Rightarrow> path \<rightharpoonup> string"
  assumes rocks: "rocks_total (pe_rocks E) view" and iter: "iterates (pe_iter E)"
    and arrow: "arrow_total (pe_arrow E) written contents" and host: "host_writes (pe_host E) files"
    and unwatched: "pe_watchdog E = None" and per_part: "pe_blocks_per_part E \<noteq> 0"
begin

lemma sound: "rocks_sound (pe_rocks E) view" "arrow_sound (pe_arrow E) written contents"
  using rocks arrow by (simp_all add: rocks_total_def arrow_total_def)

definition bulk_rep :: "u32 \<Rightarrow> utxo_set \<Rightarrow> sink_op list \<Rightarrow> ('db, 'w, 'fl, 'h) core \<Rightarrow> bool" where
  "bulk_rep h D cur c \<longleftrightarrow> k_next c = h \<and> st_recent (k_utxo c) = None \<and> utxos (view (st_db (k_utxo c))) = D
     \<and> arrow_sound.sink_rep written sink_config_default cur (k_sink c)"

lemma finish_sink_rep:
  assumes "bulk_rep h D cur c"
  obtains fl where "finish_sink E c = (c\<lparr>k_files := k_files c @ [(k_part c, fl)]\<rparr>, Inr ())" and "files_hold contents fl cur"
proof -
  have rep: "arrow_sound.sink_rep written sink_config_default cur (k_sink c)" using assms by (simp add: bulk_rep_def)
  obtain fl where fl: "sink_finish (pe_arrow E) (k_sink c) = Inr fl" using arrow_total.finish_total [OF arrow rep] by blast
  have "files_hold contents fl cur" using arrow_sound.finish_rep [OF sound(2) fl rep] by (simp add: files_hold_def)
  with that fl show thesis by (simp add: finish_sink_def)
qed

lemma rotate_rep:
  assumes "bulk_rep h D cur c"
  defines "p \<equiv> h div pe_blocks_per_part E"
  obtains c1 fls where "rotate E c = (c1, Inr ())" and "bulk_rep h D (if p = k_part c then cur else []) c1"
    and "k_part c1 = p" and "k_missing c1 = k_missing c" and "k_files c1 = k_files c @ fls"
    and "list_all2 (part_holds contents) fls (if p = k_part c then [] else [(k_part c, cur)])"
proof (cases "p = k_part c")
  case True
  have "k_next c = h" using assms(1) by (simp add: bulk_rep_def)
  then have "rotate E c = (c, Inr ())" using True by (simp add: rotate_def p_def)
  then show thesis using True assms(1) by (intro that [of c "[]"]) auto
next
  case False
  obtain fl where fl: "finish_sink E c = (c\<lparr>k_files := k_files c @ [(k_part c, fl)]\<rparr>, Inr ())" "files_hold contents fl cur"
    by (rule finish_sink_rep [OF assms(1)])
  obtain sk where sk: "sink_create (pe_arrow E) (pe_out_dir E) p sink_config_default = Inr sk"
    using arrow_total.create_total' [OF arrow] by blast
  have next_h: "k_next c div pe_blocks_per_part E = p" using assms(1) by (simp add: bulk_rep_def p_def)
  let ?c = "c\<lparr>k_files := k_files c @ [(k_part c, fl)], k_part := p, k_sink := sk\<rparr>"
  have "rotate E c = (?c, Inr ())" unfolding rotate_def next_h Let_def using False fl(1) sk by simp
  moreover have "bulk_rep h D [] ?c"
    using assms(1) arrow_sound.create_rep [OF sound(2) sk] by (simp add: bulk_rep_def)
  ultimately show thesis using that [of ?c "[(k_part c, fl)]"] False fl(2) by (simp add: part_holds_def)
qed

lemma index_block_rep:
  assumes "bulk_rep h D cur c" and "block_wf b" and "no_respend D (fb_inputs b) (fb_outputs b)"
  obtains c1 where "index_block E b c = (c1, Inr ())"
    and "bulk_rep h (utxo_step h b D) (cur @ spec_rows h b D) c1" and "k_part c1 = k_part c"
    and "k_missing c1 = k_missing c + of_nat (not_found (block_spends h b D))" and "k_files c1 = k_files c"
proof -
  have c: "k_next c = h" "st_recent (k_utxo c) = None" "utxos (view (st_db (k_utxo c))) = D"
    and sink: "arrow_sound.sink_rep written sink_config_default cur (k_sink c)"
    using assms(1) by (simp_all add: bulk_rep_def)
  have wf: "rows_ok (fb_inputs b) (fb_outputs b)" "indices_ok (fb_txs b) (fb_inputs b) (fb_outputs b)"
    using assms(2) by (simp_all add: block_wf_def)
  have coh: "coherent (utxos (view (st_db (k_utxo c)))) (st_recent (k_utxo c))" using c by (simp add: coherent_def)
  obtain res st where a: "apply_block (pe_rocks E) (pe_iter E) h (fb_txs b) (fb_inputs b) (fb_outputs b) (k_utxo c) = Inr (res, st)"
    using apply_block_total [OF rocks wf(2)] by blast
  note r = apply_block_result [OF sound(1) iter coh a, unfolded c(3), folded block_spends_def]
  have D': "utxos (view (st_db st)) = utxo_step h b D"
    using apply_refines [OF sound(1) iter coh a wf(1)] assms(3) by (simp add: c(3) utxo_step_def)
  have "unat (sr_fees res ! i) = tx_fee h b D i" if "i < length (fb_txs b)" for i
    using charge_outputs_sum [OF r(4), of i] that by (simp add: unat_credit tx_fee_def)
  with fees_per_tx [OF a] have enr: "enrich_block b (sr_fees res) = Inr (with_fees h b D)"
    by (intro enrich_block_result) simp_all
  have "values_ok D" using c(3) utxos_ok by (auto simp: values_ok_def ran_def)
  then have fit: "\<forall>op\<in>set (spec_rows h b D). op_ok op" by (rule spec_rows_fit [OF assms(2)])
  obtain sk where sk: "res_fold (sink_step (pe_arrow E)) (spec_rows h b D) (k_sink c) = Inr sk"
    using arrow_total.run_total [OF arrow sink fit] by blast
  let ?c = "c\<lparr>k_utxo := st, k_missing := k_missing c + sr_missing res, k_sink := sk\<rparr>"
  have "index_block E b c = (?c, Inr ())"
    using a enr sk r(1) by (simp add: index_block_def c(1) Let_def push_rows_fold spec_rows_def)
  moreover have "bulk_rep h (utxo_step h b D) (cur @ spec_rows h b D) ?c"
    using c(1) D' r(6) c(2) arrow_sound.run_rep [OF sound(2) sk sink fit] by (simp add: bulk_rep_def)
  ultimately show thesis using that [of ?c] r(2) by simp
qed

lemma advance_rep:
  assumes "bulk_rep h D cur c"
  obtains c1 where "advance E c = (c1, Inr ())" and "bulk_rep (h + 1) D cur c1" and "k_part c1 = k_part c"
    and "k_missing c1 = k_missing c" and "k_files c1 = k_files c"
proof -
  obtain hst x where "on_block_applied (pe_host E) h (k_host c) = (hst, Inr x)"
    using host_writes.record_total [OF host] by blast
  then show thesis using that assms by (auto simp: advance_def bulk_rep_def)
qed

lemma process_rep:
  assumes "bulk_rep h D cur c" and "block_wf b" and "no_respend D (fb_inputs b) (fb_outputs b)"
  defines "p \<equiv> h div pe_blocks_per_part E"
  obtains c1 fls where "process E b c = check_end E c1" and "k_part c1 = p"
    and "bulk_rep (h + 1) (utxo_step h b D) ((if p = k_part c then cur else []) @ spec_rows h b D) c1"
    and "k_missing c1 = k_missing c + of_nat (not_found (block_spends h b D))" and "k_files c1 = k_files c @ fls"
    and "list_all2 (part_holds contents) fls (if p = k_part c then [] else [(k_part c, cur)])"
proof -
  obtain c1 fls where c1: "rotate E c = (c1, Inr ())" "bulk_rep h D (if p = k_part c then cur else []) c1"
    "k_part c1 = p" "k_missing c1 = k_missing c" "k_files c1 = k_files c @ fls"
    "list_all2 (part_holds contents) fls (if p = k_part c then [] else [(k_part c, cur)])"
    unfolding p_def by (rule rotate_rep [OF assms(1)])
  obtain c2 where c2: "index_block E b c1 = (c2, Inr ())"
    "bulk_rep h (utxo_step h b D) ((if p = k_part c then cur else []) @ spec_rows h b D) c2"
    "k_part c2 = k_part c1" "k_missing c2 = k_missing c1 + of_nat (not_found (block_spends h b D))" "k_files c2 = k_files c1"
    by (rule index_block_rep [OF c1(2) assms(2,3)])
  obtain c3 where c3: "advance E c2 = (c3, Inr ())"
    "bulk_rep (h + 1) (utxo_step h b D) ((if p = k_part c then cur else []) @ spec_rows h b D) c3"
    "k_part c3 = k_part c2" "k_missing c3 = k_missing c2" "k_files c3 = k_files c2"
    by (rule advance_rep [OF c2(2)])
  have "process E b c = check_end E c3"
    using unwatched by (simp add: process_def tripped_def c1(1) c2(1) c3(1))
  then show thesis using c1 c2 c3 by (intro that [of c3 fls]) simp_all
qed

lemma group_parts_step:
  "group_parts ((p, cur) # (q, rows) # rest)
    = (if q = p then [] else [(p, cur)]) @ group_parts ((q, (if q = p then cur else []) @ rows) # rest)"
  by simp

lemma seq_blocks_rep:
  assumes "bulk_rep h D cur c" and "bs \<noteq> []" and "\<forall>b\<in>set bs. block_wf b" and "spends_fit h bs D"
    and "unat h + length bs = unat (pe_end E)"
  shows "\<exists>c' fls. seq_blocks E bs c = (c', Inr ()) \<and> k_next c' = pe_end E
    \<and> utxos (view (st_db (k_utxo c'))) = utxo_after h bs D
    \<and> k_missing c' = k_missing c + of_nat (missing_after h bs D) \<and> k_files c' = k_files c @ fls
    \<and> list_all2 (part_holds contents) fls
        (group_parts ((k_part c, cur) # part_rows (pe_blocks_per_part E) h bs D))"
  using assms
proof (induction bs arbitrary: h D cur c)
  case (Cons b bs)
  let ?p = "h div pe_blocks_per_part E"
  let ?cur = "(if ?p = k_part c then cur else []) @ spec_rows h b D"
  obtain c1 fls where c1: "process E b c = check_end E c1" "k_part c1 = ?p" "bulk_rep (h + 1) (utxo_step h b D) ?cur c1"
    "k_missing c1 = k_missing c + of_nat (not_found (block_spends h b D))" "k_files c1 = k_files c @ fls"
    "list_all2 (part_holds contents) fls (if ?p = k_part c then [] else [(k_part c, cur)])"
    using process_rep [OF Cons.prems(1), of b] Cons.prems(3,4) by auto
  have next_h: "k_next c1 = h + 1" using c1(3) by (simp add: bulk_rep_def)
  have "unat (pe_end E) < 2 ^ 32" using unsigned_less [of "pe_end E"] by simp
  then have up: "unat (h + 1) = unat h + 1" using Cons.prems(5) by (simp add: unat_word_ariths)
  show ?case
  proof (cases "bs = []")
    case True
    then have "pe_end E = h + 1" using Cons.prems(5) up by (simp add: word_unat_eq_iff)
    moreover obtain fl where fl: "finish_sink E c1 = (c1\<lparr>k_files := k_files c1 @ [(k_part c1, fl)]\<rparr>, Inr ())" "files_hold contents fl ?cur"
      by (rule finish_sink_rep [OF c1(3)])
    moreover have "list_all2 (part_holds contents) (fls @ [(?p, fl)])
        (group_parts ((k_part c, cur) # part_rows (pe_blocks_per_part E) h [b] D))"
      unfolding part_rows.simps group_parts_step
      by (intro list_all2_appendI c1(6)) (simp add: part_holds_def fl(2))
    ultimately show ?thesis
      using True c1(1-5) next_h unfolding bulk_rep_def by (auto simp: check_end_def simp del: group_parts.simps(3) part_rows.simps)
  next
    case False
    then have lt: "\<not> pe_end E \<le> h + 1" using Cons.prems(5) up by (cases bs) (simp_all add: word_le_nat_alt)
    have "\<exists>c' fls. seq_blocks E bs c1 = (c', Inr ()) \<and> k_next c' = pe_end E
      \<and> utxos (view (st_db (k_utxo c'))) = utxo_after (h + 1) bs (utxo_step h b D)
      \<and> k_missing c' = k_missing c1 + of_nat (missing_after (h + 1) bs (utxo_step h b D)) \<and> k_files c' = k_files c1 @ fls
      \<and> list_all2 (part_holds contents) fls
        (group_parts ((k_part c1, ?cur) # part_rows (pe_blocks_per_part E) (h + 1) bs (utxo_step h b D)))"
      using Cons.prems up by (intro Cons.IH [OF c1(3) False]) simp_all
    then obtain c' fls' where "seq_blocks E bs c1 = (c', Inr ())" "k_next c' = pe_end E"
      "utxos (view (st_db (k_utxo c'))) = utxo_after (h + 1) bs (utxo_step h b D)"
      "k_missing c' = k_missing c1 + of_nat (missing_after (h + 1) bs (utxo_step h b D))" "k_files c' = k_files c1 @ fls'"
      "list_all2 (part_holds contents) fls'
        (group_parts ((?p, ?cur) # part_rows (pe_blocks_per_part E) (h + 1) bs (utxo_step h b D)))"
      unfolding c1(2) by blast
    then show ?thesis using c1 lt next_h
      by (simp add: check_end_def group_parts_step list_all2_appendI del: group_parts.simps(3))
  qed
qed simp

lemma init_rep:
  assumes "st_recent st = None"
  obtains s0 where "consumer_init E start st hst = Inr s0"
    and "bulk_rep start (utxos (view (st_db st))) [] (cs_core s0)" and "k_missing (cs_core s0) = 0"
    and "k_part (cs_core s0) = start div pe_blocks_per_part E" and "k_files (cs_core s0) = []"
proof -
  obtain sk where sk: "sink_create (pe_arrow E) (pe_out_dir E) (start div pe_blocks_per_part E) sink_config_default = Inr sk"
    using arrow_total.create_total' [OF arrow] by blast
  then show thesis
    using that arrow_sound.create_rep [OF sound(2) sk] assms per_part by (simp add: consumer_init_def bulk_rep_def)
qed

end

interpretation be: bulk_env ex_env "\<lambda>db. db" "\<lambda>w. w" "\<lambda>fl. fl" "\<lambda>w. w"
  by (rule bulk_env.intro)
    (simp_all add: ex_env_def mr.rocks_total_axioms iterates_id la.arrow_total_axioms mhw.host_writes_axioms)

lemma group_parts_init:
  "bs \<noteq> [] \<Longrightarrow> group_parts ((h div n, []) # part_rows n h bs D) = group_parts (part_rows n h bs D)"
  by (cases bs) simp_all

lemma bulk_env_consumer:
  assumes "rocks_total (pe_rocks E) view" and "iterates (pe_iter E)" and "arrow_total (pe_arrow E) written contents"
    and "host_writes (pe_host E) files" and "pe_watchdog E = None" and "pc_blocks_per_part cfg \<noteq> 0"
  shows "bulk_env (consumer_env E cfg end_h) view written contents files"
  using assms by (simp add: bulk_env_def consumer_env_def)

lemma parsed_blocks_wf:
  assumes "digest_widths H" and "\<forall>i<length bs. parse_direct H F dir index orphans (start + of_nat i)
           = Inr (Block (start + of_nat i) (bs ! i))"
  shows "\<forall>b\<in>set bs. block_wf b"
proof
  fix b
  assume "b \<in> set bs"
  then obtain i where "i < length bs" "b = bs ! i" by (auto simp: in_set_conv_nth)
  with assms(2) obtain bytes where "parse_bytes H orphans (start + of_nat i) bytes = Inr (Block (start + of_nat i) b)"
    by (auto simp: parse_direct_def res_simps split: if_splits)
  then show "block_wf b" by (rule parsed_block_wf [OF assms(1)])
qed

section \<open>Properties\<close>

text \<open>C1. A bulk run does what its specification says. Over components that do not fail, when every height of
  the planned range parses to a block and no block creates and spends an outpoint that was unspent before it,
  the run completes, whatever the order in which the workers finish. The store then holds the set
  that adding the outputs and removing the spent outpoints of each block in turn gives, the missing inputs are
  counted, and there is one set of part files per part of the range, in order, holding exactly the rows of its
  blocks: the parsed rows with every fee filled in, and a spend row for each input that was found.\<close>
theorem bulk_run_refines:
  assumes "rocks_total (pe_rocks E) view" and "iterates (pe_iter E)" and "arrow_total (pe_arrow E) written contents"
    and "host_writes (pe_host E) files" and "pe_watchdog E = None" and "pc_blocks_per_part cfg \<noteq> 0"
    and "digest_widths H"
    and "plan_range cfg index = Inr (start, end_h)" and "disk_config F cfg = Inr dc"
    and "preflight_stage FL (pe_host E) w Q S X cfg dc n = (n', Inr orphans)"
    and "store_open A (pc_utxo cfg) = Inr st"
    and "length bs = unat (end_h - start)"
    and "\<forall>i<length bs. parse_direct H F (pc_blocks_dir cfg) index orphans (start + of_nat i)
           = Inr (Block (start + of_nat i) (bs ! i))"
    and "\<forall>hs. set (order hs) = set hs"
    and "spends_fit start bs (utxos (view (st_db st)))"
  shows "\<exists>c. run_parse FL H F Q S X E order (Inr (index, stats)) A w cfg n = (n', Inr c) \<and> k_next c = end_h
    \<and> utxos (view (st_db (k_utxo c))) = utxo_after start bs (utxos (view (st_db st)))
    \<and> k_missing c = of_nat (missing_after start bs (utxos (view (st_db st))))
    \<and> list_all2 (part_holds contents) (k_files c)
        (group_parts (part_rows (pc_blocks_per_part cfg) start bs (utxos (view (st_db st)))))"
proof -
  let ?E = "consumer_env E cfg end_h" and ?D = "utxos (view (st_db st))"
  have env: "bulk_env ?E view written contents files" by (rule bulk_env_consumer [OF assms(1-6)])
  have E: "pe_end ?E = end_h" "pe_blocks_per_part ?E = pc_blocks_per_part cfg" by (simp_all add: consumer_env_def)
  have lt: "start < end_h" by (rule plan_range_order [OF assms(8)])
  then have len: "unat start + length bs = unat (pe_end ?E)"
    using assms(12) unat_sub [of start end_h] by (simp add: E word_le_nat_alt word_less_nat_alt)
  then have ne: "bs \<noteq> []" using lt by (auto simp: E word_less_nat_alt)
  have "st_recent st = None"
    using assms(11) by (auto simp: store_open_def open_with_def res_simps split: prod.splits)
  then obtain s0 where s0: "consumer_init ?E start st (w, recorder_new (pe_host E) w dc) = Inr s0"
    "bulk_env.bulk_rep view written start ?D [] (cs_core s0)" "k_missing (cs_core s0) = 0"
    "k_part (cs_core s0) = start div pe_blocks_per_part ?E" "k_files (cs_core s0) = []"
    by (rule bulk_env.init_rep [OF env])
  from bulk_env.seq_blocks_rep [OF env s0(2) ne parsed_blocks_wf [OF assms(7,13)] assms(15) len]
  obtain c where "seq_blocks ?E bs (cs_core s0) = (c, Inr ())" "k_next c = end_h"
    "utxos (view (st_db (k_utxo c))) = utxo_after start bs ?D" "k_missing c = of_nat (missing_after start bs ?D)"
    "list_all2 (part_holds contents) (k_files c) (group_parts (part_rows (pc_blocks_per_part cfg) start bs ?D))"
    by (auto simp: s0(3-5) E group_parts_init [OF ne])
  then show ?thesis using bulk_parse_seq [OF assms(8-14), of stats] s0(1) by auto
qed

text \<open>Two empty blocks, one per part, parsed in reverse order.\<close>

definition ex_parts_config :: parse_config where
  "ex_parts_config = ex_config\<lparr>pc_blocks_per_part := 1\<rparr>"

theorem bulk_run_refines_witness:
  "\<exists>n' c. run_parse real_f64 pad_digests (chain_fs ex_blocks) (json_http std_hex []) std_serde std_hex ex_env rev
      (Inr (ex_index, ex_stats)) (map_admin (\<lambda>_. Map.empty)) Map.empty ex_parts_config [] = (n', Inr c)
    \<and> k_next c = 2 \<and> k_missing c = 0 \<and> map fst (k_files c) = [0, 1]"
proof -
  obtain b where b: "\<And>h. parse_bytes pad_digests None h ex_payload = Inr (Block h (b h))"
    and e: "\<And>h. fb_inputs (b h) = []" "\<And>h. fb_outputs (b h) = []"
    using ex_parse_bytes by metis
  have two: "length (by_height ex_index) = 2" by (simp add: ex_index_def ex_blocks_def)
  then have "tip_height ex_index = Some 1" by (auto simp: tip_height_def)
  then have plan: "plan_range ex_parts_config ex_index = Inr (0, 2)"
    by (simp add: plan_range_def ex_parts_config_def ex_config_def)
  obtain dc where dc: "disk_config (chain_fs ex_blocks) ex_parts_config = Inr dc"
    by (simp add: disk_config_def ex_parts_config_def ex_config_def Let_def)
  have pre: "preflight_stage real_f64 (pe_host ex_env) Map.empty (json_http std_hex []) std_serde std_hex ex_parts_config dc [] = ([], Inr None)"
    by (simp add: preflight_stage_def ex_parts_config_def ex_config_def)
  have op: "store_open (map_admin (\<lambda>_. Map.empty)) (pc_utxo ex_parts_config) = Inr ex_store"
    using ex_store_open by (simp add: ex_parts_config_def)
  have direct: "\<forall>i<length [b 0, b 1]. parse_direct pad_digests (chain_fs ex_blocks) (pc_blocks_dir ex_parts_config) ex_index None (0 + of_nat i)
      = Inr (Block (0 + of_nat i) ([b 0, b 1] ! i))"
    using ex_read [of 0 "pc_blocks_dir ex_parts_config"] ex_read [of 1 "pc_blocks_dir ex_parts_config"] two b
    by (auto simp: parse_direct_def less_Suc_eq)
  have fit: "spends_fit 0 [b 0, b 1] (utxos (st_db ex_store))" by (simp add: no_respend_def e)
  have per: "pc_blocks_per_part ex_parts_config = 1" by (simp add: ex_parts_config_def)
  have env: "pe_watchdog ex_env = None" "rocks_total (pe_rocks ex_env) (\<lambda>db. db)" "iterates (pe_iter ex_env)"
    "arrow_total (pe_arrow ex_env) (\<lambda>w. w) (\<lambda>fl. fl)" "host_writes (pe_host ex_env) (\<lambda>w. w)"
    by (rule be.unwatched be.rocks be.iter be.arrow be.host)+
  have "missing_after 0 [b 0, b 1] (utxos (st_db ex_store)) = 0" by (simp add: block_spends_def e not_found_def)
  moreover have "map fst (group_parts (part_rows 1 0 [b 0, b 1] (utxos (st_db ex_store)))) = [0, 1]" by simp
  moreover have "map fst fs = map fst xs" if "list_all2 (part_holds (\<lambda>fl. fl)) fs xs" for fs xs
    using that by (induction rule: list_all2_induct) (simp_all add: part_holds_def)
  ultimately show ?thesis
    using bulk_run_refines [OF env(2-5,1) _ dg_pad.digest_widths_axioms plan dc pre op _ direct, of rev ex_stats] fit
    unfolding per by fastforce
qed

end
