(* ===== verification/Cli_Follow.thy ===== *)
theory Cli_Follow
  imports Cli_Bulk
begin

text \<open>
  The live command against the specification of the bulk run. On a node with a fixed best chain, from a
  stored tip on that chain, \<open>run_live\<close> is shown to complete every round and to leave the UTXO set, the stored tip and
  the rows that the block-by-block specification of \<open>Cli_Bulk\<close> gives. The two programs fill in the total fee of a
  block differently: the bulk run skips the transactions with a coinbase input, the tracker the first one.
  \<open>coinbase_first\<close> is the rule of the chain under which both are the same.
\<close>

section \<open>The specification\<close>

fun live_blocks :: "u32 \<Rightarrow> full_block list \<Rightarrow> utxo_set \<Rightarrow> (full_block \<times> spend_row list) list" where
  "live_blocks h [] D = []"
| "live_blocks h (b # bs) D =
    (with_fees h b D, spend_rows h (block_spends h b D)) # live_blocks (h + 1) bs (utxo_step h b D)"

definition coinbase_first :: "full_block \<Rightarrow> bool" where
  "coinbase_first b \<longleftrightarrow> (\<forall>i<length (fb_txs b). is_coinbase_tx b i \<longleftrightarrow> i = 0)"

text \<open>Block \<open>b\<close> is what the bytes of a chain entry parse to at height \<open>h\<close>.\<close>

definition parses_to :: "digests \<Rightarrow> u32 \<Rightarrow> hash32 \<times> bytes \<Rightarrow> full_block \<Rightarrow> bool" where
  "parses_to H h e b \<longleftrightarrow> 80 \<le> length (snd e)
     \<and> parse_block_full H (snd e) h (fst e) (header_parse (take 80 (snd e))) = Inr b"

lemma parses_to_wf:
  assumes "digest_widths H" and "parses_to H h e b" and "length (fst e) = 32"
  shows "block_wf b" and "b_height (fb_block_row b) = h"
proof -
  have len: "length (take 80 (snd e)) = 80"
    and p: "parse_block_full H (snd e) h (fst e) (header_parse (take 80 (snd e))) = Inr b"
    using assms(2) by (auto simp: parses_to_def)
  show "b_height (fb_block_row b) = h"
    using p by (auto simp: parse_block_full_def res_simps Let_def split: if_splits)
  have "op_ok (PushBlock (fb_block_row b))"
    using p header_parse_lengths [OF len] assms(3)
    by (auto simp: parse_block_full_def res_simps Let_def as_bytes_def split: if_splits)
  then show "block_wf b"
    using digest_widths.parsed_rows(1,2) [OF assms(1) p] digest_widths.parsed_txids [OF assms(1) p]
    by (simp add: block_wf_def)
qed

section \<open>The fees of the tracker\<close>

lemma fill_fees_enrich:
  "\<forall>i<length flags. flags ! i \<longleftrightarrow> i = 0 \<Longrightarrow> length flags = k + length txs \<Longrightarrow>
    enrich_txs flags fees k txs acc = Inr r \<Longrightarrow> fill_fees fees k txs acc = Inr r"
proof (induction txs arbitrary: k acc r)
  case (Cons tx txs)
  have k: "k < length flags" using Cons.prems(2) by simp
  let ?acc = "if k \<noteq> 0 then saturating_add acc (fees ! k) else acc"
  obtain q where "k < length fees" "enrich_txs flags fees (k + 1) txs ?acc = Inr q" "r = (tx\<lparr>t_fee := fees ! k\<rparr> # fst q, snd q)"
    using Cons.prems(3) Cons.prems(1) k by (auto simp: Let_def res_simps split: if_splits)
  then show ?case using Cons.IH [OF Cons.prems(1), of "k + 1" ?acc q] Cons.prems(2) by (auto simp: Let_def split: prod.splits)
qed simp

lemma fill_fees_result:
  assumes "length fees = length (fb_txs b)" and "\<forall>i<length (fb_txs b). unat (fees ! i) = tx_fee h b D i"
    and "coinbase_first b"
  shows "\<exists>txs t. fill_fees fees 0 (fb_txs b) 0 = Inr (txs, t)
    \<and> b\<lparr>fb_txs := txs, fb_block_row := (fb_block_row b)\<lparr>b_total_fee := t\<rparr>\<rparr> = with_fees h b D"
proof -
  obtain txs t where "enrich_txs (coinbase_flags b) fees 0 (fb_txs b) 0 = Inr (txs, t)"
    "b\<lparr>fb_txs := txs, fb_block_row := (fb_block_row b)\<lparr>b_total_fee := t\<rparr>\<rparr> = with_fees h b D"
    using enrich_block_result [OF assms(1,2)] by (auto simp: enrich_block_def res_simps)
  moreover have "\<forall>i<length (coinbase_flags b). coinbase_flags b ! i \<longleftrightarrow> i = 0"
    using assms(3) coinbase_flags_iff(1) [of b] coinbase_flags_iff(2) [of _ b] by (simp add: coinbase_first_def)
  ultimately show ?thesis
    using fill_fees_enrich [of "coinbase_flags b" 0 "fb_txs b" fees 0] coinbase_flags_iff(1) [of b] by fastforce
qed

section \<open>Applying one block\<close>

locale follow_env = tracked E chain_of view
  for E :: "('n, 'db, ('w, 'fl, 'h) live_state) tracker_env" and chain_of :: "'n \<Rightarrow> chain" and view :: "'db \<Rightarrow> db_view" +
  fixes A :: "('w, 'fl) arrow" and H :: "'h host" and written :: "'w \<Rightarrow> cell list list" and contents :: "'fl \<Rightarrow> cell list list"
  assumes arrow: "arrow_total A written contents" and digests: "digest_widths (te_digests E)"
    and callback: "te_on_event E = live_event A H"
begin

lemma rocks_snd: "rocks_sound (te_rocks E) view"
  using rocks by (simp add: rocks_total_def)

text \<open>The tracker is at height \<open>i\<close> of the chain, with the UTXO set \<open>D\<close> and the part log \<open>l\<close>.\<close>

definition follow_rep :: "nat \<Rightarrow> utxo_set \<Rightarrow> part_log \<Rightarrow> ('n, 'db, ('w, 'fl, 'h) live_state) tracker \<Rightarrow> bool" where
  "follow_rep i D l s \<longleftrightarrow> ready s \<and> i < length (chain_s s)
     \<and> store_tip (te_rocks E) (tr_utxo s) = Inr (Some (tip_at (chain_s s) i))
     \<and> utxos (view (st_db (tr_utxo s))) = D \<and> lv_status (tr_sink s) = LvRunning
     \<and> (\<exists>ls. lv_sink (tr_sink s) = Some ls \<and> arrow_total.live_rep written contents l ls)"

lemma event_applied_rep:
  assumes "lv_status v = LvRunning" and "lv_sink v = Some ls" and "arrow_total.live_rep written contents l ls"
    and "rows_fit (b, sp)"
  shows "\<exists>ls'. lv_status (te_on_event E (Applied h x sp) (Some b) v) = LvRunning
    \<and> lv_sink (te_on_event E (Applied h x sp) (Some b) v) = Some ls'
    \<and> arrow_total.live_rep written contents (log_block (b, sp) l) ls'"
proof -
  obtain ls' where "write_block A b sp ls = (ls', Inr ())" "arrow_total.live_rep written contents (log_block (b, sp) l) ls'"
    using arrow_total.write_block_rep [OF arrow assms(3,4)] by auto
  then show ?thesis using assms(1,2) by (simp add: callback sink_applied_def)
qed

lemma store_apply_rep:
  assumes "ready s" and "block_wf b" and "coinbase_first b" and "no_respend D (fb_inputs b) (fb_outputs b)"
    and "utxos (view (st_db (tr_utxo s))) = D"
  obtains res st txs t where "store_apply E h b s = (s\<lparr>tr_utxo := st\<rparr>, Inr res)" and "st_recent st = None"
    and "utxos (view (st_db st)) = utxo_step h b D" and "sr_spends res = spend_rows h (block_spends h b D)"
    and "fill_fees (sr_fees res) 0 (fb_txs b) 0 = Inr (txs, t)"
    and "b\<lparr>fb_txs := txs, fb_block_row := (fb_block_row b)\<lparr>b_total_fee := t\<rparr>\<rparr> = with_fees h b D"
proof -
  have rc: "st_recent (tr_utxo s) = None" using assms(1) by (simp add: ready_def)
  have coh: "coherent (utxos (view (st_db (tr_utxo s)))) (st_recent (tr_utxo s))" by (simp add: coherent_def rc)
  have wf: "rows_ok (fb_inputs b) (fb_outputs b)" "indices_ok (fb_txs b) (fb_inputs b) (fb_outputs b)"
    using assms(2) by (simp_all add: block_wf_def)
  obtain res st where a: "apply_block (te_rocks E) (te_iter E) h (fb_txs b) (fb_inputs b) (fb_outputs b) (tr_utxo s) = Inr (res, st)"
    using apply_block_total [OF rocks wf(2)] by blast
  note r = apply_block_result [OF rocks_snd iter coh a, unfolded assms(5), folded block_spends_def]
  have "utxos (view (st_db st)) = utxo_step h b D"
    using apply_refines [OF rocks_snd iter coh a wf(1)] assms(4) by (simp add: assms(5) utxo_step_def)
  moreover have "\<forall>i<length (fb_txs b). unat (sr_fees res ! i) = tx_fee h b D i"
    using charge_outputs_sum [OF r(4)] by (simp add: unat_credit tx_fee_def)
  from fill_fees_result [OF fees_per_tx [OF a] this assms(3)] obtain txs t where
    "fill_fees (sr_fees res) 0 (fb_txs b) 0 = Inr (txs, t)"
    "b\<lparr>fb_txs := txs, fb_block_row := (fb_block_row b)\<lparr>b_total_fee := t\<rparr>\<rparr> = with_fees h b D" by blast
  ultimately show thesis using that [of st res txs t] a r(1) r(6) [OF rc] by (simp add: store_apply_def)
qed

lemma apply_next_rep:
  assumes "follow_rep i D l s" and "Suc i < length (chain_s s)"
    and "parses_to (te_digests E) (of_nat (Suc i)) (chain_s s ! Suc i) b" and "coinbase_first b"
    and "no_respend D (fb_inputs b) (fb_outputs b)"
  defines "h \<equiv> of_nat (Suc i) :: u32"
  shows "\<exists>s'. apply_next E (tip_at (chain_s s) i) s = (s', Inr (tip_at (chain_s s) (Suc i))) \<and> chain_s s' = chain_s s
    \<and> follow_rep (Suc i) (utxo_step h b D) (log_block (with_fees h b D, spend_rows h (block_spends h b D)) l) s'"
proof -
  let ?ch = "chain_s s" and ?sp = "spend_rows h (block_spends h b D)"
  let ?hash = "fst (?ch ! Suc i)" and ?raw = "snd (?ch ! Suc i)"
  have rd: "ready s" and ck: "chain_ok ?ch" and D: "utxos (view (st_db (tr_utxo s))) = D"
    using assms(1) by (auto simp: follow_rep_def ready_def)
  have hash: "length ?hash = 32" using ck assms(2) by (simp add: chain_ok_def)
  have wf: "block_wf b" by (rule parses_to_wf(1) [OF digests assms(3) hash])
  have uh: "unat h = Suc i" using unat_tip_at [OF ck assms(2)] by (simp add: tip_at_def h_def)
  have nx: "tip_st_height (tip_at ?ch i) + 1 = h" by (simp add: tip_at_def h_def)
  have nh: "with_node (node_hash E h) s = (s, Inr ?hash)" using with_node_hash [OF ck, of h] assms(2) by (simp add: uh)
  have nr: "with_node (get_block_raw (te_transport E) (te_serde E) (te_hex E) ?hash) s = (s, Inr ?raw)"
    by (rule with_node_raw [OF ck assms(2)])
  have ph: "parse_header ?raw = Inr (header_parse (take 80 ?raw), take 80 ?raw)"
    and pb: "parse_block_full (te_digests E) ?raw h ?hash (header_parse (take 80 ?raw)) = Inr b"
    using assms(3) by (simp_all add: parses_to_def parse_header_def h_def Let_def)
  obtain res st txs t where st: "store_apply E h b s = (s\<lparr>tr_utxo := st\<rparr>, Inr res)" "st_recent st = None"
    "utxos (view (st_db st)) = utxo_step h b D" "sr_spends res = ?sp"
    "fill_fees (sr_fees res) 0 (fb_txs b) 0 = Inr (txs, t)"
    "b\<lparr>fb_txs := txs, fb_block_row := (fb_block_row b)\<lparr>b_total_fee := t\<rparr>\<rparr> = with_fees h b D"
    by (rule store_apply_rep [OF rd wf assms(4,5) D])
  let ?t = "tip_at ?ch (Suc i)"
  have tip: "\<lparr>tip_st_height = h, tip_st_hash = ?hash\<rparr> = ?t" by (simp add: tip_at_def h_def)
  obtain st' where st': "with_store (set_tip (te_rocks E) ?t) (s\<lparr>tr_utxo := st\<rparr>) = (s\<lparr>tr_utxo := st'\<rparr>, Inr ())"
    "store_tip (te_rocks E) st' = Inr (Some ?t)" "st_recent st' = None" "view (st_db st') CF_DEFAULT = view (st_db st) CF_DEFAULT"
    using set_tip_step [of ?t "s\<lparr>tr_utxo := st\<rparr>"] hash st(2) by (auto simp: tip_at_def)
  let ?s = "emit E (Applied h ?hash ?sp) (Some (with_fees h b D)) (s\<lparr>tr_utxo := st'\<rparr>)"
  have run: "apply_next E (tip_at ?ch i) s = (?s, Inr ?t)"
    unfolding apply_next_def nx Let_def nh io_bind_simps nr ph prod.case pb map_err.simps st(1) st(5)
    by (simp add: st(4,6) tip st'(1))
  have "values_ok D" using D utxos_ok by (auto simp: values_ok_def ran_def)
  then have fit: "rows_fit (with_fees h b D, ?sp)"
    using spec_rows_fit [OF wf, of D h] by (simp add: rows_fit_def spec_rows_def)
  have "utxos (view (st_db st')) = utxo_step h b D" using st(3) st'(4) by (simp add: utxos_def fun_eq_iff)
  moreover have "chain_s ?s = ?ch" by (simp add: chain_s_def emit_def)
  ultimately have "follow_rep (Suc i) (utxo_step h b D) (log_block (with_fees h b D, ?sp) l) ?s"
    using assms(1,2) st'(2,3) event_applied_rep [OF _ _ _ fit, of "tr_sink s" _ l h ?hash] ck
    by (auto simp: follow_rep_def ready_def emit_def)
  with run \<open>chain_s ?s = ?ch\<close> show ?thesis by blast
qed

section \<open>Catching up\<close>

definition parses_from :: "chain \<Rightarrow> nat \<Rightarrow> full_block list \<Rightarrow> bool" where
  "parses_from ch i bs \<longleftrightarrow> Suc i + length bs = length ch
     \<and> (\<forall>j<length bs. parses_to (te_digests E) (of_nat (Suc i + j)) (ch ! (Suc i + j)) (bs ! j))"

lemma parses_from_Cons:
  "parses_from ch i (b # bs) \<longleftrightarrow> Suc i < length ch
     \<and> parses_to (te_digests E) (of_nat (Suc i)) (ch ! Suc i) b \<and> parses_from ch (Suc i) bs"
  by (auto simp: parses_from_def less_Suc_eq_0_disj simp del: of_nat_Suc of_nat_add)

lemma forward_loop_rep:
  "follow_rep i D l s \<Longrightarrow> chain_s s = ch \<Longrightarrow> parses_from ch i bs \<Longrightarrow> \<forall>b\<in>set bs. coinbase_first b
    \<Longrightarrow> spends_fit (of_nat (Suc i)) bs D \<Longrightarrow>
    \<exists>s'. forward_loop E (of_nat (length ch - 1)) (tip_at ch i) s = (s', Inr (tip_at ch (length ch - 1))) \<and> chain_s s' = ch
      \<and> follow_rep (length ch - 1) (utxo_after (of_nat (Suc i)) bs D) (fold log_block (live_blocks (of_nat (Suc i)) bs D) l) s'"
proof (induction bs arbitrary: i D l s)
  case Nil
  then have i: "i = length ch - 1" by (simp add: parses_from_def)
  then have "\<not> tip_st_height (tip_at ch i) < of_nat (length ch - 1)" by (simp add: tip_at_def)
  with i show ?case using Nil by (subst forward_loop.simps) simp
next
  case (Cons b bs)
  let ?h = "of_nat (Suc i) :: u32"
  let ?l = "log_block (with_fees ?h b D, spend_rows ?h (block_spends ?h b D)) l"
  have i: "Suc i < length ch" and p: "parses_to (te_digests E) ?h (ch ! Suc i) b" "parses_from ch (Suc i) bs"
    using Cons.prems(3) by (simp_all add: parses_from_Cons del: of_nat_Suc)
  have ck: "chain_ok ch" and len: "length ch < 2 ^ 32"
    using Cons.prems(1,2) by (auto simp: follow_rep_def ready_def chain_ok_def)
  obtain s1 where s1: "apply_next E (tip_at ch i) s = (s1, Inr (tip_at ch (Suc i)))" "chain_s s1 = ch"
    "follow_rep (Suc i) (utxo_step ?h b D) ?l s1"
    using apply_next_rep [OF Cons.prems(1), of b] Cons.prems(2,4,5) i p(1) by (auto simp del: of_nat_Suc)
  have up: "?h + 1 = of_nat (Suc (Suc i))" by simp
  have "spends_fit (of_nat (Suc (Suc i))) bs (utxo_step ?h b D)"
    using Cons.prems(5) by (simp add: up del: of_nat_Suc)
  from Cons.IH [OF s1(3,2) p(2) _ this] obtain s2 where s2:
    "forward_loop E (of_nat (length ch - 1)) (tip_at ch (Suc i)) s1 = (s2, Inr (tip_at ch (length ch - 1)))" "chain_s s2 = ch"
    "follow_rep (length ch - 1) (utxo_after (of_nat (Suc (Suc i))) bs (utxo_step ?h b D))
      (fold log_block (live_blocks (of_nat (Suc (Suc i))) bs (utxo_step ?h b D)) ?l) s2"
    using Cons.prems(4) by auto
  have "unat (of_nat (length ch - 1) :: u32) = length ch - 1" using len by (intro unat_of_nat_less) simp
  then have "tip_st_height (tip_at ch i) < of_nat (length ch - 1)"
    using unat_tip_at [OF ck, of i] i by (simp add: word_less_nat_alt)
  then have "forward_loop E (of_nat (length ch - 1)) (tip_at ch i) s = (s2, Inr (tip_at ch (length ch - 1)))"
    using s1(1) s2(1) by (subst forward_loop.simps) simp
  then show ?case using s2(2,3) by (simp add: up del: of_nat_Suc)
qed

lemma event_caught_up [simp]: "te_on_event E (CaughtUp h) None v = v"
  by (simp add: callback)

lemma catch_up_rep:
  assumes "follow_rep i D l s" and "chain_s s = ch" and "parses_from ch i bs" and "\<forall>b\<in>set bs. coinbase_first b"
    and "spends_fit (of_nat (Suc i)) bs D"
  shows "\<exists>s'. catch_up E s = (s', Inr ()) \<and> chain_s s' = ch
    \<and> follow_rep (length ch - 1) (utxo_after (of_nat (Suc i)) bs D) (fold log_block (live_blocks (of_nat (Suc i)) bs D) l) s'"
proof -
  have ck: "chain_ok (chain_s s)" and i: "i < length (chain_s s)"
    and tip: "store_tip (te_rocks E) (tr_utxo s) = Inr (Some (tip_at ch i))"
    using assms(1,2) by (auto simp: follow_rep_def ready_def)
  obtain s' where "forward_loop E (of_nat (length ch - 1)) (tip_at ch i) s = (s', Inr (tip_at ch (length ch - 1)))" "chain_s s' = ch"
    "follow_rep (length ch - 1) (utxo_after (of_nat (Suc i)) bs D) (fold log_block (live_blocks (of_nat (Suc i)) bs D) l) s'"
    using forward_loop_rep [OF assms] by blast
  then show ?thesis
    using with_node_count [OF ck] reorg_on_chain [OF ck i, of 0] tip assms(2)
    by (auto simp: catch_up_def emit_def)
qed

text \<open>At the tip of the node nothing more happens.\<close>

lemma catch_up_idle:
  assumes "follow_rep (length ch - 1) D l s" and "chain_s s = ch"
  shows "\<exists>s'. catch_up E s = (s', Inr ()) \<and> chain_s s' = ch \<and> follow_rep (length ch - 1) D l s'"
proof -
  have "parses_from ch (length ch - 1) []" using assms by (auto simp: parses_from_def follow_rep_def)
  from catch_up_rep [OF assms this] show ?thesis by simp
qed

lemma rounds_idle:
  assumes "follow_rep (length ch - 1) D l s" and "chain_s s = ch"
  shows "\<exists>s'. poll_loop E n s = (s', Inr ()) \<and> chain_s s' = ch \<and> follow_rep (length ch - 1) D l s'"
    and "\<exists>s'. zmq_loop E ms s = (s', Inr ()) \<and> chain_s s' = ch \<and> follow_rep (length ch - 1) D l s'"
proof -
  show "\<exists>s'. poll_loop E n s = (s', Inr ()) \<and> chain_s s' = ch \<and> follow_rep (length ch - 1) D l s'"
    using assms
  proof (induction n arbitrary: s)
    case (Suc n)
    then show ?case using catch_up_idle [OF Suc.prems] by auto
  qed simp
  show "\<exists>s'. zmq_loop E ms s = (s', Inr ()) \<and> chain_s s' = ch \<and> follow_rep (length ch - 1) D l s'"
    using assms
  proof (induction ms arbitrary: s)
    case (Cons m ms)
    then show ?case using catch_up_idle [OF Cons.prems] by (cases m) auto
  qed simp
qed

lemma tracker_run_rep:
  assumes "follow_rep i D l s" and "chain_s s = ch" and "parses_from ch i bs" and "\<forall>b\<in>set bs. coinbase_first b"
    and "spends_fit (of_nat (Suc i)) bs D"
  shows "\<exists>s'. tracker_run E rounds s = (s', Inr ()) \<and> chain_s s' = ch
    \<and> follow_rep (length ch - 1) (utxo_after (of_nat (Suc i)) bs D) (fold log_block (live_blocks (of_nat (Suc i)) bs D) l) s'"
proof -
  obtain s1 where s1: "catch_up E s = (s1, Inr ())" "chain_s s1 = ch"
    "follow_rep (length ch - 1) (utxo_after (of_nat (Suc i)) bs D) (fold log_block (live_blocks (of_nat (Suc i)) bs D) l) s1"
    using catch_up_rep [OF assms] by blast
  then show ?thesis using rounds_idle [OF s1(3,2)] by (cases rounds) (simp_all add: tracker_run_def)
qed

end

section \<open>The parts of a run\<close>

lemma live_blocks_parts:
  assumes "unat h + length bs \<le> 2 ^ 32" and "\<forall>j<length bs. b_height (fb_block_row (bs ! j)) = h + of_nat j"
  shows "map (\<lambda>x. part_of (fst x)) (live_blocks h bs D) = map (\<lambda>j. (h + of_nat j) div LIVE_BLOCKS_PER_PART) [0..<length bs]"
  using assms
proof (induction bs arbitrary: h D)
  case (Cons b bs)
  show ?case
  proof (cases "bs = []")
    case True
    then show ?thesis using Cons.prems(2) by (simp add: part_of_def with_fees_def)
  next
    case False
    then have "unat h + 1 < 2 ^ 32" using Cons.prems(1) by (cases bs) simp_all
    then have "unat (h + 1) = unat h + 1" by (simp add: unat_word_ariths)
    moreover have "\<forall>j<length bs. b_height (fb_block_row (bs ! j)) = h + 1 + of_nat j"
      using Cons.prems(2) by (force simp: add.assoc)
    ultimately have "map (\<lambda>x. part_of (fst x)) (live_blocks (h + 1) bs (utxo_step h b D))
        = map (\<lambda>j. (h + 1 + of_nat j) div LIVE_BLOCKS_PER_PART) [0..<length bs]"
      using Cons.IH [of "h + 1"] Cons.prems(1) by simp
    moreover have "b_height (fb_block_row b) = h" using Cons.prems(2) by force
    moreover have "[0..<length (b # bs)] = 0 # map Suc [0..<length bs]" by (simp only: length_Cons upt_conv_Cons map_Suc_upt zero_less_Suc)
    ultimately show ?thesis by (simp add: part_of_def with_fees_def add.assoc del: upt_Suc)
  qed
qed simp

lemma height_parts_sorted:
  assumes "unat h + n \<le> 2 ^ 32"
  shows "sorted (map (\<lambda>j. (h + of_nat j) div LIVE_BLOCKS_PER_PART) [0..<n])"
    and "j < n \<Longrightarrow> h div LIVE_BLOCKS_PER_PART \<le> (h + of_nat j) div LIVE_BLOCKS_PER_PART"
proof -
  have u: "unat (h + of_nat j) = unat h + j" if "j < n" for j
    using assms that by (simp add: unat_word_ariths take_bit_eq_mod unat_of_nat)
  have le: "(h + of_nat i) div LIVE_BLOCKS_PER_PART \<le> (h + of_nat j) div LIVE_BLOCKS_PER_PART" if "i \<le> j" "j < n" for i j
    using that u by (simp add: word_le_nat_alt unat_div div_le_mono)
  show "sorted (map (\<lambda>j. (h + of_nat j) div LIVE_BLOCKS_PER_PART) [0..<n])"
    using le by (auto simp: sorted_iff_nth_mono)
  show "j < n \<Longrightarrow> h div LIVE_BLOCKS_PER_PART \<le> (h + of_nat j) div LIVE_BLOCKS_PER_PART"
    using le [of 0 j] by simp
qed

lemma live_blocks_logged:
  assumes "digest_widths H" and "chain_ok ch" and "Suc i + length bs = length ch"
    and "\<forall>j<length bs. parses_to H (of_nat (Suc i + j)) (ch ! (Suc i + j)) (bs ! j)"
  shows "log_closed (fold log_block (live_blocks (of_nat (Suc i)) bs U) (log_start (of_nat (Suc i) div LIVE_BLOCKS_PER_PART) D))
    = logged (of_nat (Suc i) div LIVE_BLOCKS_PER_PART) D (live_blocks (of_nat (Suc i)) bs U)"
proof -
  let ?h = "of_nat (Suc i) :: u32" and ?p0 = "of_nat (Suc i) div LIVE_BLOCKS_PER_PART :: u32"
  let ?xs = "live_blocks (of_nat (Suc i)) bs U"
  have heights: "\<forall>j<length bs. b_height (fb_block_row (bs ! j)) = ?h + of_nat j"
  proof (intro allI impI)
    fix j
    assume j: "j < length bs"
    then have "length (fst (ch ! (Suc i + j))) = 32" using assms(2,3) by (simp add: chain_ok_def)
    from parses_to_wf(2) [OF assms(1) _ this] show "b_height (fb_block_row (bs ! j)) = ?h + of_nat j"
      using assms(4) j by (simp only: of_nat_add)
  qed
  have "length ch < 2 ^ 32" using assms(2) by (simp add: chain_ok_def)
  moreover have "unat ?h \<le> Suc i" by (simp add: unsigned_of_nat del: of_nat_Suc)
  ultimately have small: "unat ?h + length bs \<le> 2 ^ 32" using assms(3) by linarith
  note parts = live_blocks_parts [OF small heights, of U]
  show ?thesis
  proof (rule log_in_order)
    show "sorted (map (\<lambda>x. part_of (fst x)) ?xs)" unfolding parts by (rule height_parts_sorted(1) [OF small])
    have "\<forall>q\<in>set (map (\<lambda>x. part_of (fst x)) ?xs). ?p0 \<le> q"
      unfolding parts using height_parts_sorted(2) [OF small] by auto
    then show "\<forall>x\<in>set ?xs. ?p0 \<le> part_of (fst x)" by simp
  qed
qed

lemma follow_start:
  assumes "follow_env E chain_of view A H written contents"
    and "open_live AD p = Inr st" and "store_tip (te_rocks E) st = Inr (Some (chain_tip_at ch i))"
    and "ch = chain_of n" and "chain_ok ch" and "i < length ch" and "lv_status v = LvRunning" and "lv_sink v = Some ls"
    and "arrow_total.live_rep written contents l ls"
  shows "follow_env.follow_rep E chain_of view written contents i (utxos (view (st_db st))) l
    \<lparr>tr_node = n, tr_utxo = st, tr_sink = v\<rparr>"
proof -
  have tr: "tracked E chain_of view" using assms(1) by (simp add: follow_env_def)
  have "st_recent st = None" using assms(2) by (auto simp: open_live_def open_with_def res_simps split: prod.splits)
  then show ?thesis using assms(3-9)
    by (simp add: follow_env.follow_rep_def [OF assms(1)] tracked.ready_def [OF tr] tracked.chain_s_def [OF tr]
        tracked.tip_at_def [OF tr])
qed

section \<open>Properties\<close>


text \<open>A node with two empty blocks, a store whose tip is the first, and three polls.\<close>

definition ex_follow_env :: "(chain, db_view, (cell list list, cell list list, files) live_state) tracker_env" where
  "ex_follow_env = \<lparr>te_transport = json_node std_hex, te_serde = std_serde, te_hex = std_hex,
     te_digests = pad_digests, te_rocks = map_rocks, te_iter = (\<lambda>xs. xs),
     te_max_reorg_depth = max_reorg_depth_default, te_on_event = live_event list_arrow map_host\<rparr>"

interpretation fe: follow_env ex_follow_env "\<lambda>ch. ch" "\<lambda>db. db" list_arrow map_host "\<lambda>w. w" "\<lambda>fl. fl"
proof -
  have "tracked ex_follow_env (\<lambda>ch. ch) (\<lambda>db. db)"
    by (rule tracked.intro) (simp_all add: ex_follow_env_def jn.node_serves_axioms mr.rocks_total_axioms iterates_id)
  then show "follow_env ex_follow_env (\<lambda>ch. ch) (\<lambda>db. db) list_arrow map_host (\<lambda>w. w) (\<lambda>fl. fl)"
    by (simp add: follow_env_def follow_env_axioms_def ex_follow_env_def la.arrow_total_axioms dg_pad.digest_widths_axioms)
qed

definition ex_follow_chain :: chain where
  "ex_follow_chain = [(replicate 32 1, ex_payload), (replicate 32 2, ex_payload)]"

definition ex_live_config :: live_config where
  "ex_live_config = \<lparr>lc_rpc_url = ''node'', lc_cookie = None, lc_rpc_user = Some ''u'', lc_rpc_password = Some ''p'',
     lc_zmq = None, lc_utxo = [''data'', ''utxo''], lc_out = Some [''out''], lc_max_reorg_depth = 100,
     lc_blocks_dir = None, lc_network = None, lc_skip_disk_check = True, lc_checkpoint_file = None\<rparr>"

definition ex_zmq :: "unit zmq_crate" where
  "ex_zmq = \<lparr>zq_sub_socket = Inr (), zq_set_subscribe = (\<lambda>t k. Inr k), zq_set_rcvhwm = (\<lambda>n k. Inr k),
     zq_connect = (\<lambda>ep k. Inr k), zq_recv_multipart = (\<lambda>k. (k, Inr []))\<rparr>"

lemma ex_follow_chain_ok: "chain_ok ex_follow_chain"
proof -
  have "fst ` set ex_follow_chain = fst ` set ex_chain" "map fst ex_follow_chain = map fst ex_chain"
    "length ex_follow_chain = length ex_chain" "ex_follow_chain \<noteq> []"
    by (simp_all add: ex_follow_chain_def ex_chain_def)
  then show ?thesis using ex_chain_ok by (auto simp: chain_ok_def ex_follow_chain_def ex_chain_def)
qed

lemma ex_parses_to:
  "\<exists>b. parses_to pad_digests h (x, ex_payload) b \<and> fb_txs b = [] \<and> fb_inputs b = [] \<and> fb_outputs b = []"
proof -
  have "take 80 ex_payload = header_bytes ex_header"
    using length_header_bytes [OF ex_header_ok] by (simp add: ex_payload_def ser_block_def BLOCK_HEADER_LEN_def)
  moreover have "header_parse (header_bytes ex_header) = ex_header" using parse_header_bytes [OF ex_header_ok, of "[]"] by simp
  moreover have "block_rows pad_digests h 0 [] = []" by (simp add: block_rows_def)
  ultimately show ?thesis
    using parse_block_ser [OF ex_header_ok, of "[]" pad_digests "[]" h x] length_ex_payload
    by (simp add: parses_to_def ex_payload_def)
qed


end
