(* ===== verification/Loader.thy ===== *)
theory Loader
  imports Store_Sink "HOL-Library.Multiset"
begin

text \<open>
  \<open>bidx-loader/src/lib.rs\<close> and \<open>bidx-loader/src/schema.rs\<close>: the ClickHouse schema and the bulk
  loader. The external programs (\<open>which\<close> and \<open>clickhouse-client\<close>) are the parameter \<open>shell\<close>: running
  a program with its arguments changes the outside world and gives an exit status with the two output
  streams, or fails to start. The statements are the literal texts of the source; they are
  proved to name the columns of the Parquet schemas in order, which a positional
  \<open>INSERT \<dots> SELECT *\<close> relies on.
\<close>

section \<open>Statements\<close>

definition ENTITIES :: "string list" where
  "ENTITIES = [''blocks'', ''transactions'', ''inputs'', ''outputs'', ''spends'']"

definition blocks_ddl :: "string \<Rightarrow> string" where
  "blocks_ddl db = ''CREATE TABLE IF NOT EXISTS '' @ db @ ''.blocks (height UInt32, hash FixedString(32), prev_hash FixedString(32), merkle_root FixedString(32), time UInt32, bits UInt32, nonce UInt32, version Int32, tx_count UInt32, size UInt32, weight UInt32, total_fee UInt64, coinbase_value UInt64) ENGINE = MergeTree PARTITION BY intDiv(height, 10000) ORDER BY height''"

definition transactions_ddl :: "string \<Rightarrow> string" where
  "transactions_ddl db = ''CREATE TABLE IF NOT EXISTS '' @ db @ ''.transactions (height UInt32, tx_index UInt32, txid FixedString(32), version Int32, locktime UInt32, size UInt32, weight UInt32, fee UInt64, input_count UInt32, output_count UInt32, has_witness UInt8) ENGINE = MergeTree PARTITION BY intDiv(height, 10000) ORDER BY (height, tx_index)''"

definition transactions_by_txid_ddl :: "string \<Rightarrow> string" where
  "transactions_by_txid_ddl db = ''CREATE TABLE IF NOT EXISTS '' @ db @ ''.transactions_by_txid (txid FixedString(32), height UInt32, tx_index UInt32) ENGINE = MergeTree ORDER BY txid''"

definition inputs_ddl :: "string \<Rightarrow> string" where
  "inputs_ddl db = ''CREATE TABLE IF NOT EXISTS '' @ db @ ''.inputs (height UInt32, tx_index UInt32, input_index UInt32, txid FixedString(32), prev_txid FixedString(32), prev_vout UInt32, script_sig_len UInt32, sequence UInt32, witness_items UInt32, witness_bytes UInt32, is_coinbase UInt8) ENGINE = MergeTree PARTITION BY intDiv(height, 10000) ORDER BY (height, tx_index, input_index)''"

definition inputs_by_prev_output_ddl :: "string \<Rightarrow> string" where
  "inputs_by_prev_output_ddl db = ''CREATE TABLE IF NOT EXISTS '' @ db @ ''.inputs_by_prev_output (prev_txid FixedString(32), prev_vout UInt32, height UInt32, tx_index UInt32, input_index UInt32, txid FixedString(32)) ENGINE = MergeTree ORDER BY (prev_txid, prev_vout)''"

definition outputs_ddl :: "string \<Rightarrow> string" where
  "outputs_ddl db = ''CREATE TABLE IF NOT EXISTS '' @ db @ ''.outputs (height UInt32, tx_index UInt32, output_index UInt32, txid FixedString(32), value_sat UInt64, script_pubkey_len UInt32, script_type UInt8, address_hash FixedString(32)) ENGINE = MergeTree PARTITION BY intDiv(height, 10000) ORDER BY (height, tx_index, output_index)''"

definition outputs_by_address_ddl :: "string \<Rightarrow> string" where
  "outputs_by_address_ddl db = ''CREATE TABLE IF NOT EXISTS '' @ db @ ''.outputs_by_address (address_hash FixedString(32), script_type UInt8, height UInt32, tx_index UInt32, output_index UInt32, txid FixedString(32), value_sat UInt64) ENGINE = MergeTree ORDER BY (address_hash, height, tx_index, output_index)''"

definition spends_ddl :: "string \<Rightarrow> string" where
  "spends_ddl db = ''CREATE TABLE IF NOT EXISTS '' @ db @ ''.spends (height UInt32, spending_tx_index UInt32, spending_input_index UInt32, spending_txid FixedString(32), spent_txid FixedString(32), spent_vout UInt32, spent_value_sat UInt64, spent_script_type UInt8, spent_address_hash FixedString(32), spent_height UInt32) ENGINE = MergeTree PARTITION BY intDiv(height, 10000) ORDER BY (height, spending_tx_index, spending_input_index)''"

definition all_ddl :: "string \<Rightarrow> string list" where
  "all_ddl db = [blocks_ddl db, transactions_ddl db, transactions_by_txid_ddl db, inputs_ddl db,
     inputs_by_prev_output_ddl db, outputs_ddl db, outputs_by_address_ddl db, spends_ddl db]"

section \<open>The loader\<close>

datatype load_error = NoClient | ClientFailed string | LoadIo io_error

record ch_config =
  ch_host :: string
  ch_port :: u16
  ch_user :: string
  ch_password :: "string option"
  ch_database :: string

definition ch_config_default :: ch_config where
  "ch_config_default = \<lparr>ch_host = ''localhost'', ch_port = 9000, ch_user = ''default'', ch_password = None,
     ch_database = ''bitcoin''\<rparr>"

record exit_output =
  ex_success :: bool
  ex_stdout :: string
  ex_stderr :: string

record 'w shell =
  sh_run :: "'w \<Rightarrow> string \<Rightarrow> string list \<Rightarrow> ('w, io_error, exit_output) io"

record ch_loader =
  cl_cfg :: ch_config
  cl_client :: string

fun which_loop :: "'w shell \<Rightarrow> string list \<Rightarrow> 'w \<Rightarrow> 'w \<times> string option" where
  "which_loop S [] w = (w, None)"
| "which_loop S (name # names) w =
    (case sh_run S w ''which'' [name] of
       (w, Inl _) \<Rightarrow> which_loop S names w
     | (w, Inr out) \<Rightarrow>
       (if ex_success out then
          let p = trim (ex_stdout out) in
          if p \<noteq> [] then (w, Some p) else which_loop S names w
        else which_loop S names w))"

definition which_client :: "'w shell \<Rightarrow> 'w \<Rightarrow> 'w \<times> string option" where
  "which_client S w = which_loop S [''clickhouse-client'', ''clickhouse''] w"

definition loader_new :: "'w shell \<Rightarrow> ch_config \<Rightarrow> 'w \<Rightarrow> ('w, load_error, ch_loader) io" where
  "loader_new S cfg w =
    (case which_client S w of (w, client) \<Rightarrow>
      (w, res_bind (ok_or client NoClient) (\<lambda>c. Inr \<lparr>cl_cfg = cfg, cl_client = c\<rparr>)))"

definition base_args :: "ch_config \<Rightarrow> string list" where
  "base_args cfg =
    [''--host='' @ ch_host cfg, ''--port='' @ show_nat (unat (ch_port cfg)), ''--user='' @ ch_user cfg]
    @ (case ch_password cfg of Some p \<Rightarrow> [''--password='' @ p] | None \<Rightarrow> [])"

definition run_query :: "'w shell \<Rightarrow> ch_loader \<Rightarrow> string \<Rightarrow> 'w \<Rightarrow> ('w, load_error, unit) io" where
  "run_query S l sql w =
    (case sh_run S w (cl_client l) (base_args (cl_cfg l) @ [''--query='' @ sql]) of
       (w, Inl e) \<Rightarrow> (w, Inl (LoadIo e))
     | (w, Inr out) \<Rightarrow> if \<not> ex_success out then (w, Inl (ClientFailed (ex_stderr out))) else (w, Inr ()))"

fun run_queries :: "'w shell \<Rightarrow> ch_loader \<Rightarrow> string list \<Rightarrow> 'w \<Rightarrow> ('w, load_error, unit) io" where
  "run_queries S l [] w = (w, Inr ())"
| "run_queries S l (q # qs) w = io_bind (run_query S l q w) (\<lambda>w _. run_queries S l qs w)"

definition create_database :: "string \<Rightarrow> string" where
  "create_database db = ''CREATE DATABASE IF NOT EXISTS '' @ db"

definition init_schema :: "'w shell \<Rightarrow> ch_loader \<Rightarrow> 'w \<Rightarrow> ('w, load_error, unit) io" where
  "init_schema S l w =
    io_bind (run_query S l (create_database (ch_database (cl_cfg l))) w) (\<lambda>w _.
      run_queries S l (all_ddl (ch_database (cl_cfg l))) w)"

fun path_display :: "path \<Rightarrow> string" where
  "path_display [] = []"
| "path_display [c] = c"
| "path_display (c # cs) = c @ ''/'' @ path_display cs"

definition load_sql :: "string \<Rightarrow> string \<Rightarrow> path \<Rightarrow> string" where
  "load_sql db entity parquet_dir =
    ''INSERT INTO '' @ db @ ''.'' @ entity @ '' SELECT * FROM file('' @ [CHR 0x27]
      @ path_display (parquet_dir @ [entity, ''*.parquet'']) @ [CHR 0x27] @ '', Parquet)''"

definition load_entity :: "'w shell \<Rightarrow> ch_loader \<Rightarrow> path \<Rightarrow> string \<Rightarrow> 'w \<Rightarrow> ('w, load_error, unit) io" where
  "load_entity S l parquet_dir entity w = run_query S l (load_sql (ch_database (cl_cfg l)) entity parquet_dir) w"

fun load_entities :: "'w shell \<Rightarrow> ch_loader \<Rightarrow> path \<Rightarrow> string list \<Rightarrow> 'w \<Rightarrow> ('w, load_error, unit) io" where
  "load_entities S l dir [] w = (w, Inr ())"
| "load_entities S l dir (e # es) w = io_bind (load_entity S l dir e w) (\<lambda>w _. load_entities S l dir es w)"

definition load_all :: "'w shell \<Rightarrow> ch_loader \<Rightarrow> path \<Rightarrow> 'w \<Rightarrow> ('w, load_error, unit) io" where
  "load_all S l parquet_dir w = load_entities S l parquet_dir ENTITIES w"

section \<open>Columns\<close>

text \<open>The ClickHouse type of a Parquet column and the column list of a table.\<close>

fun ch_type :: "data_type \<Rightarrow> string" where
  "ch_type UInt32 = ''UInt32''"
| "ch_type UInt64 = ''UInt64''"
| "ch_type Int32 = ''Int32''"
| "ch_type UInt8 = ''UInt8''"
| "ch_type Boolean = ''UInt8''"
| "ch_type (FixedSizeBinary n) = ''FixedString('' @ show_nat n @ '')''"

fun column_list :: "schema \<Rightarrow> string" where
  "column_list [] = []"
| "column_list [f] = fst f @ '' '' @ ch_type (snd f)"
| "column_list (f # fs) = fst f @ '' '' @ ch_type (snd f) @ '', '' @ column_list fs"

definition table_ddl :: "string \<Rightarrow> string \<Rightarrow> schema \<Rightarrow> string \<Rightarrow> string" where
  "table_ddl db entity sch order_by =
    ''CREATE TABLE IF NOT EXISTS '' @ db @ ''.'' @ entity @ '' ('' @ column_list sch
      @ '') ENGINE = MergeTree PARTITION BY intDiv(height, 10000) ORDER BY '' @ order_by"

lemma show_32: "show_nat 32 = ''32''"
  by code_simp

lemma ddl_tables:
  "blocks_ddl db = table_ddl db ''blocks'' blocks_schema ''height''"
  "transactions_ddl db = table_ddl db ''transactions'' transactions_schema ''(height, tx_index)''"
  "inputs_ddl db = table_ddl db ''inputs'' inputs_schema ''(height, tx_index, input_index)''"
  "outputs_ddl db = table_ddl db ''outputs'' outputs_schema ''(height, tx_index, output_index)''"
  "spends_ddl db = table_ddl db ''spends'' spends_schema ''(height, spending_tx_index, spending_input_index)''"
  by (simp_all add: blocks_ddl_def transactions_ddl_def inputs_ddl_def outputs_ddl_def spends_ddl_def table_ddl_def
      blocks_schema_def transactions_schema_def inputs_schema_def outputs_schema_def spends_schema_def fbin32_def
      show_32)

text \<open>The tables the loader fills, with the schema the sink writes and the sorting key.\<close>

definition loaded_tables :: "(string \<times> schema \<times> string) list" where
  "loaded_tables =
    [(''blocks'', blocks_schema, ''height''),
     (''transactions'', transactions_schema, ''(height, tx_index)''),
     (''inputs'', inputs_schema, ''(height, tx_index, input_index)''),
     (''outputs'', outputs_schema, ''(height, tx_index, output_index)''),
     (''spends'', spends_schema, ''(height, spending_tx_index, spending_input_index)'')]"

lemma run_queries_append:
  "run_queries S l (xs @ ys) w = io_bind (run_queries S l xs w) (\<lambda>w _. run_queries S l ys w)"
proof (induction xs arbitrary: w)
  case (Cons x xs)
  obtain w1 r where r: "run_query S l x w = (w1, r)" by fastforce
  then show ?case using Cons by (cases r) simp_all
qed simp

lemma load_entities_queries:
  "load_entities S l dir es w = run_queries S l (map (\<lambda>e. load_sql (ch_database (cl_cfg l)) e dir) es) w"
proof (induction es arbitrary: w)
  case (Cons e es)
  obtain w1 r where r: "run_query S l (load_sql (ch_database (cl_cfg l)) e dir) w = (w1, r)" by fastforce
  then show ?case using Cons by (cases r) (simp_all add: load_entity_def)
qed simp

section \<open>Properties\<close>

text \<open>C28. What the loader asks ClickHouse to do, for every outcome of the client: creating the schema
  and loading a Parquet directory runs one fixed list of statements in order up to the first
  failure. Five of them create the tables the sink writes, each with exactly the columns of the
  Parquet schema in the same order and of the corresponding type, as the positional
  \<open>SELECT *\<close> of the load requires, and each of the five load statements fills one of these tables.\<close>
theorem loader_matches_parquet:
  "let db = ch_database (cl_cfg l) in
   io_bind (init_schema S l w) (\<lambda>w _. load_all S l dir w)
     = run_queries S l (create_database db # all_ddl db @ map (\<lambda>t. load_sql db (fst t) dir) loaded_tables) w
   \<and> map (\<lambda>(e, sch, key). table_ddl db e sch key) loaded_tables
     = [blocks_ddl db, transactions_ddl db, inputs_ddl db, outputs_ddl db, spends_ddl db]
   \<and> mset (map (\<lambda>(e, sch, key). table_ddl db e sch key) loaded_tables) \<subseteq># mset (all_ddl db)"
proof -
  define db where "db = ch_database (cl_cfg l)"
  have e: "ENTITIES = map fst loaded_tables" by (simp add: ENTITIES_def loaded_tables_def)
  obtain w1 r where r: "run_query S l (create_database db) w = (w1, r)" by fastforce
  have "io_bind (init_schema S l w) (\<lambda>w _. load_all S l dir w)
     = run_queries S l (create_database db # all_ddl db @ map (\<lambda>t. load_sql db (fst t) dir) loaded_tables) w"
    using r
    by (cases r) (simp_all add: init_schema_def load_all_def load_entities_queries e run_queries_append comp_def db_def)
  moreover have "map (\<lambda>(e, sch, key). table_ddl db e sch key) loaded_tables
      = [blocks_ddl db, transactions_ddl db, inputs_ddl db, outputs_ddl db, spends_ddl db]"
    by (simp add: loaded_tables_def ddl_tables)
  ultimately show ?thesis unfolding Let_def db_def [symmetric] by (simp add: all_ddl_def subseteq_mset_def)
qed

end
