(* ===== verification/Cli_Metrics.thy ===== *)
theory Cli_Metrics
  imports Cli_Parse Core_Float
begin

text \<open>
  \<open>bidx-cli/src/bench/metrics.rs\<close> and the memory watchdog of \<open>bidx-cli/src/bench/mod.rs\<close>: reading the
  process statistics from the texts of \<open>/proc/self/stat\<close> and \<open>/proc/self/status\<close>, measuring a stage,
  and tripping on the resident set size. The files' contents, the page size, the clock ticks per
  second and the answer of \<open>getrusage\<close> are arguments; a duration is a number of nanoseconds. Slicing
  past the end of a string panics in the source; here it is the error \<open>StatSlicePanic\<close>. Counters
  wrap as in a release build.
\<close>

section \<open>Process statistics\<close>

datatype metrics_panic = StatSlicePanic nat

record resource_sample =
  rs_rss_kb :: u64
  rs_user_jiffies :: u64
  rs_sys_jiffies :: u64

definition resource_sample_default :: resource_sample where
  "resource_sample_default = \<lparr>rs_rss_kb = 0, rs_user_jiffies = 0, rs_sys_jiffies = 0\<rparr>"

fun rfind :: "char \<Rightarrow> string \<Rightarrow> nat option" where
  "rfind c [] = None"
| "rfind c (x # s) = (case rfind c s of Some i \<Rightarrow> Some (Suc i) | None \<Rightarrow> if x = c then Some 0 else None)"

definition parse_or_zero :: "string \<Rightarrow> u64" where
  "parse_or_zero s = (case parse_u64 s of Some n \<Rightarrow> n | None \<Rightarrow> 0)"

definition resource_sample_now :: "string option \<Rightarrow> u64 \<Rightarrow> metrics_panic + resource_sample" where
  "resource_sample_now stat page_size =
    (case stat of
       None \<Rightarrow> Inr resource_sample_default
     | Some stat \<Rightarrow>
       (case rfind (CHR '')'') stat of
          None \<Rightarrow> Inr resource_sample_default
        | Some rparen \<Rightarrow>
          if length stat < rparen + 2 then Inl (StatSlicePanic (rparen + 2))
          else
            let f = split_ws (drop (rparen + 2) stat) in
            if 21 < length f then
              let pages = parse_or_zero (f ! 21) in
              Inr \<lparr>rs_rss_kb = pages * page_size div 1024, rs_user_jiffies = parse_or_zero (f ! 11),
                   rs_sys_jiffies = parse_or_zero (f ! 12)\<rparr>
            else Inr resource_sample_default))"

definition sample_cpu_jiffies :: "resource_sample \<Rightarrow> u64" where
  "sample_cpu_jiffies s = rs_user_jiffies s + rs_sys_jiffies s"

text \<open>\<open>status\<close> is the text of \<open>/proc/self/status\<close>, \<open>maxrss\<close> the answer of a \<open>getrusage\<close> that succeeds.\<close>

definition peak_rss_kb :: "string option \<Rightarrow> u64 option \<Rightarrow> u64" where
  "peak_rss_kb status maxrss =
    (case Option.bind status (\<lambda>text. find_map (meminfo_line ''VmHWM:'') (lines text)) of
       Some v \<Rightarrow> v
     | None \<Rightarrow> (case maxrss of Some n \<Rightarrow> n | None \<Rightarrow> 0))"

section \<open>Stages\<close>

record stage_timer =
  sti_start :: nat
  sti_start_res :: resource_sample

record stage_measure =
  sm_wall :: nat
  sm_cpu_jiffies :: u64
  sm_peak_rss_kb :: u64

definition stage_start :: "nat \<Rightarrow> resource_sample \<Rightarrow> stage_timer" where
  "stage_start now res = \<lparr>sti_start = now, sti_start_res = res\<rparr>"

definition stage_stop :: "stage_timer \<Rightarrow> nat \<Rightarrow> resource_sample \<Rightarrow> u64 \<Rightarrow> stage_measure" where
  "stage_stop t now end_res peak =
    \<lparr>sm_wall = now - sti_start t,
     sm_cpu_jiffies = sample_cpu_jiffies end_res - sample_cpu_jiffies (sti_start_res t),
     sm_peak_rss_kb = peak\<rparr>"

definition as_secs_f64 :: "'f f64 \<Rightarrow> nat \<Rightarrow> 'f" where
  "as_secs_f64 F ns = f_add F (f_of_int F (int (ns div 10 ^ 9)))
     (f_div F (f_of_int F (int (ns mod 10 ^ 9))) (f_of_int F (10 ^ 9)))"

definition wall_secs :: "'f f64 \<Rightarrow> stage_measure \<Rightarrow> 'f" where
  "wall_secs F m = as_secs_f64 F (sm_wall m)"

abbreviation f_micro :: "'f f64 \<Rightarrow> 'f" where
  "f_micro F \<equiv> f_div F (f_of_int F 1) (f_of_int F (10 ^ 6))"

definition cpu_utilization :: "'f f64 \<Rightarrow> int \<Rightarrow> stage_measure \<Rightarrow> 'f \<Rightarrow> 'f" where
  "cpu_utilization F hz m thread_count_hint =
    (let secs = f_max F (as_secs_f64 F (sm_wall m)) (f_micro F);
         cpu_secs = f_div F (f_of_int F (uint (sm_cpu_jiffies m))) (f_of_int F hz)
     in f_min F (f_div F (f_div F cpu_secs secs) thread_count_hint) (f_of_int F 1))"

section \<open>The memory watchdog\<close>

record oom_watchdog =
  wd_tripped :: bool
  wd_max_rss_kb :: u64
  wd_running :: bool

definition watchdog_start :: "u64 \<Rightarrow> oom_watchdog" where
  "watchdog_start limit = \<lparr>wd_tripped = False, wd_max_rss_kb = limit, wd_running = True\<rparr>"

text \<open>One round of the watchdog's thread: the sample taken after the sleep.\<close>

definition watchdog_round :: "u64 \<Rightarrow> oom_watchdog \<Rightarrow> oom_watchdog" where
  "watchdog_round rss w =
    (if wd_running w \<and> wd_max_rss_kb w < rss then w\<lparr>wd_tripped := True, wd_running := False\<rparr> else w)"

definition is_tripped :: "oom_watchdog \<Rightarrow> bool" where
  "is_tripped w = wd_tripped w"

definition tripped_error :: "oom_watchdog \<Rightarrow> string" where
  "tripped_error w = ''watchdog: RSS exceeded '' @ show_nat (unat (wd_max_rss_kb w div 1024))
     @ '' MiB '' @ map char_of [226, 128, 148 :: nat]
     @ '' reduce --threads or the decoded-file LRU (MAX_CACHED_FILES) and re-run''"

lemma watchdog_rounds:
  "fold watchdog_round samples (watchdog_start limit) =
    (if \<exists>rss\<in>set samples. limit < rss
     then \<lparr>wd_tripped = True, wd_max_rss_kb = limit, wd_running = False\<rparr> else watchdog_start limit)"
proof -
  have stopped: "fold watchdog_round xs w = w" if "\<not> wd_running w" for xs w
    using that by (induction xs) (simp_all add: watchdog_round_def)
  have first: "watchdog_round rss (watchdog_start limit) = (if limit < rss
      then \<lparr>wd_tripped = True, wd_max_rss_kb = limit, wd_running = False\<rparr> else watchdog_start limit)" for rss
    by (simp add: watchdog_round_def watchdog_start_def)
  show ?thesis by (induction samples) (auto simp: first stopped)
qed

lemma watchdog_trips_iff:
  "is_tripped (fold watchdog_round samples (watchdog_start limit)) \<longleftrightarrow> (\<exists>rss\<in>set samples. limit < rss)"
  by (simp add: watchdog_rounds is_tripped_def) (simp add: watchdog_start_def)

text \<open>A \<open>stat\<close> line whose command name holds blanks and parentheses is read from the last
  parenthesis on; a text that ends right after it panics.\<close>

lemma rfind_append: "c \<notin> set t \<Longrightarrow> rfind c (s @ c # t) = Some (length s)"
proof (induction s)
  case Nil
  then have "rfind c t = None" by (induction t) auto
  then show ?case by simp
qed simp

lemma resource_sample_panics:
  "CHR '')'' \<notin> set s \<Longrightarrow> resource_sample_now (Some (s @ '')'')) p = Inl (StatSlicePanic (length s + 2))"
  using rfind_append [of "CHR '')''" "[]" s] by (simp add: resource_sample_now_def)

end
