(* ===== verification/Cli_Bench.thy ===== *)
theory Cli_Bench
  imports Cli_Metrics Store_Open
begin

text \<open>
  \<open>bench_consume\<close> of \<open>bidx-cli/src/bench/mod.rs\<close>: the ordered consumer of the benchmark, a copy of the
  consumer of \<open>pipeline.rs\<close> with every stage behind a flag and with counters instead of the disk
  recorder, together with the configuration and the modes that set the flags. Measured durations are
  given by the environment, per height; the time inside the database (\<open>db_nanos\<close>) is left out as in
  the store. The loops interpret the reorder interface; in the mode \<open>full\<close> the consumer is proved to
  do what the production consumer does.
\<close>

section \<open>Configuration\<close>

datatype bench_mode = BmFull | BmHeaders | BmParse | BmDrain | BmUtxo | BmSink

fun bench_mode_name :: "bench_mode \<Rightarrow> string" where
  "bench_mode_name BmFull = ''full''"
| "bench_mode_name BmHeaders = ''headers''"
| "bench_mode_name BmParse = ''parse''"
| "bench_mode_name BmDrain = ''drain''"
| "bench_mode_name BmUtxo = ''utxo''"
| "bench_mode_name BmSink = ''sink''"

definition needs_utxo :: "bench_mode \<Rightarrow> bool" where
  "needs_utxo m = (m \<in> {BmFull, BmUtxo})"

definition needs_sink :: "bench_mode \<Rightarrow> bool" where
  "needs_sink m = (m \<in> {BmFull, BmSink})"

definition needs_fee_enrichment :: "bench_mode \<Rightarrow> bool" where
  "needs_fee_enrichment m = needs_utxo m"

record bench_config =
  bg_blocks_dir :: path
  bg_mode :: bench_mode
  bg_start :: u32
  bg_end :: "u32 option"
  bg_threads :: "nat option"
  bg_utxo :: "path option"
  bg_utxo_dir :: "path option"
  bg_out_dir :: "path option"
  bg_blocks_per_part :: u32
  bg_sink_batch_rows :: "nat option"
  bg_reorder_high :: "nat option"
  bg_channel_depth :: "nat option"
  bg_repeat :: u32
  bg_allow_missing_utxos :: bool
  bg_utxo_cache_mb :: nat
  bg_rocksdb_stats :: bool
  bg_csv :: "path option"

record tuning =
  tu_reorder_high :: nat
  tu_channel_depth :: nat
  tu_sink_batch_rows :: nat

definition tuning_from_cfg :: "bench_config \<Rightarrow> tuning" where
  "tuning_from_cfg cfg =
    \<lparr>tu_reorder_high = (case bg_reorder_high cfg of Some n \<Rightarrow> n | None \<Rightarrow> REORDER_HIGH),
     tu_channel_depth = (case bg_channel_depth cfg of Some n \<Rightarrow> n | None \<Rightarrow> 512),
     tu_sink_batch_rows = (case bg_sink_batch_rows cfg of Some n \<Rightarrow> n | None \<Rightarrow> batch_size sink_config_default)\<rparr>"

definition tuning_sink_config :: "tuning \<Rightarrow> sink_config" where
  "tuning_sink_config t = \<lparr>batch_size = tu_sink_batch_rows t\<rparr>"

lemma tuning_defaults:
  "bg_reorder_high cfg = None \<Longrightarrow> bg_channel_depth cfg = None \<Longrightarrow> bg_sink_batch_rows cfg = None \<Longrightarrow>
    tuning_from_cfg cfg = \<lparr>tu_reorder_high = REORDER_HIGH, tu_channel_depth = CHANNEL_DEPTH,
      tu_sink_batch_rows = batch_size sink_config_default\<rparr>"
  by (simp add: tuning_from_cfg_def CHANNEL_DEPTH_def)

section \<open>The ordered consumer\<close>

datatype bench_error =
    BenchPipe pipe_error
  | UnexpectedSkip u32
  | BenchClosedEarly u32

record ('db, 'w, 'fl) bench_env =
  be_rocks :: "'db rocks"
  be_iter :: hm_iter
  be_arrow :: "('w, 'fl) arrow"
  be_watchdog :: "(u32 \<Rightarrow> bool) option"
  be_out_dir :: path
  be_blocks_per_part :: u32
  be_end :: u32
  be_do_sink :: bool
  be_do_utxo :: bool
  be_do_fees :: bool
  be_sink_cfg :: sink_config
  be_apply_ns :: "u32 \<Rightarrow> u64"
  be_sink_ns :: "u32 \<Rightarrow> u64"

record ('db, 'w, 'fl) bench_core =
  bk_next :: u32
  bk_part :: u32
  bk_sink :: "'w parquet_sink option"
  bk_utxo :: "'db utxo_store option"
  bk_samples :: "u64 list"
  bk_blocks_done :: u64
  bk_missing :: u64
  bk_db_lookups :: u64
  bk_pending_hits :: u64
  bk_cache_hits :: u64
  bk_sink_wall :: u64
  bk_utxo_wall :: u64
  bk_progress :: u64
  bk_next_height :: u32
  bk_files :: "(u32 \<times> 'fl sink_files) list"

record ('db, 'w, 'fl) bench_consumer =
  bc_buffer :: "(u32 \<times> full_block) list"
  bc_depth :: nat
  bc_core :: "('db, 'w, 'fl) bench_core"

type_synonym ('db, 'w, 'fl, 'a) bench_io = "(('db, 'w, 'fl) bench_core, bench_error, 'a) io"

definition bench_finish ::
    "('db, 'w, 'fl) bench_env \<Rightarrow> ('db, 'w, 'fl) bench_core \<Rightarrow> ('db, 'w, 'fl, unit) bench_io" where
  "bench_finish E c =
    (case bk_sink c of
       None \<Rightarrow> (c, Inr ())
     | Some s \<Rightarrow>
       (case sink_finish (be_arrow E) s of
          Inl e \<Rightarrow> (c\<lparr>bk_sink := None\<rparr>, Inl (BenchPipe (PipeSink e)))
        | Inr fl \<Rightarrow> (c\<lparr>bk_sink := None, bk_files := bk_files c @ [(bk_part c, fl)]\<rparr>, Inr ())))"

definition bench_rotate ::
    "('db, 'w, 'fl) bench_env \<Rightarrow> ('db, 'w, 'fl) bench_core \<Rightarrow> ('db, 'w, 'fl, unit) bench_io" where
  "bench_rotate E c =
    (if bk_sink c \<noteq> None then
       let wanted_part = bk_next c div be_blocks_per_part E in
       if wanted_part \<noteq> bk_part c then
         io_bind (bench_finish E c) (\<lambda>c _.
           case sink_create (be_arrow E) (be_out_dir E) wanted_part (be_sink_cfg E) of
             Inl e \<Rightarrow> (c\<lparr>bk_part := wanted_part\<rparr>, Inl (BenchPipe (PipeSink e)))
           | Inr sink \<Rightarrow> (c\<lparr>bk_part := wanted_part, bk_sink := Some sink\<rparr>, Inr ()))
       else (c, Inr ())
     else (c, Inr ()))"

text \<open>The timed application to the store; \<open>None\<close> when the stage is off.\<close>

definition bench_apply ::
    "('db, 'w, 'fl) bench_env \<Rightarrow> full_block \<Rightarrow> ('db, 'w, 'fl) bench_core
      \<Rightarrow> ('db, 'w, 'fl, spend_result option) bench_io" where
  "bench_apply E b c =
    (if be_do_utxo E then
       let dt = be_apply_ns E (bk_next c);
           timed = (\<lambda>c. c\<lparr>bk_utxo_wall := bk_utxo_wall c + dt, bk_samples := bk_samples c @ [dt]\<rparr>)
       in case bk_utxo c of
            None \<Rightarrow> (timed c, Inr None)
          | Some st \<Rightarrow>
            (case apply_block (be_rocks E) (be_iter E) (bk_next c) (fb_txs b) (fb_inputs b) (fb_outputs b) st of
               Inl e \<Rightarrow> (c, Inl (BenchPipe (PipeUtxo e)))
             | Inr (res, st) \<Rightarrow> (timed (c\<lparr>bk_utxo := Some st\<rparr>), Inr (Some res)))
     else (c, Inr None))"

text \<open>The counters and the fees written back into the rows.\<close>

definition bench_enrich ::
    "('db, 'w, 'fl) bench_env \<Rightarrow> full_block \<Rightarrow> spend_result option \<Rightarrow> ('db, 'w, 'fl) bench_core
      \<Rightarrow> ('db, 'w, 'fl, full_block) bench_io" where
  "bench_enrich E b res c =
    (case res of
       None \<Rightarrow> (c, Inr b)
     | Some res \<Rightarrow>
       let c = c\<lparr>bk_missing := bk_missing c + sr_missing res, bk_db_lookups := bk_db_lookups c + sr_db_lookups res,
             bk_pending_hits := bk_pending_hits c + sr_pending_hits res,
             bk_cache_hits := bk_cache_hits c + sr_cache_hits res\<rparr>
       in if be_do_fees E then (c, map_err BenchPipe (enrich_block b (sr_fees res))) else (c, Inr b))"

definition bench_push ::
    "('db, 'w, 'fl) bench_env \<Rightarrow> full_block \<Rightarrow> spend_result option \<Rightarrow> ('db, 'w, 'fl) bench_core
      \<Rightarrow> ('db, 'w, 'fl, unit) bench_io" where
  "bench_push E b res c =
    (case bk_sink c of
       None \<Rightarrow> (c, Inr ())
     | Some sink \<Rightarrow>
       (case push_rows (be_arrow E) b (case res of None \<Rightarrow> [] | Some res \<Rightarrow> sr_spends res) sink of
          Inl e \<Rightarrow> (c, Inl (BenchPipe (PipeSink e)))
        | Inr sink \<Rightarrow> (c\<lparr>bk_sink := Some sink, bk_sink_wall := bk_sink_wall c + be_sink_ns E (bk_next c)\<rparr>, Inr ())))"

definition bench_advance ::
    "('db, 'w, 'fl) bench_env \<Rightarrow> ('db, 'w, 'fl) bench_core \<Rightarrow> ('db, 'w, 'fl, bool) bench_io" where
  "bench_advance E c =
    (let c = c\<lparr>bk_blocks_done := bk_blocks_done c + 1, bk_progress := bk_progress c + 1,
               bk_next := bk_next c + 1, bk_next_height := bk_next c + 1\<rparr>
     in if be_end E \<le> bk_next c then io_bind (bench_finish E c) (\<lambda>c _. (c, Inr True)) else (c, Inr False))"

definition bench_tripped :: "('db, 'w, 'fl) bench_env \<Rightarrow> u32 \<Rightarrow> bool" where
  "bench_tripped E h = (case be_watchdog E of None \<Rightarrow> False | Some w \<Rightarrow> w h)"

definition bench_process ::
    "('db, 'w, 'fl) bench_env \<Rightarrow> full_block \<Rightarrow> ('db, 'w, 'fl) bench_core \<Rightarrow> ('db, 'w, 'fl, bool) bench_io" where
  "bench_process E b c =
    (if bench_tripped E (bk_next c) then (c, Inl (BenchPipe WatchdogTripped))
     else io_bind (bench_rotate E c) (\<lambda>c _.
          io_bind (bench_apply E b c) (\<lambda>c res.
          io_bind (bench_enrich E b res c) (\<lambda>c b.
          io_bind (bench_push E b res c) (\<lambda>c _. bench_advance E c)))))"

function bench_drain ::
    "('db, 'w, 'fl) bench_env \<Rightarrow> ('db, 'w, 'fl) bench_consumer
      \<Rightarrow> (('db, 'w, 'fl) bench_consumer, bench_error, bool) io" where
  "bench_drain E s =
    (let next_h = bk_next (bc_core s) in
     case map_of (bc_buffer s) next_h of
       None \<Rightarrow> (s, Inr False)
     | Some b \<Rightarrow>
         let s = s\<lparr>bc_buffer := AList.delete next_h (bc_buffer s), bc_depth := bc_depth s - 1\<rparr> in
         (case bench_process E b (bc_core s) of
            (c, Inl e) \<Rightarrow> (s\<lparr>bc_core := c\<rparr>, Inl e)
          | (c, Inr True) \<Rightarrow> (s\<lparr>bc_core := c\<rparr>, Inr True)
          | (c, Inr False) \<Rightarrow> bench_drain E (s\<lparr>bc_core := c\<rparr>)))"
  by auto
termination
  by (relation "measure (\<lambda>(E, s). length (bc_buffer s))") (auto simp: length_delete_less)

declare bench_drain.simps [simp del]

definition bench_put :: "u32 \<Rightarrow> full_block \<Rightarrow> ('db, 'w, 'fl) bench_consumer \<Rightarrow> ('db, 'w, 'fl) bench_consumer" where
  "bench_put h b s = s\<lparr>bc_buffer := AList.update h b (bc_buffer s), bc_depth := bc_depth s + 1\<rparr>"

fun bench_loop ::
    "('db, 'w, 'fl) bench_env \<Rightarrow> work_item list \<Rightarrow> ('db, 'w, 'fl) bench_consumer
      \<Rightarrow> (('db, 'w, 'fl) bench_consumer, bench_error, unit) io" where
  "bench_loop E [] s =
    (case io_bind (bench_finish E (bc_core s)) (\<lambda>c _.
            if bk_next c < be_end E then (c, Inl (BenchClosedEarly (bk_next c))) else (c, Inr ())) of
       (c, r) \<Rightarrow> (s\<lparr>bc_core := c\<rparr>, r))"
| "bench_loop E (Skipped h # xs) s = (s, Inl (UnexpectedSkip h))"
| "bench_loop E (Block h b # xs) s =
    io_bind (bench_drain E (bench_put h b s)) (\<lambda>s returned. if returned then (s, Inr ()) else bench_loop E xs s)"

definition bench_init ::
    "('db, 'w, 'fl) bench_env \<Rightarrow> u32 \<Rightarrow> 'db utxo_store option \<Rightarrow> bench_error + ('db, 'w, 'fl) bench_consumer" where
  "bench_init E start utxo =
    (if be_blocks_per_part E = 0 then Inl (BenchPipe DivideByZero)
     else
       let part_id = start div be_blocks_per_part E in
       res_bind (if be_do_sink E
                 then map_err (BenchPipe \<circ> PipeSink)
                   (res_bind (sink_create (be_arrow E) (be_out_dir E) part_id (be_sink_cfg E)) (\<lambda>s. Inr (Some s)))
                 else Inr None) (\<lambda>sink.
       Inr \<lparr>bc_buffer = [], bc_depth = 0, bc_core = \<lparr>bk_next = start, bk_part = part_id, bk_sink = sink,
            bk_utxo = utxo, bk_samples = [], bk_blocks_done = 0, bk_missing = 0, bk_db_lookups = 0,
            bk_pending_hits = 0, bk_cache_hits = 0, bk_sink_wall = 0, bk_utxo_wall = 0, bk_progress = 0,
            bk_next_height = start, bk_files = []\<rparr>\<rparr>))"

definition bench_consume ::
    "('db, 'w, 'fl) bench_env \<Rightarrow> u32 \<Rightarrow> work_item list \<Rightarrow> 'db utxo_store option
      \<Rightarrow> bench_error + ('db, 'w, 'fl, unit) bench_io" where
  "bench_consume E start items utxo =
    res_bind (bench_init E start utxo) (\<lambda>s0.
      case bench_loop E items s0 of (s, r) \<Rightarrow> Inr (bc_core s, r))"

section \<open>Order of arrival\<close>

lemma bench_finish_next: "bench_finish E c = (c', r) \<Longrightarrow> bk_next c' = bk_next c"
  by (auto simp: bench_finish_def split: sum.splits option.splits)

lemma bench_rotate_next: "bench_rotate E c = (c', Inr ()) \<Longrightarrow> bk_next c' = bk_next c"
  by (cases "sink_create (be_arrow E) (be_out_dir E) (bk_next c div be_blocks_per_part E) (be_sink_cfg E)")
    (auto simp: bench_rotate_def Let_def io_bind_Inr_iff dest!: bench_finish_next split: if_splits)

lemma bench_apply_next: "bench_apply E b c = (c', Inr r) \<Longrightarrow> bk_next c' = bk_next c"
  by (auto simp: bench_apply_def Let_def split: if_splits option.splits sum.splits prod.splits)

lemma bench_enrich_next: "bench_enrich E b res c = (c', Inr r) \<Longrightarrow> bk_next c' = bk_next c"
  by (auto simp: bench_enrich_def Let_def split: if_splits option.splits)

lemma bench_push_next: "bench_push E b res c = (c', Inr r) \<Longrightarrow> bk_next c' = bk_next c"
  by (auto simp: bench_push_def split: option.splits sum.splits)

lemma bench_advance_next:
  "bench_advance E c = (c', Inr False) \<Longrightarrow> bk_next c' = bk_next c + 1 \<and> bk_next c' < be_end E"
  by (auto simp: bench_advance_def Let_def io_bind_Inr_iff split: if_splits)

lemma bench_process_next:
  "bench_process E b c = (c', Inr False) \<Longrightarrow> bk_next c' = bk_next c + 1 \<and> bk_next c' < be_end E"
  by (auto simp: bench_process_def io_bind_Inr_iff split: if_splits
      dest!: bench_advance_next bench_push_next bench_enrich_next bench_apply_next bench_rotate_next)

lemma bench_drain_stop: "map_of (bc_buffer s) (bk_next (bc_core s)) = None \<Longrightarrow> bench_drain E s = (s, Inr False)"
  by (subst bench_drain.simps) (simp add: Let_def)

lemma bench_drain_step:
  assumes "map_of (bc_buffer s) (bk_next (bc_core s)) = Some b" and "bench_process E b (bc_core s) = (c, r)"
  shows "\<exists>s'. bc_core s' = c \<and> map_of (bc_buffer s') = (map_of (bc_buffer s))(bk_next (bc_core s) := None)
    \<and> bench_drain E s = (if r = Inr False then bench_drain E s' else (s', r))"
proof -
  let ?s = "s\<lparr>bc_buffer := AList.delete (bk_next (bc_core s)) (bc_buffer s), bc_depth := bc_depth s - 1, bc_core := c\<rparr>"
  have "bench_drain E s = (if r = Inr False then bench_drain E ?s else (?s, r))"
    using assms by (subst bench_drain.simps) (simp add: Let_def split: sum.splits bool.splits)
  then show ?thesis by (intro exI [of _ ?s]) (simp add: delete_conv')
qed

interpretation bench_order: reorder "bench_process E" bk_next "be_end E" bc_core "\<lambda>s. map_of (bc_buffer s)"
  "\<lambda>s. True" bench_put "bench_drain E" "\<lambda>items. bench_loop E (map (\<lambda>(h, b). Block h b) items)" for E
proof
  show "map_of (bc_buffer s) (bk_next (bc_core s)) = Some b \<Longrightarrow> bench_process E b (bc_core s) = (c, r) \<Longrightarrow>
      \<exists>s'. bc_core s' = c \<and> map_of (bc_buffer s') = (map_of (bc_buffer s))(bk_next (bc_core s) := None)
        \<and> (True \<longrightarrow> True) \<and> bench_drain E s = (if r = Inr False then bench_drain E s' else (s', r))" for s b c r
    using bench_drain_step [of s b E c r] by auto
qed (use bench_process_next in \<open>simp_all add: bench_drain_stop bench_put_def update_conv' finite_dom_map_of\<close>)

lemma bench_any_items:
  assumes "unat start + length bs = unat (be_end E)" and "bs \<noteq> []"
    and "set items = {Block (start + of_nat i) (bs ! i) | i. i < length bs}"
  shows "bench_consume E start items utxo
    = res_bind (bench_init E start utxo) (\<lambda>s0. Inr (ref_run (bench_process E) bs (bc_core s0)))"
proof (cases "bench_init E start utxo")
  case (Inl e)
  then show ?thesis by (simp add: bench_consume_def)
next
  case (Inr s0)
  then have s0: "map_of (bc_buffer s0) = Map.empty" "bk_next (bc_core s0) = start"
    by (auto simp: bench_init_def res_simps Let_def split: if_splits)
  obtain xs where items: "items = map (\<lambda>(h, b). Block h b) xs"
    and xs: "set xs = {(start + of_nat i, bs ! i) | i. i < length bs}"
    by (rule block_items [OF assms(3)])
  have "heights_ok (be_end E) start (length bs)" using assms(1) by (simp add: heights_ok_def)
  from bench_order.loop_delivers [OF this assms(2) _ s0 xs] show ?thesis
    by (auto simp: bench_consume_def Inr items split: prod.splits)
qed

section \<open>The full mode and production\<close>

text \<open>The consumer of a benchmark in the mode \<open>full\<close> with the production batch size, over the environment of a
  production consumer.\<close>

definition full_bench ::
    "('db, 'w, 'fl, 'h) pipe_env \<Rightarrow> (u32 \<Rightarrow> u64) \<Rightarrow> (u32 \<Rightarrow> u64) \<Rightarrow> ('db, 'w, 'fl) bench_env" where
  "full_bench E apply_ns sink_ns = \<lparr>be_rocks = pe_rocks E, be_iter = pe_iter E, be_arrow = pe_arrow E,
     be_watchdog = pe_watchdog E, be_out_dir = pe_out_dir E, be_blocks_per_part = pe_blocks_per_part E,
     be_end = pe_end E, be_do_sink = needs_sink BmFull, be_do_utxo = needs_utxo BmFull,
     be_do_fees = needs_fee_enrichment BmFull, be_sink_cfg = sink_config_default,
     be_apply_ns = apply_ns, be_sink_ns = sink_ns\<rparr>"

text \<open>Equal in what both consumers keep; \<open>same_sink\<close> while the sink is open.\<close>

definition same_run :: "('db, 'w, 'fl, 'h) core \<Rightarrow> ('db, 'w, 'fl) bench_core \<Rightarrow> bool" where
  "same_run c k \<longleftrightarrow> bk_next k = k_next c \<and> bk_part k = k_part c \<and> bk_utxo k = Some (k_utxo c)
     \<and> bk_missing k = k_missing c \<and> bk_blocks_done k = k_progress c \<and> bk_files k = k_files c"

definition same_sink :: "('db, 'w, 'fl, 'h) core \<Rightarrow> ('db, 'w, 'fl) bench_core \<Rightarrow> bool" where
  "same_sink c k \<longleftrightarrow> bk_sink k = Some (k_sink c)"

lemma full_bench_flags [simp]:
  "be_rocks (full_bench E a s) = pe_rocks E" "be_iter (full_bench E a s) = pe_iter E"
  "be_arrow (full_bench E a s) = pe_arrow E" "be_watchdog (full_bench E a s) = pe_watchdog E"
  "be_out_dir (full_bench E a s) = pe_out_dir E" "be_blocks_per_part (full_bench E a s) = pe_blocks_per_part E"
  "be_end (full_bench E a s) = pe_end E" "be_do_sink (full_bench E a s)" "be_do_utxo (full_bench E a s)"
  "be_do_fees (full_bench E a s)" "be_sink_cfg (full_bench E a s) = sink_config_default"
  by (simp_all add: full_bench_def needs_sink_def needs_utxo_def needs_fee_enrichment_def)

lemma finish_same:
  assumes "same_run c k" "same_sink c k" "finish_sink E c = (c', Inr ())"
  shows "\<exists>k'. bench_finish (full_bench E a s) k = (k', Inr ()) \<and> same_run c' k' \<and> bk_samples k' = bk_samples k"
  using assms by (auto simp: finish_sink_def bench_finish_def same_run_def same_sink_def split: sum.splits)

lemma rotate_same:
  assumes "same_run c k" "same_sink c k" "rotate E c = (c', Inr ())"
  shows "\<exists>k'. bench_rotate (full_bench E a s) k = (k', Inr ()) \<and> same_run c' k' \<and> same_sink c' k'
    \<and> bk_samples k' = bk_samples k"
proof (cases "k_next c div pe_blocks_per_part E = k_part c")
  case True
  then show ?thesis using assms by (auto simp: rotate_def bench_rotate_def same_run_def Let_def)
next
  case False
  then obtain c1 sink where f: "finish_sink E c = (c1, Inr ())"
    and sink: "sink_create (pe_arrow E) (pe_out_dir E) (k_next c div pe_blocks_per_part E) sink_config_default = Inr sink"
    and c': "c' = c1\<lparr>k_part := k_next c div pe_blocks_per_part E, k_sink := sink\<rparr>"
    using assms(3)
    by (cases "sink_create (pe_arrow E) (pe_out_dir E) (k_next c div pe_blocks_per_part E) sink_config_default")
      (auto simp: rotate_def Let_def io_bind_Inr_iff)
  obtain k1 where "bench_finish (full_bench E a s) k = (k1, Inr ())" "same_run c1 k1" "bk_samples k1 = bk_samples k"
    using finish_same [OF assms(1,2) f] by blast
  then show ?thesis
    using False sink c' assms(1,2) by (auto simp: bench_rotate_def same_run_def same_sink_def Let_def)
qed

lemma index_same:
  assumes "same_run c k" "same_sink c k" "index_block E b c = (c', Inr ())"
  shows "\<exists>k1 res k2 b' k'. bench_apply (full_bench E a s) b k = (k1, Inr res)
    \<and> bench_enrich (full_bench E a s) b res k1 = (k2, Inr b') \<and> bench_push (full_bench E a s) b' res k2 = (k', Inr ())
    \<and> same_run c' k' \<and> same_sink c' k' \<and> length (bk_samples k') = Suc (length (bk_samples k))"
proof -
  obtain res st b' sink where "apply_block (pe_rocks E) (pe_iter E) (k_next c) (fb_txs b) (fb_inputs b) (fb_outputs b) (k_utxo c)
      = Inr (res, st)" "enrich_block b (sr_fees res) = Inr b'" "push_rows (pe_arrow E) b' (sr_spends res) (k_sink c) = Inr sink"
    "c' = c\<lparr>k_utxo := st, k_missing := k_missing c + sr_missing res, k_sink := sink\<rparr>"
    using assms(3) by (auto simp: index_block_def Let_def split: sum.splits prod.splits)
  then show ?thesis
    using assms(1,2) by (simp add: bench_apply_def bench_enrich_def bench_push_def same_run_def same_sink_def Let_def)
qed

lemma advance_same:
  assumes "same_run c k" "same_sink c k" "io_bind (advance E c) (\<lambda>c _. check_end E c) = (c', Inr r)"
  shows "\<exists>k'. bench_advance (full_bench E a s) k = (k', Inr r) \<and> same_run c' k' \<and> (\<not> r \<longrightarrow> same_sink c' k')
    \<and> bk_samples k' = bk_samples k"
proof -
  obtain c1 where adv: "advance E c = (c1, Inr ())" and ce: "check_end E c1 = (c', Inr r)"
    using assms(3) by (auto simp: io_bind_Inr_iff)
  let ?k = "k\<lparr>bk_blocks_done := bk_blocks_done k + 1, bk_progress := bk_progress k + 1,
     bk_next := bk_next k + 1, bk_next_height := bk_next k + 1\<rparr>"
  have same: "same_run c1 ?k" "same_sink c1 ?k"
    using adv assms(1,2) by (auto simp: advance_def same_run_def same_sink_def Let_def split: prod.splits sum.splits)
  show ?thesis
  proof (cases "pe_end E \<le> k_next c1")
    case True
    then have f: "finish_sink E c1 = (c', Inr ())" and r: r using ce by (auto simp: check_end_def io_bind_Inr_iff)
    obtain k' where k': "bench_finish (full_bench E a s) ?k = (k', Inr ())" "same_run c' k'"
      "bk_samples k' = bk_samples ?k" using finish_same [OF same f] by blast
    have "pe_end E \<le> bk_next k + 1" using True same(1) by (simp add: same_run_def)
    then show ?thesis using k' r by (simp add: bench_advance_def Let_def)
  next
    case False
    then have "c' = c1" "\<not> r" using ce by (auto simp: check_end_def)
    moreover have "\<not> pe_end E \<le> bk_next k + 1" using False same(1) by (simp add: same_run_def)
    ultimately show ?thesis using same by (simp add: bench_advance_def Let_def)
  qed
qed

lemma process_same:
  assumes "same_run c k" "same_sink c k" "process E b c = (c', Inr r)"
  shows "\<exists>k'. bench_process (full_bench E a s) b k = (k', Inr r) \<and> same_run c' k' \<and> (\<not> r \<longrightarrow> same_sink c' k')
    \<and> length (bk_samples k') = Suc (length (bk_samples k))"
proof -
  obtain c1 c2 where nt: "\<not> tripped E (k_next c)" and st: "rotate E c = (c1, Inr ())" "index_block E b c1 = (c2, Inr ())"
    and adv: "io_bind (advance E c2) (\<lambda>c _. check_end E c) = (c', Inr r)"
    using assms(3) by (auto simp: process_def io_bind_Inr_iff split: if_splits)
  obtain k1 where k1: "bench_rotate (full_bench E a s) k = (k1, Inr ())" "same_run c1 k1" "same_sink c1 k1"
    "bk_samples k1 = bk_samples k" using rotate_same [OF assms(1,2) st(1)] by blast
  obtain k2 res k3 b' k4 where k4: "bench_apply (full_bench E a s) b k1 = (k2, Inr res)"
    "bench_enrich (full_bench E a s) b res k2 = (k3, Inr b')" "bench_push (full_bench E a s) b' res k3 = (k4, Inr ())"
    "same_run c2 k4" "same_sink c2 k4" "length (bk_samples k4) = Suc (length (bk_samples k1))"
    using index_same [OF k1(2,3) st(2)] by blast
  obtain k' where "bench_advance (full_bench E a s) k4 = (k', Inr r)" "same_run c' k'" "\<not> r \<longrightarrow> same_sink c' k'"
    "bk_samples k' = bk_samples k4" using advance_same [OF k4(4,5) adv] by blast
  moreover have "\<not> bench_tripped (full_bench E a s) (bk_next k)"
    using nt assms(1) by (simp add: tripped_def bench_tripped_def same_run_def)
  ultimately show ?thesis using k1 k4 by (simp add: bench_process_def)
qed

lemma ref_run_same:
  "same_run c k \<Longrightarrow> same_sink c k \<Longrightarrow> seq_blocks E bs c = (c', Inr ()) \<Longrightarrow>
    \<exists>k'. ref_run (bench_process (full_bench E a s)) bs k = (k', Inr ()) \<and> same_run c' k'"
proof (induction bs arbitrary: c k)
  case Nil
  then show ?case by simp
next
  case (Cons b bs)
  then obtain c1 r where p: "process E b c = (c1, Inr r)"
    and rest: "(if r then (c1, Inr ()) else seq_blocks E bs c1) = (c', Inr ())"
    by (auto simp: io_bind_Inr_iff)
  obtain k1 where k1: "bench_process (full_bench E a s) b k = (k1, Inr r)" "same_run c1 k1" "\<not> r \<longrightarrow> same_sink c1 k1"
    using process_same [OF Cons.prems(1,2) p] by blast
  show ?case
  proof (cases r)
    case True
    then show ?thesis using k1 rest by simp
  next
    case False
    then show ?thesis using Cons.IH [of c1 k1] k1 rest by simp
  qed
qed

section \<open>Properties\<close>

text \<open>C29. In the mode \<open>full\<close> the consumer of the benchmark does what the production consumer does: when a
  production run over the blocks succeeds, the benchmark succeeds on the same blocks, in whatever order they
  arrive, and leaves the same UTXO store, the same Parquet files and the same counts.\<close>
theorem bench_full_is_production:
  assumes "unat start + length bs = unat (pe_end E)" and "bs \<noteq> []"
    and "set items = {Block (start + of_nat i) (bs ! i) | i. i < length bs}" and "set items' = set items"
    and "consume_ordered E start items st host = Inr (c, Inr ())"
  shows "\<exists>k. bench_consume (full_bench E a s) start items' (Some st) = Inr (k, Inr ())
    \<and> bk_utxo k = Some (k_utxo c) \<and> bk_files k = k_files c \<and> bk_missing k = k_missing c
    \<and> bk_blocks_done k = k_progress c"
proof -
  let ?B = "full_bench E a s"
  obtain s0 where s0: "consumer_init E start st host = Inr s0" and run: "seq_blocks E bs (cs_core s0) = (c, Inr ())"
    using assms(5) consume_any_items [OF assms(1-3), of st host] by (cases "consumer_init E start st host") auto
  obtain k0 where k0: "bench_init ?B start (Some st) = Inr k0" "same_run (cs_core s0) (bc_core k0)"
    "same_sink (cs_core s0) (bc_core k0)"
    using s0 by (auto simp: consumer_init_def bench_init_def same_run_def same_sink_def res_simps Let_def split: if_splits)
  obtain k where "ref_run (bench_process ?B) bs (bc_core k0) = (k, Inr ())" "same_run c k"
    using ref_run_same [OF k0(2,3) run] by blast
  then show ?thesis
    using bench_any_items [of start bs ?B items' "Some st"] assms(1-4) k0(1) by (simp add: same_run_def)
qed

theorem bench_full_is_production_witness:
  "\<exists>c k. consume_ordered (ex_env\<lparr>pe_end := 1\<rparr>) 0 [Block 0 ex_empty_block] ex_store ex_host = Inr (c, Inr ())
    \<and> bench_consume (full_bench (ex_env\<lparr>pe_end := 1\<rparr>) (\<lambda>_. 5) (\<lambda>_. 7)) 0
        [Block 0 ex_empty_block, Block 0 ex_empty_block] (Some ex_store) = Inr (k, Inr ())
    \<and> bk_files k = k_files c \<and> bk_utxo k = Some (k_utxo c)"
proof -
  let ?E = "ex_env\<lparr>pe_end := 1\<rparr>" and ?bs = "[ex_empty_block]"
  have len: "unat (0 :: u32) + length ?bs = unat (pe_end ?E)" "?bs \<noteq> []" by simp_all
  have one: "set [Block 0 ex_empty_block] = {Block (0 + of_nat i) (?bs ! i) | i. i < length ?bs}"
    "set [Block 0 ex_empty_block, Block 0 ex_empty_block] = set [Block 0 ex_empty_block]" by auto
  obtain s0 where s0: "consumer_init ?E 0 ex_store ex_host = Inr s0" using ex_init_one by blast
  obtain c where "seq_blocks ?E ?bs (cs_core s0) = (c, Inr ())"
    using ex_seq_one [of ex_empty_block "fst ex_host" "snd ex_host" s0] s0
    by (auto simp: ex_empty_block_def ex_block_row_def)
  then have run: "consume_ordered ?E 0 [Block 0 ex_empty_block] ex_store ex_host = Inr (c, Inr ())"
    using consume_any_items [OF len one(1), of ex_store ex_host] s0 by simp
  from bench_full_is_production [OF len one run] run show ?thesis by blast
qed

end
