(* ===== verification/Cli_Trial.thy ===== *)
theory Cli_Trial
  imports Cli_Bench "HOL-Library.List_Lexorder" "HOL-Library.Char_ord"
begin

text \<open>
  \<open>run_bench\<close> of \<open>bidx-cli/src/bench/mod.rs\<close>: a benchmark trial, its report, the latency distribution and
  the run over several trials. What is measured (durations, CPU ticks, memory) is an argument, the
  record \<open>trial_meas\<close>; floating-point arithmetic is the parameter of \<open>Core_Float\<close>. The result of the header
  pass and the order in which the parse workers finish are arguments as in \<open>run_parse\<close>. The JSON
  encoder, removing a directory and writing a file are parameters; printing is left out.
\<close>

section \<open>Latency\<close>

record 'f latency_report =
  lr_n :: u64
  lr_p50_ms :: 'f
  lr_p99_ms :: 'f
  lr_max_ms :: 'f
  lr_sum_secs :: 'f

definition latency_default :: "'f f64 \<Rightarrow> 'f latency_report" where
  "latency_default F = \<lparr>lr_n = 0, lr_p50_ms = f_zero F, lr_p99_ms = f_zero F, lr_max_ms = f_zero F, lr_sum_secs = f_zero F\<rparr>"

definition as_ms :: "'f f64 \<Rightarrow> u64 \<Rightarrow> 'f" where
  "as_ms F ns = f_div F (f_of_int F (uint ns)) (f_of_int F (10 ^ 6))"

definition pick_index :: "'f f64 \<Rightarrow> nat \<Rightarrow> 'f \<Rightarrow> nat" where
  "pick_index F n q = unat (f_to_u64 F (f_round F (f_mul F (f_sub F (f_of_int F (int n)) (f_of_int F 1)) q)))"

text \<open>\<open>Inl i\<close>: the index \<open>i\<close> is out of bounds, a panic.\<close>

definition pick :: "'f f64 \<Rightarrow> u64 list \<Rightarrow> int \<Rightarrow> nat + 'f" where
  "pick F samples percent =
    (let idx = pick_index F (length samples) (f_div F (f_of_int F percent) (f_of_int F 100))
     in if idx < length samples then Inr (as_ms F (samples ! idx)) else Inl idx)"

definition latency_from_samples :: "'f f64 \<Rightarrow> u64 list \<Rightarrow> nat + 'f latency_report" where
  "latency_from_samples F samples =
    (if samples = [] then Inr (latency_default F)
     else
       let samples = sort samples in
       res_bind (pick F samples 50) (\<lambda>p50.
       res_bind (pick F samples 99) (\<lambda>p99.
       Inr \<lparr>lr_n = of_nat (length samples), lr_p50_ms = p50, lr_p99_ms = p99,
            lr_max_ms = as_ms F (samples ! (length samples - 1)),
            lr_sum_secs = f_div F (f_of_int F (uint (sum_list samples))) (f_of_int F (10 ^ 9))\<rparr>)))"

section \<open>Reports\<close>

record 'f stage_report =
  sg_name :: string
  sg_wall_secs :: 'f
  sg_cpu_util :: 'f
  sg_peak_rss_mb :: 'f

record 'f trial_report =
  tr_trial :: u32
  tr_mode :: bench_mode
  tr_blocks :: u64
  tr_blocks_per_sec :: 'f
  tr_blocks_per_sec_ex_header :: 'f
  tr_user_cpu_secs :: 'f
  tr_peak_rss_mb :: 'f
  tr_missing_utxos :: u64
  tr_db_lookups :: u64
  tr_pending_hits :: u64
  tr_cache_hits :: u64
  tr_stages :: "'f stage_report list"
  tr_parse_latency :: "'f latency_report"
  tr_utxo_latency :: "'f latency_report"
  tr_rocksdb :: "(string \<times> string) list"

record trial_meas =
  tm_header :: stage_measure
  tm_pipeline_ns :: nat
  tm_cpu_start :: u64
  tm_cpu_end :: u64
  tm_peak_stage_kb :: u64
  tm_peak_report_kb :: u64
  tm_parse_ns :: "u32 \<Rightarrow> u64"
  tm_apply_ns :: "u32 \<Rightarrow> u64"
  tm_sink_ns :: "u32 \<Rightarrow> u64"
  tm_hz :: int
  tm_cpus :: "nat option"

definition num_cpus :: "nat option \<Rightarrow> nat" where
  "num_cpus cpus = (case cpus of Some n \<Rightarrow> n | None \<Rightarrow> 4)"

definition jiffies_to_secs :: "'f f64 \<Rightarrow> int \<Rightarrow> u64 \<Rightarrow> 'f" where
  "jiffies_to_secs F hz jiffies = f_div F (f_of_int F (uint jiffies)) (f_of_int F hz)"

definition kb_to_mb :: "'f f64 \<Rightarrow> u64 \<Rightarrow> 'f" where
  "kb_to_mb F kb = f_div F (f_of_int F (uint kb)) (f_of_int F 1024)"

definition report_stage ::
    "'f f64 \<Rightarrow> int \<Rightarrow> nat option \<Rightarrow> string \<Rightarrow> stage_measure \<Rightarrow> nat option \<Rightarrow> 'f stage_report" where
  "report_stage F hz cpus name m threads =
    \<lparr>sg_name = name, sg_wall_secs = wall_secs F m,
     sg_cpu_util = cpu_utilization F hz m
       (f_of_int F (int (case threads of Some t \<Rightarrow> t | None \<Rightarrow> num_cpus cpus))),
     sg_peak_rss_mb = kb_to_mb F (sm_peak_rss_kb m)\<rparr>"

text \<open>A stage known by its duration only.\<close>

definition wall_stage :: "'f f64 \<Rightarrow> string \<Rightarrow> u64 \<Rightarrow> 'f stage_report" where
  "wall_stage F name ns = \<lparr>sg_name = name, sg_wall_secs = as_secs_f64 F (unat ns), sg_cpu_util = f_zero F,
     sg_peak_rss_mb = f_zero F\<rparr>"

text \<open>The name of the parse stage holds the Greek capital sigma (bytes CE A3).\<close>

definition PARSE_STAGE :: string where
  "PARSE_STAGE = ''parse ('' @ map char_of [206, 163 :: nat] @ '' worker CPU-ish)''"

definition headers_report ::
    "'f f64 \<Rightarrow> trial_meas \<Rightarrow> bench_config \<Rightarrow> u32 \<Rightarrow> chain_index \<Rightarrow> 'f trial_report" where
  "headers_report F M cfg trial index =
    (let tip = (case tip_height index of Some t \<Rightarrow> t | None \<Rightarrow> 0);
         rate = f_div F (f_add F (f_of_int F (uint tip)) (f_of_int F 1))
                  (f_max F (wall_secs F (tm_header M)) (f_micro F))
     in \<lparr>tr_trial = trial, tr_mode = bg_mode cfg, tr_blocks = ucast tip + 1, tr_blocks_per_sec = rate,
         tr_blocks_per_sec_ex_header = rate,
         tr_user_cpu_secs = jiffies_to_secs F (tm_hz M) (sm_cpu_jiffies (tm_header M)),
         tr_peak_rss_mb = kb_to_mb F (sm_peak_rss_kb (tm_header M)), tr_missing_utxos = 0, tr_db_lookups = 0,
         tr_pending_hits = 0, tr_cache_hits = 0,
         tr_stages = [report_stage F (tm_hz M) (tm_cpus M) ''header_pass'' (tm_header M) (bg_threads cfg)],
         tr_parse_latency = latency_default F, tr_utxo_latency = latency_default F, tr_rocksdb = []\<rparr>)"

text \<open>The stages listed after the header pass.\<close>

definition pipeline_stages ::
    "'f f64 \<Rightarrow> trial_meas \<Rightarrow> bench_config \<Rightarrow> u64 \<Rightarrow> ('db, 'w, 'fl) bench_core \<Rightarrow> 'f stage_report list" where
  "pipeline_stages F M cfg parse_ns k =
    (let pipeline_secs = as_secs_f64 F (tm_pipeline_ns M) in
     [wall_stage F PARSE_STAGE parse_ns]
     @ (if needs_utxo (bg_mode cfg) then [wall_stage F ''utxo_apply (sequential)'' (bk_utxo_wall k)] else [])
     @ (if needs_sink (bg_mode cfg) then [wall_stage F ''parquet_sink'' (bk_sink_wall k)] else [])
     @ [\<lparr>sg_name = ''pipeline_wall_total'', sg_wall_secs = pipeline_secs,
         sg_cpu_util = f_div F (f_div F
             (jiffies_to_secs F (tm_hz M) (saturating_sub (tm_cpu_end M) (tm_cpu_start M)))
             (f_max F pipeline_secs (f_micro F)))
           (f_of_int F (int (case bg_threads cfg of Some t \<Rightarrow> t | None \<Rightarrow> num_cpus (tm_cpus M)))),
         sg_peak_rss_mb = kb_to_mb F (tm_peak_stage_kb M)\<rparr>])"

fun join_with :: "string \<Rightarrow> string list \<Rightarrow> string" where
  "join_with sep [] = []"
| "join_with sep [x] = x"
| "join_with sep (x # y # xs) = x @ sep @ join_with sep (y # xs)"

definition rocksdb_report :: "'db rocks_admin \<Rightarrow> bench_config \<Rightarrow> 'db utxo_store option \<Rightarrow> (string \<times> string) list" where
  "rocksdb_report A cfg utxo =
    (if bg_rocksdb_stats cfg then
       (case utxo of
          None \<Rightarrow> []
        | Some u \<Rightarrow>
          let stalls = stall_report A u in
          perf_properties A u @ [(''stall_lines'', if stalls = [] then ''none'' else join_with '' | '' stalls)])
     else [])"

section \<open>A trial\<close>

datatype trial_error =
    TrialRun run_error
  | TrialOpen utxo_error
  | TrialConsumer bench_error
  | TrialIo io_error
  | MissingUtxos u32 u64
  | LatencyPanic nat
  | NoBlockFiles path
  | TrialJson string

record bench_sys =
  sy_cwd :: "path option"
  sy_temp_dir :: path
  sy_pid :: nat
  sy_utxo_secs :: nat
  sy_out_secs :: "u32 \<Rightarrow> nat"

definition default_perf_dir :: "bench_sys \<Rightarrow> path" where
  "default_perf_dir Y = (case sy_cwd Y of Some cwd \<Rightarrow> cwd @ [''bidx-perf''] | None \<Rightarrow> sy_temp_dir Y @ [''bidx-perf''])"

definition out_dir_for :: "bench_sys \<Rightarrow> 'w host \<Rightarrow> bench_config \<Rightarrow> u32 \<Rightarrow> 'w \<Rightarrow> ('w, io_error, path) io" where
  "out_dir_for Y H cfg trial w =
    (case bg_out_dir cfg of
       Some d \<Rightarrow> io_bind (h_create_dir_all H w d) (\<lambda>w _. (w, Inr d))
     | None \<Rightarrow>
       let p = default_perf_dir Y @ [''bidx-bench-out-'' @ show_nat (sy_pid Y) @ ''-'' @ show_nat (sy_out_secs Y trial)]
       in io_bind (h_create_dir_all H w p) (\<lambda>w _. (w, Inr p)))"

definition bench_range :: "bench_config \<Rightarrow> chain_index \<Rightarrow> run_error + u32 \<times> u32" where
  "bench_range cfg index =
    (case tip_height index of
       None \<Rightarrow> Inl EmptyChain
     | Some tip \<Rightarrow>
       let start = min (bg_start cfg) tip;
           end_h = min (case bg_end cfg of Some x \<Rightarrow> x | None \<Rightarrow> tip + 1) (tip + 1)
       in if end_h \<le> start then Inl (EmptyRange start end_h) else Inr (start, end_h))"

definition bench_open :: "'db rocks_admin \<Rightarrow> bench_config \<Rightarrow> path \<Rightarrow> utxo_error + 'db utxo_store option" where
  "bench_open A cfg utxo_path =
    (if needs_utxo (bg_mode cfg) then
       let mb = bg_utxo_cache_mb cfg; cache_size = (mb * 2 ^ 20) mod 2 ^ 64 in
       res_bind
         (if mb = 0 then (if bg_rocksdb_stats cfg then open_statistics A utxo_path else store_open A utxo_path)
          else if bg_rocksdb_stats cfg then open_cached_statistics A utxo_path cache_size
          else open_cached A utxo_path cache_size) (\<lambda>st. Inr (Some st))
     else Inr None)"

text \<open>The arguments of the consumer.\<close>

definition trial_env ::
    "('db, 'w, 'fl) bench_env \<Rightarrow> bench_config \<Rightarrow> trial_meas \<Rightarrow> path \<Rightarrow> u32 \<Rightarrow> ('db, 'w, 'fl) bench_env" where
  "trial_env E cfg M out_dir end_h = E\<lparr>be_out_dir := out_dir, be_blocks_per_part := bg_blocks_per_part cfg,
     be_end := end_h, be_do_sink := needs_sink (bg_mode cfg), be_do_utxo := needs_utxo (bg_mode cfg),
     be_do_fees := needs_fee_enrichment (bg_mode cfg), be_sink_cfg := tuning_sink_config (tuning_from_cfg cfg),
     be_apply_ns := tm_apply_ns M, be_sink_ns := tm_sink_ns M\<rparr>"

text \<open>Workers and consumer; a worker parses every height, without an orphan set.\<close>

definition bench_stages ::
    "digests \<Rightarrow> fs \<Rightarrow> path \<Rightarrow> chain_index \<Rightarrow> ('db, 'w, 'fl) bench_env \<Rightarrow> u32 \<Rightarrow> u32 list \<Rightarrow> 'db utxo_store option
      \<Rightarrow> trial_error + ('db, 'w, 'fl) bench_core" where
  "bench_stages H S dir index E start hs utxo =
    (case parse_stage H S dir index None hs file_cache_new of (items, err) \<Rightarrow>
     case bench_consume E start items utxo of consumed \<Rightarrow>
       (case err of
          Some e \<Rightarrow> Inl (TrialRun e)
        | None \<Rightarrow> res_bind (map_err TrialConsumer consumed) (\<lambda>(k, r). res_bind (map_err TrialConsumer r) (\<lambda>_. Inr k))))"

definition trial_result ::
    "'f f64 \<Rightarrow> 'db rocks_admin \<Rightarrow> trial_meas \<Rightarrow> bench_config \<Rightarrow> u32 \<Rightarrow> u32 list \<Rightarrow> ('db, 'w, 'fl) bench_core
      \<Rightarrow> trial_error + 'f trial_report" where
  "trial_result F A M cfg trial heights k =
    (let pipeline_secs = as_secs_f64 F (tm_pipeline_ns M);
         header_secs = wall_secs F (tm_header M);
         parse_samples = map (tm_parse_ns M) heights;
         missing = bk_missing k
     in if needs_utxo (bg_mode cfg) \<and> 0 < missing \<and> \<not> bg_allow_missing_utxos cfg
        then Inl (MissingUtxos trial missing)
        else
          res_bind (map_err LatencyPanic (latency_from_samples F parse_samples)) (\<lambda>parse_latency.
          res_bind (map_err LatencyPanic (latency_from_samples F (bk_samples k))) (\<lambda>utxo_latency.
          Inr \<lparr>tr_trial = trial, tr_mode = bg_mode cfg, tr_blocks = bk_blocks_done k,
            tr_blocks_per_sec = f_div F (f_of_int F (uint (bk_blocks_done k))) (f_max F pipeline_secs (f_micro F)),
            tr_blocks_per_sec_ex_header = f_div F (f_of_int F (uint (bk_blocks_done k)))
              (f_max F (f_add F pipeline_secs header_secs) (f_micro F)),
            tr_user_cpu_secs = jiffies_to_secs F (tm_hz M) (saturating_sub (tm_cpu_end M) (tm_cpu_start M)),
            tr_peak_rss_mb = kb_to_mb F (tm_peak_report_kb M), tr_missing_utxos = missing,
            tr_db_lookups = bk_db_lookups k, tr_pending_hits = bk_pending_hits k, tr_cache_hits = bk_cache_hits k,
            tr_stages = report_stage F (tm_hz M) (tm_cpus M) ''header_pass'' (tm_header M) (bg_threads cfg)
              # pipeline_stages F M cfg (sum_list parse_samples) k,
            tr_parse_latency = parse_latency, tr_utxo_latency = utxo_latency,
            tr_rocksdb = rocksdb_report A cfg (bk_utxo k)\<rparr>)))"

text \<open>A trial returns its report and the store it used.\<close>

definition run_trial ::
    "'f f64 \<Rightarrow> digests \<Rightarrow> fs \<Rightarrow> bench_sys \<Rightarrow> 'w host \<Rightarrow> 'db rocks_admin \<Rightarrow> ('db, 'pw, 'fl) bench_env
      \<Rightarrow> (u32 list \<Rightarrow> u32 list) \<Rightarrow> blk_error + chain_index \<times> chain_build_stats \<Rightarrow> trial_meas \<Rightarrow> bench_config \<Rightarrow> path \<Rightarrow> u32 \<Rightarrow> 'w
      \<Rightarrow> ('w, trial_error, 'f trial_report \<times> 'db utxo_store option) io" where
  "run_trial F H S Y HO A E order header_pass M cfg utxo_path trial w =
    (case header_pass of
       Inl e \<Rightarrow> (w, Inl (TrialRun (RunBlk e)))
     | Inr (index, stats) \<Rightarrow>
       if bg_mode cfg = BmHeaders then (w, Inr (headers_report F M cfg trial index, None))
       else
         io_bind (w, map_err TrialRun (bench_range cfg index)) (\<lambda>w (start, end_h).
         io_bind (w, map_err TrialOpen (bench_open A cfg utxo_path)) (\<lambda>w utxo.
         io_bind (if needs_sink (bg_mode cfg)
                  then (case out_dir_for Y HO cfg trial w of (w, r) \<Rightarrow> (w, map_err TrialIo r))
                  else (w, Inr [])) (\<lambda>w out_dir.
         let heights = map (\<lambda>i. start + of_nat i) [0..<unat (end_h - start)] in
         io_bind (w, bench_stages H S (bg_blocks_dir cfg) index (trial_env E cfg M out_dir end_h) start
                       (order heights) utxo) (\<lambda>w k.
         io_bind (w, trial_result F A M cfg trial heights k) (\<lambda>w report.
           (w, Inr (report, bk_utxo k))))))))"

section \<open>All trials\<close>

record ('w, 'f) bench_host =
  bh_host :: "'w host"
  bh_remove_dir_all :: "'w \<Rightarrow> path \<Rightarrow> ('w, io_error, unit) io"
  bh_write :: "'w \<Rightarrow> path \<Rightarrow> string \<Rightarrow> ('w, io_error, unit) io"
  bh_to_json :: "'f trial_report list \<Rightarrow> string + string"

text \<open>The store path, with the directory to remove afterwards.\<close>

definition bench_utxo_path ::
    "bench_sys \<Rightarrow> 'w host \<Rightarrow> bench_config \<Rightarrow> 'w \<Rightarrow> ('w, io_error, path \<times> path option) io" where
  "bench_utxo_path Y H cfg w =
    (case bg_utxo cfg of
       Some p \<Rightarrow> (w, Inr (p, None))
     | None \<Rightarrow>
       if needs_utxo (bg_mode cfg) then
         let root = (case bg_utxo_dir cfg of Some d \<Rightarrow> d | None \<Rightarrow> default_perf_dir Y);
             p = root @ [''bidx-bench-utxo-'' @ show_nat (sy_pid Y) @ ''-'' @ show_nat (sy_utxo_secs Y)]
         in io_bind (h_create_dir_all H w root) (\<lambda>w _.
            io_bind (h_create_dir_all H w p) (\<lambda>w _. (w, Inr (p, Some p))))
       else (w, Inr ([''/'', ''dev'', ''null''], None)))"

text \<open>The trials in turn; each opens the database that the one before left (\<open>reopen\<close>).\<close>

fun bench_trials ::
    "'f f64 \<Rightarrow> digests \<Rightarrow> fs \<Rightarrow> bench_sys \<Rightarrow> 'w host \<Rightarrow> ('db, 'pw, 'fl) bench_env \<Rightarrow> (u32 list \<Rightarrow> u32 list)
      \<Rightarrow> (u32 \<Rightarrow> blk_error + chain_index \<times> chain_build_stats) \<Rightarrow> (u32 \<Rightarrow> trial_meas)
      \<Rightarrow> ('db utxo_store option \<Rightarrow> 'db rocks_admin \<Rightarrow> 'db rocks_admin) \<Rightarrow> bench_config \<Rightarrow> path \<Rightarrow> u32 list
      \<Rightarrow> 'db rocks_admin \<Rightarrow> 'w \<Rightarrow> ('w, trial_error, 'f trial_report list) io" where
  "bench_trials F H S Y HO E order headers M reopen cfg utxo_path [] A w = (w, Inr [])"
| "bench_trials F H S Y HO E order headers M reopen cfg utxo_path (t # ts) A w =
    io_bind (run_trial F H S Y HO A E order (headers t) (M t) cfg utxo_path t w) (\<lambda>w (report, st).
    io_bind (bench_trials F H S Y HO E order headers M reopen cfg utxo_path ts (reopen st A) w) (\<lambda>w reports.
      (w, Inr (report # reports))))"

definition write_json ::
    "('w, 'f) bench_host \<Rightarrow> bench_config \<Rightarrow> 'f trial_report list \<Rightarrow> 'w \<Rightarrow> ('w, trial_error, unit) io" where
  "write_json BH cfg trials w =
    (case bg_csv cfg of
       None \<Rightarrow> (w, Inr ())
     | Some p \<Rightarrow>
       io_bind (w, map_err TrialJson (bh_to_json BH trials)) (\<lambda>w json.
         if p = [''-''] then (w, Inr ())
         else (case bh_write BH w p json of (w, r) \<Rightarrow> (w, map_err TrialIo r))))"

definition run_bench ::
    "'f f64 \<Rightarrow> digests \<Rightarrow> fs \<Rightarrow> bench_sys \<Rightarrow> ('w, 'f) bench_host \<Rightarrow> ('db, 'pw, 'fl) bench_env \<Rightarrow> (u32 list \<Rightarrow> u32 list)
      \<Rightarrow> (u32 \<Rightarrow> blk_error + chain_index \<times> chain_build_stats) \<Rightarrow> (u32 \<Rightarrow> trial_meas)
      \<Rightarrow> ('db utxo_store option \<Rightarrow> 'db rocks_admin \<Rightarrow> 'db rocks_admin) \<Rightarrow> bench_config
      \<Rightarrow> 'db rocks_admin \<Rightarrow> 'w \<Rightarrow> ('w, trial_error, 'f trial_report list) io" where
  "run_bench F H S Y BH E order headers M reopen cfg A w =
    (case h_dir (bh_host BH) w (bg_blocks_dir cfg) of
       None \<Rightarrow> (w, Inl (TrialIo ''read_dir''))
     | Some [] \<Rightarrow> (w, Inl (NoBlockFiles (bg_blocks_dir cfg)))
     | Some (_ # _) \<Rightarrow>
       io_bind (case bench_utxo_path Y (bh_host BH) cfg w of (w, r) \<Rightarrow> (w, map_err TrialIo r)) (\<lambda>w (utxo_path, cleanup).
       io_bind (bench_trials F H S Y (bh_host BH) E order headers M reopen cfg utxo_path
                  (map of_nat [0..<unat (bg_repeat cfg)]) A w) (\<lambda>w trials.
       io_bind (write_json BH cfg trials w) (\<lambda>w _.
       case cleanup of
         None \<Rightarrow> (w, Inr trials)
       | Some p \<Rightarrow> (case bh_remove_dir_all BH w p of (w, _) \<Rightarrow> (w, Inr trials))))))"

section \<open>Aggregation\<close>

text \<open>Sorting by \<open>partial_cmp\<close> (no NaN), stable.\<close>

fun insert_by :: "'f f64 \<Rightarrow> 'f \<Rightarrow> 'f list \<Rightarrow> 'f list" where
  "insert_by F x [] = [x]"
| "insert_by F x (y # ys) = (if f_ge F y x then x # y # ys else y # insert_by F x ys)"

definition sort_f64 :: "'f f64 \<Rightarrow> 'f list \<Rightarrow> 'f list" where
  "sort_f64 F v = foldr (insert_by F) v []"

text \<open>\<open>None\<close>: an index out of bounds, a panic.\<close>

definition median :: "'f f64 \<Rightarrow> 'f list \<Rightarrow> ('f \<times> 'f \<times> 'f) option" where
  "median F v =
    (let v = sort_f64 F v; mid = length v div 2 in
     if v = [] then None
     else
       let med = (if even (length v) then f_div F (f_add F (v ! (mid - 1)) (v ! mid)) (f_of_int F 2) else v ! mid)
       in Some (v ! 0, med, v ! (length v - 1)))"

text \<open>The durations of each stage over the trials, by stage name in order, with minimum, median and
  maximum.\<close>

definition stage_names :: "'f trial_report list \<Rightarrow> string list" where
  "stage_names trials = sorted_list_of_set (set (map sg_name (concat (map tr_stages trials))))"

definition stage_durations :: "string \<Rightarrow> 'f trial_report list \<Rightarrow> 'f list" where
  "stage_durations name trials =
    map sg_wall_secs (filter (\<lambda>s. sg_name s = name) (concat (map tr_stages trials)))"

definition aggregate :: "'f f64 \<Rightarrow> 'f trial_report list \<Rightarrow> (string \<times> ('f \<times> 'f \<times> 'f) option) list" where
  "aggregate F trials =
    map (\<lambda>name. (name, median F (stage_durations name trials))) (stage_names trials)"


section \<open>Percentiles and medians\<close>

text \<open>In real arithmetic: the index of a percentile is within the samples and grows with the
  percentile, and the median lies between the extremes.\<close>

lemma sort_eq_Nil [simp]: "sort xs = [] \<longleftrightarrow> xs = []"
  by (metis length_0_conv length_sort)

lemma sort_first:
  assumes "v \<noteq> []"
  shows "sort v ! 0 = Min (set v)"
proof (intro Min_eqI [symmetric])
  show "sort v ! 0 \<in> set v" using assms by (metis length_greater_0_conv length_sort nth_mem set_sort)
  show "sort v ! 0 \<le> y" if "y \<in> set v" for y
    using that sorted_nth_mono [of "sort v" 0] by (metis in_set_conv_nth le0 length_sort set_sort sorted_sort)
qed simp

lemma sort_last:
  assumes "v \<noteq> []"
  shows "sort v ! (length v - 1) = Max (set v)"
proof (intro Max_eqI [symmetric])
  show "sort v ! (length v - 1) \<in> set v"
    using assms by (metis diff_less length_greater_0_conv length_sort less_one nth_mem set_sort)
  show "y \<le> sort v ! (length v - 1)" if y: "y \<in> set v" for y
  proof -
    obtain i where "i < length v" "sort v ! i = y" using y by (metis in_set_conv_nth length_sort set_sort)
    then show ?thesis using sorted_nth_mono [of "sort v" i "length v - 1"] by simp
  qed
qed simp

lemma pick_index_real:
  assumes "0 < n" "n < 2 ^ 64" "0 \<le> q" "q \<le> 1"
  shows "pick_index real_f64 n q = nat \<lfloor>(real n - 1) * q + 1 / 2\<rfloor>"
    and "pick_index real_f64 n q < n"
proof -
  let ?x = "(real n - 1) * q"
  have x0: "0 \<le> ?x" and x1: "?x \<le> real n - 1"
    using assms mult_left_le [of q "real n - 1"] by simp_all
  have fl: "0 \<le> \<lfloor>?x + 1 / 2\<rfloor>" "\<lfloor>?x + 1 / 2\<rfloor> \<le> int n - 1"
  proof -
    show "0 \<le> \<lfloor>?x + 1 / 2\<rfloor>" using x0 by (simp add: le_floor_iff)
    have "?x + 1 / 2 < of_int (int n)" using x1 by simp
    then show "\<lfloor>?x + 1 / 2\<rfloor> \<le> int n - 1" by (simp only: floor_less_iff [symmetric] zle_diff1_eq)
  qed
  have rd: "real_round ?x = of_int \<lfloor>?x + 1 / 2\<rfloor>"
  proof (cases "?x = 0")
    case True
    then show ?thesis by (simp add: real_round_def del: mult_eq_0_iff)
  next
    case False
    then have "0 < ?x" using x0 by linarith
    then show ?thesis by (simp only: real_round_def sgn_pos abs_of_pos mult_1)
  qed
  have "int n < 2 ^ 64" using assms(2) by simp
  then have "unat (real_to_u64 (of_int \<lfloor>?x + 1 / 2\<rfloor>)) = nat \<lfloor>?x + 1 / 2\<rfloor>"
    using fl by (intro real_to_u64_int) linarith+
  then show eq: "pick_index real_f64 n q = nat \<lfloor>?x + 1 / 2\<rfloor>"
    using rd by (simp add: pick_index_def real_f64_def)
  show "pick_index real_f64 n q < n" unfolding eq using fl(2) assms(1) by linarith
qed

lemma pick_index_mono:
  assumes "0 < n" "n < 2 ^ 64" "0 \<le> p" "p \<le> q" "q \<le> 1"
  shows "pick_index real_f64 n p \<le> pick_index real_f64 n q"
proof -
  have "(real n - 1) * p \<le> (real n - 1) * q" using assms by (intro mult_left_mono) simp_all
  then have "\<lfloor>(real n - 1) * p + 1 / 2\<rfloor> \<le> \<lfloor>(real n - 1) * q + 1 / 2\<rfloor>" by (intro floor_mono) simp
  then show ?thesis using assms by (simp add: pick_index_real(1) nat_mono)
qed

lemma insert_by_real: "insert_by real_f64 = insort"
proof (intro ext)
  show "insert_by real_f64 x ys = insort x ys" for x ys by (induction ys) (simp_all add: real_f64_def)
qed

lemma sort_f64_real: "sort_f64 real_f64 v = sort v"
  by (simp add: sort_f64_def insert_by_real sort_key_def foldr_conv_fold)

lemma median_real:
  assumes "v \<noteq> []"
  shows "\<exists>med. median real_f64 v = Some (Min (set v), med, Max (set v)) \<and> Min (set v) \<le> med \<and> med \<le> Max (set v)"
proof -
  let ?s = "sort v" and ?n = "length v"
  have n: "0 < ?n" using assms by simp
  have mono: "i \<le> j \<Longrightarrow> j < ?n \<Longrightarrow> ?s ! i \<le> ?s ! j" for i j by (simp add: sorted_nth_mono)
  note lo = sort_first [OF assms] and hi = sort_last [OF assms]
  let ?med = "if even ?n then (?s ! (?n div 2 - 1) + ?s ! (?n div 2)) / 2 else ?s ! (?n div 2)"
  have "median real_f64 v = Some (?s ! 0, ?med, ?s ! (?n - 1))"
    using assms by (simp add: median_def sort_f64_real Let_def) (simp add: real_f64_def)
  moreover have "?s ! 0 \<le> ?s ! (?n div 2 - 1)" "?s ! 0 \<le> ?s ! (?n div 2)"
    "?s ! (?n div 2 - 1) \<le> ?s ! (?n - 1)" "?s ! (?n div 2) \<le> ?s ! (?n - 1)"
    using n by (intro mono; linarith)+
  then have "?s ! 0 \<le> ?med" "?med \<le> ?s ! (?n - 1)" by auto
  ultimately show ?thesis unfolding lo hi by blast
qed

text \<open>In a report on real arithmetic the percentiles are samples in increasing order.\<close>

lemma latency_real:
  assumes "samples \<noteq> []" "length samples < 2 ^ 64"
  shows "\<exists>r i j. latency_from_samples real_f64 samples = Inr r \<and> i \<le> j \<and> j < length samples
    \<and> lr_p50_ms r = as_ms real_f64 (sort samples ! i) \<and> lr_p99_ms r = as_ms real_f64 (sort samples ! j)
    \<and> lr_max_ms r = as_ms real_f64 (Max (set samples)) \<and> lr_p50_ms r \<le> lr_p99_ms r \<and> lr_p99_ms r \<le> lr_max_ms r"
proof -
  let ?s = "sort samples" and ?n = "length samples"
  define i j where "i = pick_index real_f64 ?n (50 / 100)" and "j = pick_index real_f64 ?n (99 / 100)"
  have n: "0 < ?n" using assms(1) by simp
  have ij: "i \<le> j" "j < ?n"
    unfolding i_def j_def using pick_index_mono [OF n assms(2)] pick_index_real(2) [OF n assms(2)] by simp_all
  note last = sort_last [OF assms(1)]
  have ms: "as_ms real_f64 x = real_of_int (uint x) / 10 ^ 6" for x by (simp add: as_ms_def real_f64_def)
  have le: "as_ms real_f64 (?s ! a) \<le> as_ms real_f64 (?s ! b)" if "a \<le> b" "b < ?n" for a b
  proof -
    have "uint (?s ! a) \<le> uint (?s ! b)" using sorted_nth_mono [of ?s a b] that by (simp add: word_le_def)
    then show ?thesis unfolding ms by (intro divide_right_mono) (simp_all only: of_int_le_iff zero_le_numeral zero_le_power)
  qed
  let ?r = "\<lparr>lr_n = of_nat ?n, lr_p50_ms = as_ms real_f64 (?s ! i), lr_p99_ms = as_ms real_f64 (?s ! j),
    lr_max_ms = as_ms real_f64 (?s ! (?n - 1)), lr_sum_secs = real_of_int (uint (sum_list ?s)) / 10 ^ 9\<rparr>"
  have q: "f_div real_f64 (f_of_int real_f64 50) (f_of_int real_f64 100) = 50 / 100"
    "f_div real_f64 (f_of_int real_f64 99) (f_of_int real_f64 100) = 99 / 100" by (simp_all add: real_f64_def)
  have "pick real_f64 ?s 50 = Inr (as_ms real_f64 (?s ! i))" "pick real_f64 ?s 99 = Inr (as_ms real_f64 (?s ! j))"
    unfolding pick_def Let_def length_sort q i_def [symmetric] j_def [symmetric] using ij by simp_all
  then have "latency_from_samples real_f64 samples = Inr ?r"
    using assms(1) by (simp add: latency_from_samples_def Let_def) (simp add: real_f64_def)
  then show ?thesis using ij le [OF ij] le [of j "?n - 1"] last by auto
qed

section \<open>Modes\<close>

lemma mode_flags:
  "needs_utxo BmParse \<longleftrightarrow> False" "needs_sink BmParse \<longleftrightarrow> False"
  "needs_utxo BmDrain \<longleftrightarrow> False" "needs_sink BmDrain \<longleftrightarrow> False"
  by (simp_all add: needs_utxo_def needs_sink_def)

text \<open>A trial that reports in a mode with a store has found every spent output, unless missing ones are
  allowed.\<close>

lemma trial_result_warm:
  "trial_result F A M cfg trial heights k = Inr report \<Longrightarrow> needs_utxo (bg_mode cfg) \<Longrightarrow>
    \<not> bg_allow_missing_utxos cfg \<Longrightarrow> tr_missing_utxos report = 0"
  by (auto simp: trial_result_def Let_def res_simps word_gt_0 split: if_splits)

text \<open>The throwaway store directory is removed only when every trial succeeds.\<close>

lemma throwaway_store_dir:
  assumes "h_dir (bh_host BH) w (bg_blocks_dir cfg) = Some (x # xs)" and "bg_csv cfg = None"
    and "bench_utxo_path Y (bh_host BH) cfg w = (w1, Inr (p, Some p))"
  shows "run_bench F H S Y BH E order headers M reopen cfg A w =
    (case bench_trials F H S Y (bh_host BH) E order headers M reopen cfg p (map of_nat [0..<unat (bg_repeat cfg)]) A w1 of
       (w2, Inl e) \<Rightarrow> (w2, Inl e)
     | (w2, Inr trials) \<Rightarrow> (fst (bh_remove_dir_all BH w2 p), Inr trials))"
  using assms by (simp add: run_bench_def write_json_def io_bind_def split: prod.splits sum.splits)

section \<open>Properties\<close>

lemma trial_result_drain:
  "trial_result F A M (cfg\<lparr>bg_mode := BmDrain\<rparr>) trial heights k =
    res_bind (trial_result F A M (cfg\<lparr>bg_mode := BmParse\<rparr>) trial heights k) (\<lambda>r. Inr (r\<lparr>tr_mode := BmDrain\<rparr>))"
  by (cases "latency_from_samples F (map (tm_parse_ns M) heights)"; cases "latency_from_samples F (bk_samples k)")
    (simp_all add: trial_result_def mode_flags pipeline_stages_def rocksdb_report_def Let_def)

lemma trial_setup_drain:
  "bench_range (cfg\<lparr>bg_mode := m\<rparr>) index = bench_range cfg index"
  "bench_open A (cfg\<lparr>bg_mode := BmDrain\<rparr>) p = bench_open A (cfg\<lparr>bg_mode := BmParse\<rparr>) p"
  "trial_env E (cfg\<lparr>bg_mode := BmDrain\<rparr>) M out end_h = trial_env E (cfg\<lparr>bg_mode := BmParse\<rparr>) M out end_h"
proof -
  show "bench_range (cfg\<lparr>bg_mode := m\<rparr>) index = bench_range cfg index"
    unfolding bench_range_def by (simp cong: option.case_cong)
qed (simp_all add: bench_open_def trial_env_def mode_flags needs_fee_enrichment_def tuning_from_cfg_def)

text \<open>The modes \<open>drain\<close> and \<open>parse\<close> of the benchmark are the same run: both reorder every block and touch
  neither store nor sink, and the reports differ in the name of the mode only.\<close>
theorem drain_mode_is_parse_mode:
  "run_trial F H S Y HO A E order header_pass M (cfg\<lparr>bg_mode := BmDrain\<rparr>) utxo_path trial w =
    (case run_trial F H S Y HO A E order header_pass M (cfg\<lparr>bg_mode := BmParse\<rparr>) utxo_path trial w of
       (w', r) \<Rightarrow> (w', res_bind r (\<lambda>(report, st). Inr (report\<lparr>tr_mode := BmDrain\<rparr>, st))))"
proof (cases header_pass)
  case (Inl e)
  then show ?thesis by (simp add: run_trial_def)
next
  case (Inr p)
  then obtain index stats where hp: "header_pass = Inr (index, stats)" by (cases p) auto
  have flags: "needs_sink (bg_mode (cfg\<lparr>bg_mode := BmDrain\<rparr>)) = False"
    "needs_sink (bg_mode (cfg\<lparr>bg_mode := BmParse\<rparr>)) = False"
    "bg_mode (cfg\<lparr>bg_mode := BmDrain\<rparr>) \<noteq> BmHeaders" "bg_mode (cfg\<lparr>bg_mode := BmParse\<rparr>) \<noteq> BmHeaders"
    by (simp_all add: mode_flags)
  show ?thesis
    unfolding run_trial_def hp sum.case prod.case trial_setup_drain trial_result_drain flags
    by (simp add: io_bind_def Let_def split: sum.splits prod.splits)
qed

end
