(* ===== verification/Cli_Main.thy ===== *)
theory Cli_Main
  imports Cli_Trial Cli_Live Cli_Handover Loader
begin

text \<open>
  \<open>bidx-cli/src/main.rs\<close>: the subcommands with their arguments and what \<open>main\<close> calls for each. Splitting the
  command line into options and reading a single value are clap's (\<open>arg_matches\<close>, \<open>value_parsers\<close>); which options a
  command needs and the defaults of the others are the attributes of the source, \<open>cmd_of_matches\<close>. \<open>dispatch\<close> builds the
  configuration the command is run with; the calls themselves are \<open>build_chain_index\<close>, \<open>run_parse\<close>, \<open>init_schema\<close>, \<open>load_all\<close>,
  \<open>inspect_block\<close>, \<open>run_bench\<close> and \<open>run_live\<close> of the other theories. Log setup and printing are left
  out.
\<close>

datatype network_arg = ArgMainnet | ArgTestnet3 | ArgTestnet4 | ArgSignet | ArgRegtest

fun network_of_arg :: "network_arg \<Rightarrow> network" where
  "network_of_arg ArgMainnet = Mainnet"
| "network_of_arg ArgTestnet3 = Testnet3"
| "network_of_arg ArgTestnet4 = Testnet4"
| "network_of_arg ArgSignet = Signet"
| "network_of_arg ArgRegtest = Regtest"

datatype cmd =
    CmdHeaders (cmd_blocks_dir: path)
  | CmdParse path (cmd_out: path) (cmd_utxo: path) (cmd_start: u32) (cmd_end: "u32 option")
      (cmd_blocks_per_part: u32) (cmd_threads: "nat option") (cmd_rpc_url: "string option")
      (cmd_rpc_cookie: "path option") (cmd_skip_disk_check: bool) (cmd_network: "network_arg option")
      (cmd_checkpoint_file: "path option")
  | CmdInitDb (cmd_host: string) (cmd_port: u16) (cmd_user: string) (cmd_password: "string option")
      (cmd_database: string)
  | CmdLoad (cmd_input: path) string u16 string "string option" string
  | CmdLive string "path option" "string option" "string option" (cmd_zmq: "string option") path
      (cmd_live_out: "path option") (cmd_max_reorg_depth: u32) "path option" "network_arg option" bool
      "path option"
  | CmdInspect path (cmd_height: u32)
  | CmdBench bench_config

section \<open>Options and defaults\<close>

record arg_matches =
  am_command :: string
  am_value :: "string \<Rightarrow> string option"
  am_flag :: "string \<Rightarrow> bool"

record value_parsers =
  vp_path :: "string \<Rightarrow> path option"
  vp_u32 :: "string \<Rightarrow> u32 option"
  vp_u16 :: "string \<Rightarrow> u16 option"
  vp_usize :: "string \<Rightarrow> nat option"

datatype arg_error = MissingArgument string | InvalidValue string string | UnknownCommand string

definition network_arg_of_name :: "string \<Rightarrow> network_arg option" where
  "network_arg_of_name s = map_of [(''mainnet'', ArgMainnet), (''testnet3'', ArgTestnet3),
     (''testnet4'', ArgTestnet4), (''signet'', ArgSignet), (''regtest'', ArgRegtest)] s"

definition bench_mode_of_name :: "string \<Rightarrow> bench_mode option" where
  "bench_mode_of_name s =
    map_of (map (\<lambda>m. (bench_mode_name m, m)) [BmFull, BmHeaders, BmParse, BmDrain, BmUtxo, BmSink]) s"

definition optional_arg :: "(string \<Rightarrow> 'a option) \<Rightarrow> arg_matches \<Rightarrow> string \<Rightarrow> arg_error + 'a option" where
  "optional_arg parse m k =
    (case am_value m k of
       None \<Rightarrow> Inr None
     | Some v \<Rightarrow> (case parse v of None \<Rightarrow> Inl (InvalidValue k v) | Some x \<Rightarrow> Inr (Some x)))"

definition required_arg :: "(string \<Rightarrow> 'a option) \<Rightarrow> arg_matches \<Rightarrow> string \<Rightarrow> arg_error + 'a" where
  "required_arg parse m k = res_bind (optional_arg parse m k) (\<lambda>x. ok_or x (MissingArgument k))"

definition default_arg :: "(string \<Rightarrow> 'a option) \<Rightarrow> 'a \<Rightarrow> arg_matches \<Rightarrow> string \<Rightarrow> arg_error + 'a" where
  "default_arg parse d m k =
    res_bind (optional_arg parse m k) (\<lambda>x. Inr (case x of None \<Rightarrow> d | Some v \<Rightarrow> v))"

definition parse_args :: "value_parsers \<Rightarrow> arg_matches \<Rightarrow> arg_error + cmd" where
  "parse_args V m =
    res_bind (required_arg (vp_path V) m ''blocks-dir'') (\<lambda>blocks_dir.
    res_bind (required_arg (vp_path V) m ''out'') (\<lambda>out.
    res_bind (required_arg (vp_path V) m ''utxo'') (\<lambda>utxo.
    res_bind (default_arg (vp_u32 V) 0 m ''start'') (\<lambda>start.
    res_bind (optional_arg (vp_u32 V) m ''end'') (\<lambda>end_h.
    res_bind (default_arg (vp_u32 V) 10000 m ''blocks-per-part'') (\<lambda>blocks_per_part.
    res_bind (optional_arg (vp_usize V) m ''threads'') (\<lambda>threads.
    res_bind (optional_arg Some m ''rpc-url'') (\<lambda>url.
    res_bind (optional_arg (vp_path V) m ''rpc-cookie'') (\<lambda>rpc_cookie.
    res_bind (optional_arg network_arg_of_name m ''network'') (\<lambda>net.
    res_bind (optional_arg (vp_path V) m ''checkpoint-file'') (\<lambda>checkpoint.
      Inr (CmdParse blocks_dir out utxo start end_h blocks_per_part threads url rpc_cookie
             (am_flag m ''skip-disk-check'') net checkpoint))))))))))))"

text \<open>The connection options of \<open>init-db\<close> and \<open>load\<close>.\<close>

definition ch_args :: "value_parsers \<Rightarrow> arg_matches \<Rightarrow> arg_error + ch_config" where
  "ch_args V m =
    res_bind (default_arg Some ''localhost'' m ''host'') (\<lambda>host.
    res_bind (default_arg (vp_u16 V) 9000 m ''port'') (\<lambda>port.
    res_bind (default_arg Some ''default'' m ''user'') (\<lambda>user.
    res_bind (optional_arg Some m ''password'') (\<lambda>password.
    res_bind (default_arg Some ''bitcoin'' m ''database'') (\<lambda>database.
      Inr \<lparr>ch_host = host, ch_port = port, ch_user = user, ch_password = password, ch_database = database\<rparr>)))))"

definition live_args :: "value_parsers \<Rightarrow> arg_matches \<Rightarrow> arg_error + cmd" where
  "live_args V m =
    res_bind (default_arg Some ''http://127.0.0.1:8332'' m ''rpc-url'') (\<lambda>url.
    res_bind (optional_arg (vp_path V) m ''cookie'') (\<lambda>cookie.
    res_bind (optional_arg Some m ''rpc-user'') (\<lambda>user.
    res_bind (optional_arg Some m ''rpc-password'') (\<lambda>password.
    res_bind (optional_arg Some m ''zmq'') (\<lambda>zmq.
    res_bind (required_arg (vp_path V) m ''utxo'') (\<lambda>utxo.
    res_bind (optional_arg (vp_path V) m ''out'') (\<lambda>out.
    res_bind (default_arg (vp_u32 V) 100 m ''max-reorg-depth'') (\<lambda>depth.
    res_bind (optional_arg (vp_path V) m ''blocks-dir'') (\<lambda>blocks_dir.
    res_bind (optional_arg network_arg_of_name m ''network'') (\<lambda>net.
    res_bind (optional_arg (vp_path V) m ''checkpoint-file'') (\<lambda>checkpoint.
      Inr (CmdLive url cookie user password zmq utxo out depth blocks_dir net (am_flag m ''skip-disk-check'')
             checkpoint))))))))))))"

definition bench_args :: "value_parsers \<Rightarrow> arg_matches \<Rightarrow> arg_error + bench_config" where
  "bench_args V m =
    res_bind (required_arg (vp_path V) m ''blocks-dir'') (\<lambda>blocks_dir.
    res_bind (default_arg bench_mode_of_name BmFull m ''mode'') (\<lambda>mode.
    res_bind (default_arg (vp_u32 V) 0 m ''start'') (\<lambda>start.
    res_bind (optional_arg (vp_u32 V) m ''end'') (\<lambda>end_h.
    res_bind (optional_arg (vp_usize V) m ''threads'') (\<lambda>threads.
    res_bind (optional_arg (vp_path V) m ''utxo'') (\<lambda>utxo.
    res_bind (optional_arg (vp_path V) m ''utxo-dir'') (\<lambda>utxo_dir.
    res_bind (optional_arg (vp_path V) m ''out-dir'') (\<lambda>out_dir.
    res_bind (default_arg (vp_u32 V) 10000 m ''blocks-per-part'') (\<lambda>blocks_per_part.
    res_bind (optional_arg (vp_usize V) m ''sink-batch-rows'') (\<lambda>batch_rows.
    res_bind (optional_arg (vp_usize V) m ''reorder-high'') (\<lambda>reorder_high.
    res_bind (optional_arg (vp_usize V) m ''channel-depth'') (\<lambda>depth.
    res_bind (default_arg (vp_u32 V) 1 m ''repeat'') (\<lambda>times.
    res_bind (default_arg (vp_usize V) 0 m ''utxo-cache-mb'') (\<lambda>cache_mb.
    res_bind (optional_arg (vp_path V) m ''csv'') (\<lambda>csv.
      Inr \<lparr>bg_blocks_dir = blocks_dir, bg_mode = mode, bg_start = start, bg_end = end_h, bg_threads = threads,
        bg_utxo = utxo, bg_utxo_dir = utxo_dir, bg_out_dir = out_dir, bg_blocks_per_part = blocks_per_part,
        bg_sink_batch_rows = batch_rows, bg_reorder_high = reorder_high, bg_channel_depth = depth,
        bg_repeat = times, bg_allow_missing_utxos = am_flag m ''allow-missing-utxos'',
        bg_utxo_cache_mb = cache_mb, bg_rocksdb_stats = am_flag m ''rocksdb-stats'', bg_csv = csv\<rparr>)))))))))))))))"

definition cmd_of_matches :: "value_parsers \<Rightarrow> arg_matches \<Rightarrow> arg_error + cmd" where
  "cmd_of_matches V m =
    (let c = am_command m in
     if c = ''headers'' then res_bind (required_arg (vp_path V) m ''blocks-dir'') (\<lambda>d. Inr (CmdHeaders d))
     else if c = ''parse'' then parse_args V m
     else if c = ''init-db'' then res_bind (ch_args V m) (\<lambda>ch.
       Inr (CmdInitDb (ch_host ch) (ch_port ch) (ch_user ch) (ch_password ch) (ch_database ch)))
     else if c = ''load'' then res_bind (required_arg (vp_path V) m ''input'') (\<lambda>input. res_bind (ch_args V m) (\<lambda>ch.
       Inr (CmdLoad input (ch_host ch) (ch_port ch) (ch_user ch) (ch_password ch) (ch_database ch))))
     else if c = ''live'' then live_args V m
     else if c = ''inspect'' then res_bind (required_arg (vp_path V) m ''blocks-dir'') (\<lambda>d.
       res_bind (required_arg (vp_u32 V) m ''height'') (\<lambda>h. Inr (CmdInspect d h)))
     else if c = ''bench'' then res_bind (bench_args V m) (\<lambda>cfg. Inr (CmdBench cfg))
     else Inl (UnknownCommand c))"

section \<open>Calls\<close>

datatype call =
    CallBuildChainIndex path
  | CallRunParse parse_config
  | CallInitSchema ch_config
  | CallLoadAll ch_config path
  | CallInspectBlock path u32
  | CallRunBench bench_config
  | CallRunLive live_config

fun dispatch :: "cmd \<Rightarrow> call" where
  "dispatch (CmdHeaders blocks_dir) = CallBuildChainIndex blocks_dir"
| "dispatch (CmdParse blocks_dir out utxo start end_h blocks_per_part threads url rpc_cookie skip_disk_check net
     checkpoint) =
    CallRunParse \<lparr>pc_blocks_dir = blocks_dir, pc_out = out, pc_utxo = utxo, pc_start = start, pc_end = end_h,
      pc_blocks_per_part = blocks_per_part, pc_threads = threads, pc_rpc_url = url, pc_rpc_cookie = rpc_cookie,
      pc_skip_disk_check = skip_disk_check, pc_checkpoint_file = checkpoint,
      pc_network = map_option network_of_arg net, pc_orphan_blocks = None\<rparr>"
| "dispatch (CmdInitDb host port user password database) =
    CallInitSchema \<lparr>ch_host = host, ch_port = port, ch_user = user, ch_password = password, ch_database = database\<rparr>"
| "dispatch (CmdLoad input host port user password database) =
    CallLoadAll \<lparr>ch_host = host, ch_port = port, ch_user = user, ch_password = password, ch_database = database\<rparr> input"
| "dispatch (CmdInspect blocks_dir height) = CallInspectBlock blocks_dir height"
| "dispatch (CmdBench cfg) = CallRunBench cfg"
| "dispatch (CmdLive url cookie user password zmq utxo out depth blocks_dir net skip_disk_check checkpoint) =
    CallRunLive \<lparr>lc_rpc_url = url, lc_cookie = cookie, lc_rpc_user = user, lc_rpc_password = password, lc_zmq = zmq,
      lc_utxo = utxo, lc_out = out, lc_max_reorg_depth = depth, lc_blocks_dir = blocks_dir,
      lc_network = map_option network_of_arg net, lc_skip_disk_check = skip_disk_check,
      lc_checkpoint_file = checkpoint\<rparr>"

text \<open>Loading: the client is looked up, then the statements run.\<close>

definition run_init_db :: "'w shell \<Rightarrow> ch_config \<Rightarrow> 'w \<Rightarrow> ('w, load_error, unit) io" where
  "run_init_db S cfg w = io_bind (loader_new S cfg w) (\<lambda>w l. init_schema S l w)"

definition run_load :: "'w shell \<Rightarrow> ch_config \<Rightarrow> path \<Rightarrow> 'w \<Rightarrow> ('w, load_error, unit) io" where
  "run_load S cfg input w = io_bind (loader_new S cfg w) (\<lambda>w l. load_all S l input w)"

lemma network_of_arg_bij: "bij network_of_arg"
proof (rule bijI)
  have "x = y" if "network_of_arg x = network_of_arg y" for x y using that by (cases x; cases y) simp_all
  then show "inj network_of_arg" by (rule injI)
  have "\<exists>x. network_of_arg x = n" for n
    by (cases n) (metis network_of_arg.simps)+
  then show "surj network_of_arg" by (metis surjI surj_def)
qed

lemma required_arg_given: "required_arg f m k = Inr x \<Longrightarrow> \<exists>v. am_value m k = Some v \<and> f v = Some x"
  by (auto simp: required_arg_def optional_arg_def res_simps split: option.splits)

text \<open>Every value of a mode is accepted under the name it is printed with.\<close>

lemma bench_mode_name_inverse: "bench_mode_of_name (bench_mode_name mode) = Some mode"
  by (cases mode) (simp_all add: bench_mode_of_name_def)

text \<open>A bulk run needs the three directories; what is not given has the documented default.\<close>

lemma parse_args_needs:
  "parse_args V m = Inr c \<Longrightarrow> \<forall>k\<in>{''blocks-dir'', ''out'', ''utxo''}. am_value m k \<noteq> None"
  by (auto simp: parse_args_def res_simps dest!: required_arg_given)

lemma parse_args_minimal:
  assumes "am_value m = [''blocks-dir'' \<mapsto> b, ''out'' \<mapsto> t, ''utxo'' \<mapsto> u]" and "am_flag m = (\<lambda>_. False)"
    and "vp_path V b = Some blocks_dir" and "vp_path V t = Some out" and "vp_path V u = Some utxo"
  shows "parse_args V m = Inr (CmdParse blocks_dir out utxo 0 None 10000 None None None False None None)"
  using assms by (simp add: parse_args_def required_arg_def default_arg_def optional_arg_def)

text \<open>Without a node to ask, a bulk run started from the command line leaves no block out.\<close>

lemma parse_command_orphans:
  "dispatch c = CallRunParse cfg \<Longrightarrow> pc_rpc_url cfg = None \<or> pc_skip_disk_check cfg \<Longrightarrow>
    preflight_stage F H w Q D X cfg disk_cfg n = (n, Inr None)"
  by (cases c) (auto simp: preflight_stage_def)

end
