(* ===== verification/Spec2Isabelle.thy ===== *)
theory Spec2Isabelle
  imports Prelude Core_Text Core_Float Core_Cursor Core_Hash Core_Types Core_Script Core_Disk
    Parser_Tx Parser_Blk Parser_Chain
    Store_Codec Store_Cache Store_Rocks Store_Utxo Store_Correct Store_Open Store_Ingest Store_Sink
    Cli_DiskGuard Cli_FileCache Cli_Reorder Cli_Pipeline Cli_Parse Cli_Backpressure
    Live_Node Live_Http Live_Tracker Cli_Live Cli_Handover Cli_Bulk Cli_Follow Loader Cli_Metrics Cli_Bench Cli_Trial Cli_Main
begin

text \<open>
  Verification of bitcoindex (\<open>bidx\<close>), an indexer that reads the blk files of Bitcoin Core, links every input
  to the output it spends through a UTXO set kept in RocksDB, writes Parquet files for ClickHouse, and then
  follows the chain tip of a node.

  \<^bold>\<open>The program.\<close> \<open>bidx headers\<close> runs the header pass: all records of all blk files, the block with the most
  cumulative work, and the chain down to genesis (\<open>bidx-parser\<close>). \<open>bidx parse\<close> runs that pass, plans a range
  of heights, checks the disk, and then parses the blocks on worker threads; a single consumer puts them back
  in height order, applies each to the UTXO store (\<open>bidx-store\<close>), writes the fees into the rows and the rows
  into rotating Parquet files, and records disk-size checkpoints. \<open>bidx live\<close> asks the node for new blocks,
  disconnects what a reorganisation has removed through the undo records of the store, applies the rest and
  appends to Parquet. \<open>bidx init-db\<close> and \<open>bidx load\<close> drive the ClickHouse client, \<open>bidx bench\<close> times the
  stages of the bulk run. Paths below are relative to \<open>src/crates/\<close>.

  \<^bold>\<open>Conventions.\<close> \<open>Prelude\<close> fixes them: machine integers are words (\<open>u32\<close>, \<open>u64\<close>) with wrap-around as in a
  release build, \<open>Result\<close> is a sum with \<^term>\<open>Inl\<close> for the error, an operation that changes a state and may fail
  returns both (\<open>io\<close>, with \<open>io_bind\<close> for the question mark operator), a panic is an error value, positions and lengths
  (\<open>usize\<close>) are natural numbers. Every record, enumeration and function of the source is a record, datatype and
  function here; the manifest maps each definition to its lines.

  \<^bold>\<open>Theories.\<close>
  \<^item> \<open>Core_Text\<close>, \<open>Core_Float\<close>: the standard-library text routines in use; \<open>f64\<close> as a parameter, with the laws a
    proof needs in the interface \<open>f64_order\<close> (interpreted on the reals).
  \<^item> \<open>Core_Cursor\<close> (\<open>bidx-core/src/cursor.rs\<close>), \<open>Core_Hash\<close> (\<open>hash.rs\<close>), \<open>Core_Types\<close> (\<open>types.rs\<close>), \<open>Core_Script\<close>
    (\<open>script.rs\<close>), \<open>Core_Disk\<close> (\<open>disk.rs\<close>): the bounds-checked readers and their common contract \<open>cursor_reader\<close>,
    hashes over the digest crates, rows and headers, script classification proved equal to the script
    templates, and the checkpoint file with its projection.
  \<^item> \<open>Parser_Tx\<close> (\<open>bidx-parser/src/tx.rs\<close>), \<open>Parser_Blk\<close> (\<open>blkfile.rs\<close>), \<open>Parser_Chain\<close> (\<open>chain.rs\<close>): parsing inverts
    the wire format; a blk file (obfuscated, padded or torn) yields exactly its complete records; the
    header pass returns the chain with the most work. The walk back from the tip may not end on cyclic
    headers, so \<open>build_chain_index\<close> returns an option and its theorems prove that it is \<^term>\<open>Some\<close>.
  \<^item> \<open>Store_Codec\<close>, \<open>Store_Cache\<close>, \<open>Store_Rocks\<close>, \<open>Store_Utxo\<close>, \<open>Store_Correct\<close>, \<open>Store_Open\<close>
    (\<open>bidx-store/src/utxo.rs\<close>): encodings, the cache of recent outputs, RocksDB as the interface \<open>rocks_sound\<close>
    (extended by \<open>rocks_total\<close> and \<open>rocks_flush\<close>), applying and disconnecting blocks, and opening. The specification is a
    partial map from outpoints to outputs: \<open>apply_block\<close> is its set update, \<open>disconnect_block\<close> the inverse at
    any depth (interface \<open>reversible\<close>), the cache changes nothing that can be observed, and a store in use keeps
    the invariant under every operation. \<open>Store_Ingest\<close> connects parser and store: every block the parser
    accepts is one the store applies.
  \<^item> \<open>Store_Sink\<close> (\<open>bidx-store/src/parquet_writers.rs\<close>): column builders, batches and files over Arrow as the
    interface \<open>arrow_sound\<close>; the files hold exactly the pushed rows.
  \<^item> \<open>Cli_DiskGuard\<close> (\<open>bidx-cli/src/diskguard.rs\<close>), \<open>Cli_FileCache\<close>, \<open>Cli_Reorder\<close>, \<open>Cli_Pipeline\<close>,
    \<open>Cli_Parse\<close>, \<open>Cli_Backpressure\<close> (\<open>pipeline.rs\<close>): the startup check and the recorder; the shared cache of open blk files, also
    under interleaving; the reorder buffer as the interface \<open>reorder\<close>, from which the order of arrival is shown
    irrelevant for both consumers of the program; the consumer; the whole bulk run; the waiting of workers and
    consumer on each other as an interleaved step relation with its bound, progress and the ways it gets stuck.
  \<^item> \<open>Live_Node\<close>, \<open>Live_Http\<close> (\<open>bidx-live/src/node.rs\<close>, \<open>zmqsub.rs\<close>), \<open>Live_Tracker\<close> (\<open>tracker.rs\<close>), \<open>Cli_Live\<close>
    (\<open>bidx-cli/src/live.rs\<close>): the RPC client over a transport and a JSON parameter (interface \<open>node_serves\<close>),
    the HTTP transport and the ZMQ socket over their crates (interface \<open>http_serves\<close>), following the chain and
    reorganisations, and the part files of the live sink. \<open>Cli_Handover\<close> composes the bulk run with the tracker.
  \<^item> \<open>Cli_Bulk\<close>: the bulk run end to end. Its specification is a partial map updated block by block and a list of
    rows per part; \<open>run_parse\<close> is proved to complete and to leave exactly that, over components that do not
    fail (interfaces \<open>host_writes\<close> and \<open>bulk_env\<close>). The one condition on the chain is that no block creates and
    spends an outpoint that was already unspent. \<open>Cli_Follow\<close> proves the live command against the same
    specification: from a tip on the chain of the node it leaves what a bulk run over the new blocks would.
  \<^item> \<open>Loader\<close> (\<open>bidx-loader/src\<close>): the ClickHouse statements, checked against the Parquet schemas.
  \<^item> \<open>Cli_Metrics\<close> (\<open>bidx-cli/src/bench/metrics.rs\<close>), \<open>Cli_Bench\<close>, \<open>Cli_Trial\<close> (\<open>bench/mod.rs\<close>): process statistics and
    the memory watchdog, the consumer of the benchmark (equal to production in the mode \<open>full\<close>), trials and reports.
  \<^item> \<open>Cli_Main\<close> (\<open>bidx-cli/src/main.rs\<close>): the subcommands with their required options and defaults, and the
    configuration each is run with.

  \<^bold>\<open>Bounds and orders.\<close> The endless loops of the tracker are their finite runs (a list of notifications, a
  number of polls). The order in which threads finish, and the order in which a hash map is visited, are
  arguments; theorems hold for every such order. What a thread observes of another (watchdog, measured
  times) is given by the environment. No fuel is used: every other loop is a total function, and theorems
  about success state that the function returns the value.

  \<^bold>\<open>Parameters.\<close> RocksDB, Arrow and Parquet, the digest, hex, base64 and JSON crates, the HTTP client and the ZMQ
  socket, the file system and host, the value parsers of clap, the ClickHouse client process and floating-point arithmetic are arguments of the definitions. The laws
  a theorem relies on are the interfaces named above, each interpreted on a concrete instance that
  the witnesses use.

  \<^bold>\<open>Not modelled.\<close> What clap does with the words of the command line, log setup, the sockets and threads inside
  the HTTP and ZMQ crates, printing and progress bars, the time spent inside database lookups (\<open>db_nanos\<close>), the
  thread pool itself, and the test modules. They carry no state of the index.
\<close>

end
